theory Spec2Isabelle
  imports Main
begin

section \<open>Shared model of element storage\<close>

text \<open>
  The three containers obtain raw element storage from an allocator and keep raw pointers
  into it.  An element pointer is modelled as a block identifier paired with an offset
  inside the block; \<open>None\<close> is the null pointer.  Everything the C++ standard leaves
  undefined (dereferencing null, subtracting pointers of different blocks, writing outside
  a block, reading a slot that holds no object) is an explicit error result.
\<close>

datatype error =
    out_of_range
  | length_error
  | null_dereference
  | invalid_pointer
  | out_of_bounds
  | uninitialised
  | use_after_free

type_synonym ptr = "(nat \<times> nat) option"

record 'a memory =
  bsize :: "nat list"
  cell :: "nat \<times> nat \<Rightarrow> 'a option"

definition empty_memory :: "'a memory" where
  "empty_memory = \<lparr>bsize = [], cell = (\<lambda>_. None)\<rparr>"

text \<open>\<open>allocator.allocate(n)\<close>: a fresh block of \<open>n\<close> slots, none of them constructed.\<close>

definition allocate :: "'a memory \<Rightarrow> nat \<Rightarrow> nat \<times> 'a memory" where
  "allocate m n = (length (bsize m), m\<lparr>bsize := bsize m @ [n]\<rparr>)"

definition in_bounds :: "'a memory \<Rightarrow> nat \<times> nat \<Rightarrow> bool" where
  "in_bounds m p = (fst p < length (bsize m) \<and> snd p < bsize m ! fst p)"

text \<open>\<open>allocator_traits::construct(alloc, p, v)\<close>.\<close>

definition construct :: "'a memory \<Rightarrow> ptr \<Rightarrow> 'a \<Rightarrow> error + 'a memory" where
  "construct m p v =
     (case p of
        None \<Rightarrow> Inl null_dereference
      | Some a \<Rightarrow> if in_bounds m a then Inr (m\<lparr>cell := (cell m)(a := Some v)\<rparr>)
                 else Inl out_of_bounds)"

text \<open>\<open>allocator_traits::destroy(alloc, p)\<close>.\<close>

definition destroy :: "'a memory \<Rightarrow> ptr \<Rightarrow> error + 'a memory" where
  "destroy m p =
     (case p of
        None \<Rightarrow> Inl null_dereference
      | Some a \<Rightarrow> if in_bounds m a then Inr (m\<lparr>cell := (cell m)(a := None)\<rparr>)
                 else Inl out_of_bounds)"

text \<open>Reading \<open>*p\<close>.\<close>

definition deref :: "'a memory \<Rightarrow> ptr \<Rightarrow> error + 'a" where
  "deref m p =
     (case p of
        None \<Rightarrow> Inl null_dereference
      | Some a \<Rightarrow> if in_bounds m a
                 then (case cell m a of None \<Rightarrow> Inl uninitialised | Some v \<Rightarrow> Inr v)
                 else Inl out_of_bounds)"

text \<open>
  \<open>static_cast<size_type>(p - q)\<close>: defined for two pointers into the same block and for
  two null pointers; a negative difference wraps around in the 64-bit unsigned
  \<open>size_type\<close>.
\<close>

definition ptr_diff :: "ptr \<Rightarrow> ptr \<Rightarrow> error + nat" where
  "ptr_diff p q =
     (case p of
        None \<Rightarrow> (case q of None \<Rightarrow> Inr 0 | Some _ \<Rightarrow> Inl invalid_pointer)
      | Some a \<Rightarrow>
          (case q of
             None \<Rightarrow> Inl invalid_pointer
           | Some b \<Rightarrow>
               if fst a = fst b
               then Inr (if snd b \<le> snd a then snd a - snd b else 2 ^ 64 + snd a - snd b)
               else Inl invalid_pointer))"

text \<open>\<open>p + n\<close> and \<open>p++\<close>.\<close>

definition ptr_add :: "ptr \<Rightarrow> nat \<Rightarrow> error + ptr" where
  "ptr_add p n =
     (case p of
        None \<Rightarrow> if n = 0 then Inr None else Inl invalid_pointer
      | Some a \<Rightarrow> Inr (Some (fst a, snd a + n)))"

text \<open>
  Results of operations whose loops follow links: \<open>None\<close> is a run that never returns,
  \<open>Some (Inl e)\<close> a run that raises or hits undefined behaviour, \<open>Some (Inr x)\<close> a normal
  return.
\<close>

type_synonym 'x outcome = "(error + 'x) option"

definition ret :: "'x \<Rightarrow> 'x outcome" where
  "ret x = Some (Inr x)"

definition fail :: "error \<Rightarrow> 'x outcome" where
  "fail e = Some (Inl e)"

definition lift :: "error + 'x \<Rightarrow> 'x outcome" where
  "lift r = Some r"

definition bindE :: "'x outcome \<Rightarrow> ('x \<Rightarrow> 'y outcome) \<Rightarrow> 'y outcome" where
  "bindE m f =
     (case m of
        None \<Rightarrow> None
      | Some r \<Rightarrow> (case r of Inl e \<Rightarrow> Some (Inl e) | Inr x \<Rightarrow> f x))"

definition max_size :: nat where
  "max_size = 2 ^ 64 - 1"

text \<open>\<open>Min_segment_size_eval\<close>, as a function of \<open>sizeof(Type)\<close>.\<close>

definition Min_segment_size_eval :: "nat \<Rightarrow> nat" where
  "Min_segment_size_eval sizeof_Type =
     (if sizeof_Type \<ge> 32 then 8 else if sizeof_Type \<ge> 16 then 16 else 32)"


section \<open>concurrent_vector\<close>

text \<open>
  A \<open>Data_Segment\<close> object lives at a segment address: address \<open>0\<close> is the member
  \<open>mSegment\<close> of the vector, the others come from \<open>mSegmentAllocator\<close>.  Segment pointers
  are \<open>nat option\<close>, with \<open>None\<close> for \<open>nullptr\<close>.  The vector's own members \<open>mCurrent\<close> and
  \<open>mEnd\<close> are called \<open>v_mCurrent\<close> and \<open>v_mEnd\<close>, since a segment has members of the same
  names.  The mutex is not modelled: every operation runs alone.
\<close>

record Data_Segment =
  mBegin :: ptr
  mCurrent :: ptr
  mEnd :: ptr
  mSegBefore :: "nat option"
  mSegAfter :: "nat option"

definition null_segment :: Data_Segment where
  "null_segment =
     \<lparr>mBegin = None, mCurrent = None, mEnd = None, mSegBefore = None, mSegAfter = None\<rparr>"

record 'a concurrent_vector =
  segs :: "nat \<Rightarrow> Data_Segment"
  seg_next :: nat
  mem :: "'a memory"
  v_mCurrent :: "nat option"
  v_mEnd :: "nat option"

text \<open>The default constructor.\<close>

definition new_vector :: "'a concurrent_vector" where
  "new_vector =
     \<lparr>segs = (\<lambda>_. null_segment), seg_next = 1, mem = empty_memory,
      v_mCurrent = Some 0, v_mEnd = Some 0\<rparr>"

partial_function (option) Get_size_loop ::
  "(nat \<Rightarrow> Data_Segment) \<Rightarrow> nat option \<Rightarrow> nat \<Rightarrow> nat \<Rightarrow> nat outcome" where
  "Get_size_loop h cur iter result =
     (case ptr_diff (mCurrent (h iter)) (mBegin (h iter)) of
        Inl e \<Rightarrow> Some (Inl e)
      | Inr d \<Rightarrow>
          (case mSegAfter (h iter) of
             None \<Rightarrow> Some (Inr (result + d))
           | Some nxt \<Rightarrow>
               if Some nxt \<noteq> cur then Get_size_loop h cur nxt (result + d)
               else (case ptr_diff (mCurrent (h nxt)) (mBegin (h nxt)) of
                       Inl e \<Rightarrow> Some (Inl e)
                     | Inr d' \<Rightarrow> Some (Inr (result + d + d')))))"

declare Get_size_loop.simps [code]

definition Get_size :: "'a concurrent_vector \<Rightarrow> nat outcome" where
  "Get_size s = Get_size_loop (segs s) (v_mCurrent s) 0 0"

partial_function (option) Get_capacity_loop ::
  "(nat \<Rightarrow> Data_Segment) \<Rightarrow> nat \<Rightarrow> nat \<Rightarrow> nat outcome" where
  "Get_capacity_loop h iter result =
     (case ptr_diff (mEnd (h iter)) (mBegin (h iter)) of
        Inl e \<Rightarrow> Some (Inl e)
      | Inr d \<Rightarrow>
          (case mSegAfter (h iter) of
             None \<Rightarrow> Some (Inr (result + d))
           | Some nxt \<Rightarrow> Get_capacity_loop h nxt (result + d)))"

declare Get_capacity_loop.simps [code]

definition Get_capacity :: "'a concurrent_vector \<Rightarrow> nat outcome" where
  "Get_capacity s = Get_capacity_loop (segs s) 0 0"

text \<open>
  \<open>Get_value_at\<close> returns a reference, here the address of the slot.  Its loop has no
  exit but the \<open>return\<close>: when the walk runs off the chain it reads through a null
  segment pointer.
\<close>

partial_function (option) Get_value_at_loop ::
  "(nat \<Rightarrow> Data_Segment) \<Rightarrow> nat option \<Rightarrow> nat \<Rightarrow> (nat \<times> nat) outcome" where
  "Get_value_at_loop h target_segment index =
     (case target_segment of
        None \<Rightarrow> Some (Inl null_dereference)
      | Some a \<Rightarrow>
          (case ptr_diff (mEnd (h a)) (mBegin (h a)) of
             Inl e \<Rightarrow> Some (Inl e)
           | Inr segment_size \<Rightarrow>
               if index < segment_size
               then (case mBegin (h a) of
                       None \<Rightarrow> Some (Inl null_dereference)
                     | Some b \<Rightarrow> Some (Inr (fst b, snd b + index)))
               else Get_value_at_loop h (mSegAfter (h a)) (index - segment_size)))"

declare Get_value_at_loop.simps [code]

definition Get_value_at :: "'a concurrent_vector \<Rightarrow> nat \<Rightarrow> (nat \<times> nat) outcome" where
  "Get_value_at s index = Get_value_at_loop (segs s) (Some 0) index"

text \<open>
  \<open>at\<close> and \<open>operator[]\<close> return the reference together with the vector, which neither of
  them writes.
\<close>

definition at :: "'a concurrent_vector \<Rightarrow> nat \<Rightarrow> ((nat \<times> nat) \<times> 'a concurrent_vector) outcome" where
  "at s pos =
     bindE (Get_size s) (\<lambda>sz.
       if sz \<le> pos then fail out_of_range
       else bindE (Get_value_at s pos) (\<lambda>r. ret (r, s)))"

definition subscript :: "'a concurrent_vector \<Rightarrow> nat \<Rightarrow> ((nat \<times> nat) \<times> 'a concurrent_vector) outcome" where
  "subscript s pos = bindE (Get_value_at s pos) (\<lambda>r. ret (r, s))"

text \<open>The value read through the reference that \<open>at\<close> returns.\<close>

definition read_at :: "'a concurrent_vector \<Rightarrow> nat \<Rightarrow> 'a outcome" where
  "read_at s pos = bindE (at s pos) (\<lambda>r. lift (deref (mem (snd r)) (Some (fst r))))"

text \<open>
  \<open>operator=(concurrent_vector &&)\<close> and \<open>operator=(std::initializer_list<Type>)\<close>: both
  bodies are \<open>return *this;\<close>.  The result is the pair of the assigned-to vector and the
  argument.
\<close>

definition assign_move ::
  "'a concurrent_vector \<Rightarrow> 'a concurrent_vector \<Rightarrow> 'a concurrent_vector \<times> 'a concurrent_vector" where
  "assign_move this rhs = (this, rhs)"

definition assign_initializer_list ::
  "'a concurrent_vector \<Rightarrow> 'a list \<Rightarrow> 'a concurrent_vector \<times> 'a list" where
  "assign_initializer_list this iList = (this, iList)"

subsection \<open>Growth\<close>

text \<open>
  Sizes and capacities count slots that exist in storage, so sums of them are written
  without the wrap-around of \<open>size_type\<close>; the sum \<open>current_size + count\<close> in \<open>grow_by\<close>
  has a caller-supplied operand and wraps.  \<open>max_size()\<close> is the largest \<open>size_type\<close>.
\<close>

definition Calculate_new_capacity :: "'a concurrent_vector \<Rightarrow> nat \<Rightarrow> (nat \<times> nat) outcome" where
  "Calculate_new_capacity s new_size =
     bindE (Get_capacity s) (\<lambda>current_capacity.
       let size_limit = max_size in
       if current_capacity > size_limit - current_capacity div 2
       then ret (size_limit, current_capacity)
       else let Size = current_capacity + current_capacity div 2 in
            if Size < new_size then ret (new_size, current_capacity)
            else ret (Size, current_capacity))"

definition Calculate_new_segment_size :: "nat \<Rightarrow> 'a concurrent_vector \<Rightarrow> nat \<Rightarrow> nat outcome" where
  "Calculate_new_segment_size sizeof_Type s new_capacity =
     bindE (Calculate_new_capacity s new_capacity) (\<lambda>r.
       ret (max (Min_segment_size_eval sizeof_Type) (fst r - snd r)))"

definition Append_new_segment :: "nat \<Rightarrow> 'a concurrent_vector \<Rightarrow> 'a concurrent_vector outcome" where
  "Append_new_segment seg_size s =
     (if v_mCurrent s = Some 0 \<and> mBegin (segs s 0) = None
      then
        let newBegin = fst (allocate (mem s) seg_size) in
        ret (s\<lparr>mem := snd (allocate (mem s) seg_size),
               segs := (segs s)(0 :=
                 \<lparr>mBegin = Some (newBegin, 0), mCurrent = Some (newBegin, 0),
                  mEnd = Some (newBegin, seg_size), mSegBefore = None, mSegAfter = None\<rparr>)\<rparr>)
      else
        let newSegment = seg_next s;
            newBegin = fst (allocate (mem s) seg_size);
            h = (segs s)(newSegment :=
                 \<lparr>mBegin = Some (newBegin, 0), mCurrent = Some (newBegin, 0),
                  mEnd = Some (newBegin, seg_size), mSegBefore = v_mCurrent s,
                  mSegAfter = None\<rparr>)
        in case v_mCurrent s of
             None \<Rightarrow> fail null_dereference
           | Some c \<Rightarrow>
               ret (s\<lparr>mem := snd (allocate (mem s) seg_size),
                      seg_next := newSegment + 1,
                      segs := h(c := (h c)\<lparr>mSegAfter := Some newSegment\<rparr>),
                      v_mEnd := Some newSegment\<rparr>))"

text \<open>\<open>*p = v\<close> on an element: the slot must hold an object.\<close>

definition assign_at :: "'a memory \<Rightarrow> ptr \<Rightarrow> 'a \<Rightarrow> error + 'a memory" where
  "assign_at m p v =
     (case deref m p of Inl e \<Rightarrow> Inl e | Inr _ \<Rightarrow> construct m p v)"

text \<open>Decrementing an iterator's unsigned index.\<close>

definition index_dec :: "nat \<Rightarrow> nat" where
  "index_dec i = (if i = 0 then max_size else i - 1)"

partial_function (option) Move_backward_n ::
  "'a concurrent_vector \<Rightarrow> nat \<Rightarrow> nat \<Rightarrow> nat \<Rightarrow> 'a concurrent_vector outcome" where
  "Move_backward_n s target_it first_it last_it =
     (if first_it \<noteq> last_it
      then
        (case Get_value_at s (index_dec last_it) of
           None \<Rightarrow> None
         | Some r \<Rightarrow>
             (case r of
                Inl e \<Rightarrow> Some (Inl e)
              | Inr src \<Rightarrow>
                  (case deref (mem s) (Some src) of
                     Inl e \<Rightarrow> Some (Inl e)
                   | Inr v \<Rightarrow>
                       (case Get_value_at s (index_dec target_it) of
                          None \<Rightarrow> None
                        | Some r' \<Rightarrow>
                            (case r' of
                               Inl e \<Rightarrow> Some (Inl e)
                             | Inr dst \<Rightarrow>
                                 (case assign_at (mem s) (Some dst) v of
                                    Inl e \<Rightarrow> Some (Inl e)
                                  | Inr m \<Rightarrow>
                                      Move_backward_n (s\<lparr>mem := m\<rparr>) (index_dec target_it)
                                        first_it (index_dec last_it)))))))
      else Some (Inr s))"

declare Move_backward_n.simps [code]

text \<open>
  \<open>Emplace_at_without_reallocation\<close>: the iterator is turned into an address by
  \<open>Get_value_at\<close>; the result is the address of the new element and the vector.
\<close>

definition Emplace_at_without_reallocation ::
  "nat \<Rightarrow> 'a \<Rightarrow> 'a concurrent_vector \<Rightarrow> ((nat \<times> nat) \<times> 'a concurrent_vector) outcome" where
  "Emplace_at_without_reallocation location v s =
     bindE (Get_size s) (\<lambda>end_index.
       if location = end_index
       then
         bindE (Get_value_at s location) (\<lambda>p.
         bindE (lift (construct (mem s) (Some p) v)) (\<lambda>m.
         bindE (Get_value_at (s\<lparr>mem := m\<rparr>) location) (\<lambda>r. ret (r, s\<lparr>mem := m\<rparr>))))
       else
         bindE (Get_value_at s (index_dec end_index)) (\<lambda>before_end.
         bindE (lift (deref (mem s) (Some before_end))) (\<lambda>moved.
         bindE (Get_value_at s end_index) (\<lambda>p.
         bindE (lift (construct (mem s) (Some p) moved)) (\<lambda>m.
         bindE (Move_backward_n (s\<lparr>mem := m\<rparr>) end_index location (index_dec end_index)) (\<lambda>s1.
         bindE (Get_value_at s1 location) (\<lambda>q.
         bindE (lift (assign_at (mem s1) (Some q) v)) (\<lambda>m1.
         bindE (Get_value_at (s1\<lparr>mem := m1\<rparr>) location) (\<lambda>r.
           ret (r, s1\<lparr>mem := m1\<rparr>))))))))))"

text \<open>\<open>mCurrent->mCurrent++\<close> on the vector's current segment.\<close>

definition advance_current :: "'a concurrent_vector \<Rightarrow> 'a concurrent_vector outcome" where
  "advance_current s =
     (case v_mCurrent s of
        None \<Rightarrow> fail null_dereference
      | Some c \<Rightarrow>
          bindE (lift (ptr_add (mCurrent (segs s c)) 1)) (\<lambda>p.
            ret (s\<lparr>segs := (segs s)(c := (segs s c)\<lparr>mCurrent := p\<rparr>)\<rparr>)))"

text \<open>\<open>mCurrent = mCurrent->mSegAfter\<close>.\<close>

definition step_current_forward :: "'a concurrent_vector \<Rightarrow> 'a concurrent_vector outcome" where
  "step_current_forward s =
     (case v_mCurrent s of
        None \<Rightarrow> fail null_dereference
      | Some c \<Rightarrow> ret (s\<lparr>v_mCurrent := mSegAfter (segs s c)\<rparr>))"

text \<open>\<open>allocator_traits::construct(mAllocator, unfancy_ptr(mCurrent->mCurrent), args...)\<close>.\<close>

definition construct_at_current :: "'a \<Rightarrow> 'a concurrent_vector \<Rightarrow> 'a concurrent_vector outcome" where
  "construct_at_current v s =
     (case v_mCurrent s of
        None \<Rightarrow> fail null_dereference
      | Some c \<Rightarrow>
          bindE (lift (construct (mem s) (mCurrent (segs s c)) v)) (\<lambda>m. ret (s\<lparr>mem := m\<rparr>)))"

text \<open>\<open>pointer_traits::pointer_to(*(End() - 1))\<close>.\<close>

definition pointer_to_last :: "'a concurrent_vector \<Rightarrow> (nat \<times> nat) outcome" where
  "pointer_to_last s = bindE (Get_size s) (\<lambda>end_index. Get_value_at s (index_dec end_index))"

definition Emplace_back_with_reallocation ::
  "nat \<Rightarrow> 'a \<Rightarrow> 'a concurrent_vector \<Rightarrow> ((nat \<times> nat) \<times> 'a concurrent_vector) outcome" where
  "Emplace_back_with_reallocation sizeof_Type v s =
     bindE (Get_size s) (\<lambda>current_size.
       if current_size = max_size then fail length_error
       else
         bindE (Calculate_new_segment_size sizeof_Type s (current_size + 1)) (\<lambda>new_segment_size.
         bindE (Append_new_segment new_segment_size s) (\<lambda>s1.
         bindE (if current_size \<noteq> 0 then step_current_forward s1 else ret s1) (\<lambda>s2.
         bindE (construct_at_current v s2) (\<lambda>s3.
         bindE (advance_current s3) (\<lambda>s4.
         bindE (pointer_to_last s4) (\<lambda>r. ret (r, s4))))))))"

definition emplace_back ::
  "nat \<Rightarrow> 'a \<Rightarrow> 'a concurrent_vector \<Rightarrow> ((nat \<times> nat) \<times> 'a concurrent_vector) outcome" where
  "emplace_back sizeof_Type v s =
     bindE (if v_mCurrent s \<noteq> v_mEnd s then ret True
            else (case v_mCurrent s of
                    None \<Rightarrow> fail null_dereference
                  | Some c \<Rightarrow> ret (mCurrent (segs s c) \<noteq> mEnd (segs s c)))) (\<lambda>room.
       if room
       then
         bindE (Get_size s) (\<lambda>location.
         bindE (Emplace_at_without_reallocation location v s) (\<lambda>r.
         bindE (advance_current (snd r)) (\<lambda>s1. ret (fst r, s1))))
       else Emplace_back_with_reallocation sizeof_Type v s)"

definition push_back :: "nat \<Rightarrow> 'a \<Rightarrow> 'a concurrent_vector \<Rightarrow> 'a concurrent_vector outcome" where
  "push_back sizeof_Type v s = bindE (emplace_back sizeof_Type v s) (\<lambda>r. ret (snd r))"

text \<open>A sequence of \<open>push_back\<close> calls, stopping at the first that fails.\<close>

fun push_back_all :: "nat \<Rightarrow> 'a list \<Rightarrow> 'a concurrent_vector \<Rightarrow> 'a concurrent_vector outcome" where
  "push_back_all sizeof_Type [] s = ret s"
| "push_back_all sizeof_Type (v # vs) s =
     bindE (push_back sizeof_Type v s) (push_back_all sizeof_Type vs)"

text \<open>
  \<open>Fill_n(target, count, val)\<close> with an iterator target: each round constructs at the
  address of \<open>*target\<close> and advances the iterator's index.
\<close>

fun Fill_n :: "nat \<Rightarrow> nat \<Rightarrow> 'a \<Rightarrow> 'a concurrent_vector \<Rightarrow> 'a concurrent_vector outcome" where
  "Fill_n target 0 val s = ret s"
| "Fill_n target (Suc count) val s =
     bindE (Get_value_at s target) (\<lambda>p.
     bindE (lift (construct (mem s) (Some p) val)) (\<lambda>m.
       Fill_n (target + 1) count val (s\<lparr>mem := m\<rparr>)))"

partial_function (option) Adjust_walk ::
  "(nat \<Rightarrow> Data_Segment) \<Rightarrow> nat option \<Rightarrow> nat \<Rightarrow> ((nat \<Rightarrow> Data_Segment) \<times> nat option) outcome" where
  "Adjust_walk h target_segment index =
     (case target_segment of
        None \<Rightarrow> Some (Inr (h, None))
      | Some a \<Rightarrow>
          (case ptr_diff (mEnd (h a)) (mBegin (h a)) of
             Inl e \<Rightarrow> Some (Inl e)
           | Inr segment_size \<Rightarrow>
               if index < segment_size
               then (case ptr_add (mBegin (h a)) index of
                       Inl e \<Rightarrow> Some (Inl e)
                     | Inr p \<Rightarrow> Some (Inr (h(a := (h a)\<lparr>mCurrent := p\<rparr>), Some a)))
               else Adjust_walk (h(a := (h a)\<lparr>mCurrent := mEnd (h a)\<rparr>))
                      (mSegAfter (h a)) (index - segment_size)))"

declare Adjust_walk.simps [code]

partial_function (option) Adjust_reset ::
  "(nat \<Rightarrow> Data_Segment) \<Rightarrow> nat option \<Rightarrow> (nat \<Rightarrow> Data_Segment) outcome" where
  "Adjust_reset h reseted_segments =
     (case reseted_segments of
        None \<Rightarrow> Some (Inr h)
      | Some a \<Rightarrow> Adjust_reset (h(a := (h a)\<lparr>mCurrent := mBegin (h a)\<rparr>)) (mSegAfter (h a)))"

declare Adjust_reset.simps [code]

definition Adjust_segments_and_get_last_address_for ::
  "nat \<Rightarrow> 'a concurrent_vector \<Rightarrow> (nat option \<times> 'a concurrent_vector) outcome" where
  "Adjust_segments_and_get_last_address_for index s =
     bindE (Adjust_walk (segs s) (Some 0) index) (\<lambda>r.
       case snd r of
         None \<Rightarrow> ret (None, s\<lparr>segs := fst r\<rparr>)
       | Some a \<Rightarrow>
           bindE (Adjust_reset (fst r) (mSegAfter (fst r a))) (\<lambda>h.
             ret (Some a, s\<lparr>segs := h\<rparr>)))"

definition grow_by :: "nat \<Rightarrow> nat \<Rightarrow> 'a \<Rightarrow> 'a concurrent_vector \<Rightarrow> 'a concurrent_vector outcome" where
  "grow_by sizeof_Type count val s =
     bindE (Get_size s) (\<lambda>current_size.
       let new_size = (current_size + count) mod 2 ^ 64 in
       if new_size > max_size then fail length_error
       else
         bindE (Get_capacity s) (\<lambda>current_capacity.
         bindE (if new_size > current_capacity
                then bindE (Calculate_new_segment_size sizeof_Type s new_size) (\<lambda>n.
                       Append_new_segment n s)
                else ret s) (\<lambda>s1.
         bindE (Get_size s1) (\<lambda>end_index.
         bindE (Fill_n end_index count val s1) (\<lambda>s2.
         bindE (Adjust_segments_and_get_last_address_for new_size s2) (\<lambda>r.
           ret ((snd r)\<lparr>v_mCurrent := fst r\<rparr>)))))))"


subsection \<open>The chain of segments as a list\<close>

fun chain :: "(nat \<Rightarrow> Data_Segment) \<Rightarrow> nat option \<Rightarrow> nat list \<Rightarrow> bool" where
  "chain h p [] = (p = None)"
| "chain h p (a # as) = (p = Some a \<and> chain h (mSegAfter (h a)) as)"

definition seg_ok :: "Data_Segment \<Rightarrow> bool" where
  "seg_ok sg =
     (case mBegin sg of
        None \<Rightarrow> mCurrent sg = None \<and> mEnd sg = None
      | Some b \<Rightarrow>
          snd b = 0 \<and>
          (case mCurrent sg of None \<Rightarrow> False | Some c \<Rightarrow> fst c = fst b) \<and>
          (case mEnd sg of None \<Rightarrow> False | Some e \<Rightarrow> fst e = fst b))"

definition seg_cap :: "Data_Segment \<Rightarrow> nat" where
  "seg_cap sg = (case mEnd sg of None \<Rightarrow> 0 | Some e \<Rightarrow> snd e)"

definition seg_used :: "Data_Segment \<Rightarrow> nat" where
  "seg_used sg = (case mCurrent sg of None \<Rightarrow> 0 | Some c \<Rightarrow> snd c)"

fun slot_of :: "(nat \<Rightarrow> Data_Segment) \<Rightarrow> nat list \<Rightarrow> nat \<Rightarrow> (nat \<times> nat) option" where
  "slot_of h [] pos = None"
| "slot_of h (a # as) pos =
     (if pos < seg_cap (h a)
      then (case mBegin (h a) of None \<Rightarrow> None | Some b \<Rightarrow> Some (fst b, pos))
      else slot_of h as (pos - seg_cap (h a)))"

definition cap_sum :: "(nat \<Rightarrow> Data_Segment) \<Rightarrow> nat list \<Rightarrow> nat" where
  "cap_sum h ps = sum_list (map (\<lambda>a. seg_cap (h a)) ps)"

definition used_sum :: "(nat \<Rightarrow> Data_Segment) \<Rightarrow> nat list \<Rightarrow> nat" where
  "used_sum h ps = sum_list (map (\<lambda>a. seg_used (h a)) ps)"

fun counted :: "nat option \<Rightarrow> nat list \<Rightarrow> nat list" where
  "counted cur [] = []"
| "counted cur (b # bs) = (if Some b = cur then [b] else b # counted cur bs)"

lemma bindE_simps [simp]:
  "bindE None f = None"
  "bindE (Some (Inl e)) f = Some (Inl e)"
  "bindE (Some (Inr x)) f = f x"
  "bindE (ret x) f = f x"
  "bindE (fail e) f = fail e"
  by (simp_all add: bindE_def ret_def fail_def)

lemma outcome_simps [simp]:
  "ret x \<noteq> fail e" "fail e \<noteq> ret x" "ret x \<noteq> None" "fail e \<noteq> None"
  "None \<noteq> ret x" "None \<noteq> fail e"
  "(ret x = ret y) = (x = y)" "(fail e = fail e') = (e = e')"
  "(Some (Inr x) = ret y) = (x = y)" "(ret y = Some (Inr x)) = (y = x)"
  "(Some (Inl e) = fail e') = (e = e')" "(fail e' = Some (Inl e)) = (e' = e)"
  "Some (Inl e) \<noteq> ret x" "ret x \<noteq> Some (Inl e)"
  "Some (Inr x) \<noteq> fail e" "fail e \<noteq> Some (Inr x)"
  "lift (Inr x) = ret x" "lift (Inl e) = fail e"
  by (auto simp: ret_def fail_def lift_def)

lemma bindE_eq_ret:
  "(bindE m f = ret y) = (\<exists>x. m = ret x \<and> f x = ret y)"
  by (auto simp: bindE_def ret_def split: option.splits sum.splits)

lemma ptr_diff_end_begin: "seg_ok sg \<Longrightarrow> ptr_diff (mEnd sg) (mBegin sg) = Inr (seg_cap sg)"
  by (auto simp: seg_ok_def ptr_diff_def seg_cap_def split: option.splits)

lemma ptr_diff_current_begin: "seg_ok sg \<Longrightarrow> ptr_diff (mCurrent sg) (mBegin sg) = Inr (seg_used sg)"
  by (auto simp: seg_ok_def ptr_diff_def seg_used_def split: option.splits)

lemma seg_cap_pos_begin: "seg_ok sg \<Longrightarrow> 0 < seg_cap sg \<Longrightarrow> \<exists>b. mBegin sg = Some (b, 0)"
  by (auto simp: seg_ok_def seg_cap_def split: option.splits)

lemma chain_cong:
  "\<forall>a\<in>set ps. mSegAfter (h' a) = mSegAfter (h a) \<Longrightarrow> chain h' p ps = chain h p ps"
  by (induction ps arbitrary: p) auto

lemma chain_hd: "chain h (Some a) ps \<Longrightarrow> \<exists>rest. ps = a # rest"
  by (cases ps) auto

lemma chain_last_None: "chain h p ps \<Longrightarrow> ps \<noteq> [] \<Longrightarrow> mSegAfter (h (last ps)) = None"
  by (induction ps arbitrary: p) (auto split: if_splits)

lemma chain_snoc:
  "chain h p ps \<Longrightarrow> ps \<noteq> [] \<Longrightarrow> n \<notin> set ps \<Longrightarrow> distinct ps \<Longrightarrow>
   mSegAfter (h' n) = None \<Longrightarrow> mSegAfter (h' (last ps)) = Some n \<Longrightarrow>
   \<forall>a\<in>set (butlast ps). mSegAfter (h' a) = mSegAfter (h a) \<Longrightarrow>
   chain h' p (ps @ [n])"
proof (induction ps arbitrary: p)
  case Nil
  then show ?case by simp
next
  case (Cons a ps)
  show ?case
  proof (cases ps)
    case Nil
    with Cons.prems show ?thesis by simp
  next
    case (Cons b qs)
    with Cons.prems Cons.IH[of "mSegAfter (h a)"] show ?thesis by auto
  qed
qed

lemma slot_of_cong:
  "\<forall>a\<in>set ps. mBegin (h' a) = mBegin (h a) \<and> mEnd (h' a) = mEnd (h a) \<Longrightarrow>
   slot_of h' ps pos = slot_of h ps pos"
  by (induction ps arbitrary: pos) (auto simp: seg_cap_def)

lemma cap_sum_cong:
  "\<forall>a\<in>set ps. mEnd (h' a) = mEnd (h a) \<Longrightarrow> cap_sum h' ps = cap_sum h ps"
  unfolding cap_sum_def by (induction ps) (auto simp: seg_cap_def)

lemma slot_of_append_Some:
  "slot_of h ps pos = Some q \<Longrightarrow> slot_of h (ps @ qs) pos = Some q"
  by (induction ps arbitrary: pos) (auto split: if_splits)

lemma slot_of_ge: "cap_sum h ps \<le> pos \<Longrightarrow> slot_of h ps pos = None"
  unfolding cap_sum_def by (induction ps arbitrary: pos) auto

lemma slot_of_append_ge:
  "cap_sum h ps \<le> pos \<Longrightarrow> slot_of h (ps @ qs) pos = slot_of h qs (pos - cap_sum h ps)"
  unfolding cap_sum_def by (induction ps arbitrary: pos) auto

lemma slot_of_Some_lt: "slot_of h ps pos = Some q \<Longrightarrow> pos < cap_sum h ps"
  using slot_of_ge[of h ps pos] by (cases "pos < cap_sum h ps") auto

lemma slot_of_lt:
  "\<forall>a\<in>set ps. seg_ok (h a) \<Longrightarrow> pos < cap_sum h ps \<Longrightarrow>
   \<exists>k j b. k < length ps \<and> j < seg_cap (h (ps ! k)) \<and> pos = cap_sum h (take k ps) + j \<and>
     mBegin (h (ps ! k)) = Some (b, 0) \<and> slot_of h ps pos = Some (b, j)"
proof (induction ps arbitrary: pos)
  case Nil
  then show ?case by (simp add: cap_sum_def)
next
  case (Cons a ps)
  show ?case
  proof (cases "pos < seg_cap (h a)")
    case True
    with Cons.prems seg_cap_pos_begin[of "h a"] obtain b where b: "mBegin (h a) = Some (b, 0)" by auto
    show ?thesis
      apply (rule exI[of _ 0], rule exI[of _ pos], rule exI[of _ b])
      using True b by (simp add: cap_sum_def)
  next
    case False
    with Cons.prems have "pos - seg_cap (h a) < cap_sum h ps" by (auto simp: cap_sum_def)
    with Cons.IH[of "pos - seg_cap (h a)"] Cons.prems obtain k j b where
      kj: "k < length ps" "j < seg_cap (h (ps ! k))" "pos - seg_cap (h a) = cap_sum h (take k ps) + j"
        "mBegin (h (ps ! k)) = Some (b, 0)" "slot_of h ps (pos - seg_cap (h a)) = Some (b, j)" by auto
    show ?thesis
      apply (rule exI[of _ "Suc k"], rule exI[of _ j], rule exI[of _ b])
      using kj False by (simp add: cap_sum_def)
  qed
qed

lemma slot_of_mem:
  "slot_of h ps pos = Some q \<Longrightarrow>
   \<exists>a\<in>set ps. \<exists>b. mBegin (h a) = Some b \<and> fst b = fst q \<and> snd q < seg_cap (h a)"
proof (induction ps arbitrary: pos)
  case Nil
  then show ?case by simp
next
  case (Cons a ps)
  show ?case
  proof (cases "pos < seg_cap (h a)")
    case True
    with Cons.prems show ?thesis by (auto split: option.splits)
  next
    case False
    with Cons.prems Cons.IH[of "pos - seg_cap (h a)"] show ?thesis by auto
  qed
qed

text \<open>Distinct segments own distinct blocks.\<close>

definition blocks_distinct :: "(nat \<Rightarrow> Data_Segment) \<Rightarrow> nat list \<Rightarrow> bool" where
  "blocks_distinct h ps =
     (\<forall>a\<in>set ps. \<forall>a'\<in>set ps. \<forall>b b'. mBegin (h a) = Some b \<and> mBegin (h a') = Some b' \<and> fst b = fst b'
         \<longrightarrow> a = a')"

lemma blocks_distinctD:
  "blocks_distinct h ps \<Longrightarrow> a \<in> set ps \<Longrightarrow> a' \<in> set ps \<Longrightarrow> mBegin (h a) = Some b \<Longrightarrow>
   mBegin (h a') = Some b' \<Longrightarrow> fst b = fst b' \<Longrightarrow> a = a'"
  unfolding blocks_distinct_def by blast

lemma blocks_distinct_tl: "blocks_distinct h (a # ps) \<Longrightarrow> blocks_distinct h ps"
  unfolding blocks_distinct_def by simp

lemma slot_of_inj:
  "slot_of h ps i = Some q \<Longrightarrow> slot_of h ps j = Some q \<Longrightarrow> distinct ps \<Longrightarrow>
   blocks_distinct h ps \<Longrightarrow> i = j"
proof (induction ps arbitrary: i j)
  case Nil
  then show ?case by simp
next
  case (Cons a ps)
  have bd: "blocks_distinct h ps" using Cons.prems(4) by (rule blocks_distinct_tl)
  have notin: "\<And>pos q. slot_of h ps pos = Some q \<Longrightarrow> \<forall>b. mBegin (h a) = Some b \<longrightarrow> fst b \<noteq> fst q"
  proof (intro allI impI)
    fix pos q b assume s: "slot_of h ps pos = Some q" and b: "mBegin (h a) = Some b"
    from slot_of_mem[OF s] obtain a' b' where a': "a' \<in> set ps" "mBegin (h a') = Some b'" "fst b' = fst q"
      by auto
    show "fst b \<noteq> fst q"
    proof
      assume "fst b = fst q"
      with a' b blocks_distinctD[OF Cons.prems(4), of a a' b b'] have "a = a'" by simp
      with a' Cons.prems(3) show False by auto
    qed
  qed
  show ?case
  proof (cases "i < seg_cap (h a)")
    case True
    note i = this
    show ?thesis
    proof (cases "j < seg_cap (h a)")
      case True
      with i Cons.prems show ?thesis by (auto split: option.splits)
    next
      case False
      with i Cons.prems notin[of "j - seg_cap (h a)" q] show ?thesis by (auto split: option.splits)
    qed
  next
    case False
    note i = this
    show ?thesis
    proof (cases "j < seg_cap (h a)")
      case True
      with i Cons.prems notin[of "i - seg_cap (h a)" q] show ?thesis by (auto split: option.splits)
    next
      case False
      with i Cons.prems Cons.IH[of "i - seg_cap (h a)" "j - seg_cap (h a)"] bd show ?thesis by auto
    qed
  qed
qed

subsection \<open>The loops on a chain\<close>

lemma Get_value_at_loop_step:
  "seg_ok (h a) \<Longrightarrow>
   Get_value_at_loop h (Some a) pos =
     (if pos < seg_cap (h a)
      then (case mBegin (h a) of None \<Rightarrow> Some (Inl null_dereference)
            | Some b \<Rightarrow> Some (Inr (fst b, snd b + pos)))
      else Get_value_at_loop h (mSegAfter (h a)) (pos - seg_cap (h a)))"
  by (subst Get_value_at_loop.simps) (simp add: ptr_diff_end_begin)

lemma Get_value_at_loop_chain:
  "chain h p ps \<Longrightarrow> \<forall>a\<in>set ps. seg_ok (h a) \<Longrightarrow>
   Get_value_at_loop h p pos =
     (case slot_of h ps pos of None \<Rightarrow> fail null_dereference | Some x \<Rightarrow> ret x)"
proof (induction ps arbitrary: p pos)
  case Nil
  then show ?case by (simp add: Get_value_at_loop.simps fail_def)
next
  case (Cons a ps)
  from Cons.prems have p: "p = Some a" and ch: "chain h (mSegAfter (h a)) ps"
    and ok: "seg_ok (h a)" and oks: "\<forall>a\<in>set ps. seg_ok (h a)" by auto
  from seg_cap_pos_begin[OF ok] have "0 < seg_cap (h a) \<Longrightarrow> \<exists>b. mBegin (h a) = Some (b, 0)" .
  then show ?case
    using Cons.IH[OF ch oks] ok by (auto simp: p Get_value_at_loop_step ret_def)
qed

lemma Get_capacity_loop_step:
  "seg_ok (h a) \<Longrightarrow>
   Get_capacity_loop h a r =
     (case mSegAfter (h a) of None \<Rightarrow> Some (Inr (r + seg_cap (h a)))
      | Some nxt \<Rightarrow> Get_capacity_loop h nxt (r + seg_cap (h a)))"
  by (subst Get_capacity_loop.simps) (simp add: ptr_diff_end_begin)

lemma Get_capacity_loop_chain:
  "chain h (Some a) ps \<Longrightarrow> \<forall>a\<in>set ps. seg_ok (h a) \<Longrightarrow>
   Get_capacity_loop h a r = ret (r + cap_sum h ps)"
proof (induction ps arbitrary: a r)
  case Nil
  then show ?case by simp
next
  case (Cons x ps)
  then have x: "x = a" by simp
  from Cons.prems have ok: "seg_ok (h a)" and oks: "\<forall>a\<in>set ps. seg_ok (h a)" by (auto simp: x)
  show ?case
  proof (cases ps)
    case Nil
    with Cons.prems ok show ?thesis
      by (simp add: Get_capacity_loop_step x cap_sum_def ret_def)
  next
    case (Cons y qs)
    with Cons.prems have nx: "mSegAfter (h a) = Some y" and ch: "chain h (Some y) ps" by auto
    show ?thesis
      using Cons.IH[OF ch oks] nx ok
      by (simp add: Get_capacity_loop_step x cap_sum_def)
  qed
qed

lemma Get_size_loop_step:
  "seg_ok (h a) \<Longrightarrow>
   Get_size_loop h cur a r =
     (case mSegAfter (h a) of
        None \<Rightarrow> Some (Inr (r + seg_used (h a)))
      | Some nxt \<Rightarrow>
          if Some nxt \<noteq> cur then Get_size_loop h cur nxt (r + seg_used (h a))
          else (case ptr_diff (mCurrent (h nxt)) (mBegin (h nxt)) of
                  Inl e \<Rightarrow> Some (Inl e)
                | Inr d' \<Rightarrow> Some (Inr (r + seg_used (h a) + d'))))"
  by (subst Get_size_loop.simps) (simp add: ptr_diff_current_begin)

lemma Get_size_loop_chain:
  "chain h (Some a) (a # rest) \<Longrightarrow> \<forall>a\<in>set (a # rest). seg_ok (h a) \<Longrightarrow>
   Get_size_loop h cur a r = ret (r + seg_used (h a) + used_sum h (counted cur rest))"
proof (induction rest arbitrary: a r)
  case Nil
  then show ?case by (simp add: Get_size_loop_step used_sum_def ret_def)
next
  case (Cons b rest)
  from Cons.prems have nx: "mSegAfter (h a) = Some b" and ch: "chain h (Some b) (b # rest)"
    and ok: "seg_ok (h a)" and okb: "seg_ok (h b)" and oks: "\<forall>a\<in>set (b # rest). seg_ok (h a)"
    by auto
  show ?case
    using Cons.IH[OF ch oks, of "r + seg_used (h a)"] nx ok okb
    by (simp add: Get_size_loop_step used_sum_def ptr_diff_current_begin ret_def)
qed

lemma counted_all:
  "cur \<notin> Some ` set (butlast bs) \<Longrightarrow> counted cur bs = bs"
  by (induction bs) (auto split: if_splits)

lemma counted_subset: "set (counted cur bs) \<subseteq> set bs"
  by (induction bs) auto

lemma counted_distinct: "distinct bs \<Longrightarrow> distinct (counted cur bs)"
  using counted_subset[of cur] by (induction bs) auto

lemma counted_mem: "c \<in> set bs \<Longrightarrow> c \<in> set (counted (Some c) bs)"
  by (induction bs) auto


subsection \<open>The representation invariant and the append operations\<close>

definition blocks_ok :: "'a memory \<Rightarrow> (nat \<Rightarrow> Data_Segment) \<Rightarrow> nat list \<Rightarrow> bool" where
  "blocks_ok m h ps =
     (\<forall>a\<in>set ps. \<forall>b. mBegin (h a) = Some b \<longrightarrow>
        fst b < length (bsize m) \<and> bsize m ! fst b = seg_cap (h a))"

definition vec_inv :: "'a concurrent_vector \<Rightarrow> nat list \<Rightarrow> bool" where
  "vec_inv s ps =
     (chain (segs s) (Some 0) ps \<and> distinct ps \<and>
      (\<forall>a\<in>set ps. a < seg_next s) \<and>
      (\<forall>a\<in>set ps. seg_ok (segs s a)) \<and>
      v_mEnd s = Some (last ps) \<and>
      (\<forall>c. v_mCurrent s = Some c \<longrightarrow> c \<in> set ps) \<and>
      blocks_distinct (segs s) ps \<and>
      blocks_ok (mem s) (segs s) ps)"

definition vsize :: "'a concurrent_vector \<Rightarrow> nat list \<Rightarrow> nat" where
  "vsize s ps = used_sum (segs s) (hd ps # counted (v_mCurrent s) (tl ps))"

lemma vec_inv_hd: "vec_inv s ps \<Longrightarrow> \<exists>rest. ps = 0 # rest"
  unfolding vec_inv_def using chain_hd by blast

lemma Get_value_at_inv:
  "vec_inv s ps \<Longrightarrow>
   Get_value_at s pos = (case slot_of (segs s) ps pos of None \<Rightarrow> fail null_dereference | Some x \<Rightarrow> ret x)"
  unfolding Get_value_at_def vec_inv_def by (simp add: Get_value_at_loop_chain)

lemma Get_capacity_inv: "vec_inv s ps \<Longrightarrow> Get_capacity s = ret (cap_sum (segs s) ps)"
  unfolding Get_capacity_def vec_inv_def using Get_capacity_loop_chain[of "segs s" 0 ps 0] by simp

lemma Get_size_inv: "vec_inv s ps \<Longrightarrow> Get_size s = ret (vsize s ps)"
proof -
  assume inv: "vec_inv s ps"
  then obtain rest where ps: "ps = 0 # rest" using vec_inv_hd by blast
  from inv have "chain (segs s) (Some 0) (0 # rest)" "\<forall>a\<in>set (0 # rest). seg_ok (segs s a)"
    unfolding vec_inv_def ps by auto
  from Get_size_loop_chain[OF this, of "v_mCurrent s" 0]
  show ?thesis by (simp add: Get_size_def vsize_def ps used_sum_def)
qed

lemma slot_in_bounds:
  assumes "vec_inv s ps" "slot_of (segs s) ps pos = Some q"
  shows "in_bounds (mem s) q"
proof -
  from slot_of_mem[OF assms(2)] obtain a b where
    a: "a \<in> set ps" "mBegin (segs s a) = Some b" "fst b = fst q" "snd q < seg_cap (segs s a)" by auto
  with assms(1) have "fst b < length (bsize (mem s)) \<and> bsize (mem s) ! fst b = seg_cap (segs s a)"
    unfolding vec_inv_def blocks_ok_def by blast
  with a show ?thesis by (simp add: in_bounds_def)
qed

text \<open>Writing an element slot keeps the structure.\<close>

lemma vec_inv_mem_cell:
  "vec_inv s ps \<Longrightarrow> vec_inv (s\<lparr>mem := (mem s)\<lparr>cell := f\<rparr>\<rparr>) ps"
  unfolding vec_inv_def blocks_ok_def by simp

lemma Emplace_at_without_reallocation_end:
  assumes inv: "vec_inv s ps"
    and r: "Emplace_at_without_reallocation (vsize s ps) v s = ret (q, s1)"
  shows "slot_of (segs s) ps (vsize s ps) = Some q \<and>
         s1 = s\<lparr>mem := (mem s)\<lparr>cell := (cell (mem s))(q := Some v)\<rparr>\<rparr>"
proof (cases "slot_of (segs s) ps (vsize s ps)")
  case None
  with r inv show ?thesis
    by (simp add: Emplace_at_without_reallocation_def Get_size_inv Get_value_at_inv)
next
  case (Some p)
  let ?s1 = "s\<lparr>mem := (mem s)\<lparr>cell := (cell (mem s))(p := Some v)\<rparr>\<rparr>"
  have inv1: "vec_inv ?s1 ps" using inv by (rule vec_inv_mem_cell)
  have "in_bounds (mem s) p" using slot_in_bounds[OF inv Some] .
  then have c: "construct (mem s) (Some p) v = Inr ((mem s)\<lparr>cell := (cell (mem s))(p := Some v)\<rparr>)"
    by (simp add: construct_def)
  have g: "Get_value_at ?s1 (vsize s ps) = ret p"
    using Get_value_at_inv[OF inv1, of "vsize s ps"] Some by simp
  from r have "p = q \<and> ?s1 = s1"
    by (auto simp: Emplace_at_without_reallocation_def Get_size_inv[OF inv] Get_value_at_inv[OF inv] Some c g)
  with Some show ?thesis by auto
qed

lemma advance_current_ret:
  assumes "advance_current s = ret s'"
  shows "\<exists>c p. v_mCurrent s = Some c \<and> mCurrent (segs s c) = Some p \<and>
           s' = s\<lparr>segs := (segs s)(c := (segs s c)\<lparr>mCurrent := Some (fst p, snd p + 1)\<rparr>)\<rparr>"
  using assms
  by (auto simp: advance_current_def ptr_add_def bindE_eq_ret lift_def ret_def fail_def
           split: option.splits if_splits)


lemma sum_list_map_upd_distinct:
  "distinct xs \<Longrightarrow> c \<in> set xs \<Longrightarrow> f c = g c + (1::nat) \<Longrightarrow> \<forall>x\<in>set xs. x \<noteq> c \<longrightarrow> f x = g x \<Longrightarrow>
   sum_list (map f xs) = sum_list (map g xs) + 1"
proof (induction xs)
  case Nil
  then show ?case by simp
next
  case (Cons x xs)
  show ?case
  proof (cases "x = c")
    case True
    with Cons.prems have "c \<notin> set xs" by auto
    with Cons.prems have "\<forall>y\<in>set xs. f y = g y" by auto
    then have "map f xs = map g xs" by simp
    then have "sum_list (map f xs) = sum_list (map g xs)" by (rule arg_cong)
    with True Cons.prems show ?thesis by simp
  next
    case False
    with Cons.prems Cons.IH show ?thesis by auto
  qed
qed

lemma counted_hd_notin: "c \<notin> set bs \<Longrightarrow> counted (Some c) bs = bs"
  by (induction bs) auto

text \<open>The fast path of \<open>emplace_back\<close>: one slot written, one cursor advanced.\<close>

definition write_and_advance ::
  "'a concurrent_vector \<Rightarrow> nat \<times> nat \<Rightarrow> 'a \<Rightarrow> nat \<Rightarrow> nat \<times> nat \<Rightarrow> 'a concurrent_vector" where
  "write_and_advance s q v c p =
     s\<lparr>mem := (mem s)\<lparr>cell := (cell (mem s))(q := Some v)\<rparr>,
       segs := (segs s)(c := (segs s c)\<lparr>mCurrent := Some (fst p, snd p + 1)\<rparr>)\<rparr>"

lemma write_and_advance_inv:
  assumes inv: "vec_inv s ps" and c: "v_mCurrent s = Some c" and p: "mCurrent (segs s c) = Some p"
  shows "vec_inv (write_and_advance s q v c p) ps"
    and "vsize (write_and_advance s q v c p) ps = vsize s ps + 1"
    and "slot_of (segs (write_and_advance s q v c p)) ps i = slot_of (segs s) ps i"
proof -
  let ?s' = "write_and_advance s q v c p"
  have cin: "c \<in> set ps" using inv c by (simp add: vec_inv_def)
  have okc: "seg_ok (segs s c)" using inv cin by (simp add: vec_inv_def)
  have fields: "\<And>a. mBegin (segs ?s' a) = mBegin (segs s a)" "\<And>a. mEnd (segs ?s' a) = mEnd (segs s a)"
    "\<And>a. mSegAfter (segs ?s' a) = mSegAfter (segs s a)"
    by (simp_all add: write_and_advance_def)
  have caps: "\<And>a. seg_cap (segs ?s' a) = seg_cap (segs s a)" by (simp add: seg_cap_def fields)
  have ok': "\<forall>a\<in>set ps. seg_ok (segs ?s' a)"
  proof
    fix a assume a: "a \<in> set ps"
    show "seg_ok (segs ?s' a)"
    proof (cases "a = c")
      case True
      with okc p show ?thesis
        by (auto simp: seg_ok_def write_and_advance_def split: option.splits)
    next
      case False
      with inv a show ?thesis by (simp add: vec_inv_def write_and_advance_def)
    qed
  qed
  have ch: "chain (segs ?s') (Some 0) ps"
    using inv chain_cong[of ps "segs ?s'" "segs s" "Some 0"] by (simp add: fields vec_inv_def)
  have bd: "blocks_distinct (segs ?s') ps"
    using inv by (simp add: vec_inv_def blocks_distinct_def fields)
  have bo: "blocks_ok (mem ?s') (segs ?s') ps"
    using inv by (simp add: vec_inv_def blocks_ok_def fields caps) (simp add: write_and_advance_def)
  show "vec_inv ?s' ps"
    using inv ok' ch bd bo unfolding vec_inv_def by (simp add: write_and_advance_def)
  show "slot_of (segs ?s') ps i = slot_of (segs s) ps i"
    by (rule slot_of_cong) (simp add: fields)
  obtain rest where ps: "ps = 0 # rest" using vec_inv_hd[OF inv] by blast
  have dist: "distinct (0 # rest)" using inv by (simp add: vec_inv_def ps)
  let ?L = "0 # counted (Some c) rest"
  have dL: "distinct ?L" using dist counted_distinct[of rest "Some c"] counted_subset[of "Some c" rest] by auto
  have cL: "c \<in> set ?L" using cin counted_mem[of c rest] by (auto simp: ps)
  have u1: "seg_used (segs ?s' c) = seg_used (segs s c) + 1"
    using p by (simp add: seg_used_def write_and_advance_def)
  have u2: "\<forall>x\<in>set ?L. x \<noteq> c \<longrightarrow> seg_used (segs ?s' x) = seg_used (segs s x)"
    by (simp add: write_and_advance_def)
  from sum_list_map_upd_distinct[OF dL cL, of "\<lambda>a. seg_used (segs ?s' a)" "\<lambda>a. seg_used (segs s a)", OF u1 u2]
  show "vsize ?s' ps = vsize s ps + 1"
    by (simp add: vsize_def used_sum_def ps c) (simp add: write_and_advance_def c)
qed

lemma emplace_back_fast:
  assumes inv: "vec_inv s ps"
    and room: "v_mCurrent s \<noteq> v_mEnd s \<or> (\<exists>c. v_mCurrent s = Some c \<and> mCurrent (segs s c) \<noteq> mEnd (segs s c))"
    and r: "emplace_back sz v s = ret (q, s')"
  shows "\<exists>c p. slot_of (segs s) ps (vsize s ps) = Some q \<and> v_mCurrent s = Some c \<and>
           mCurrent (segs s c) = Some p \<and> s' = write_and_advance s q v c p"
proof -
  have g: "(if v_mCurrent s \<noteq> v_mEnd s then ret True
            else (case v_mCurrent s of None \<Rightarrow> fail null_dereference
                  | Some c \<Rightarrow> ret (mCurrent (segs s c) \<noteq> mEnd (segs s c)))) = ret True"
    using room inv by (auto simp: vec_inv_def split: option.splits)
  from r obtain x where e: "Emplace_at_without_reallocation (vsize s ps) v s = ret x"
    and a: "advance_current (snd x) = ret s'" and q: "q = fst x"
    unfolding emplace_back_def g by (auto simp: Get_size_inv[OF inv] bindE_eq_ret)
  obtain q1 s1 where x: "x = (q1, s1)" by (cases x)
  from Emplace_at_without_reallocation_end[OF inv e[unfolded x]]
  have sl: "slot_of (segs s) ps (vsize s ps) = Some q1"
    and s1: "s1 = s\<lparr>mem := (mem s)\<lparr>cell := (cell (mem s))(q1 := Some v)\<rparr>\<rparr>" by auto
  from advance_current_ret[OF a] x s1 obtain c p where
    "v_mCurrent s = Some c" "mCurrent (segs s c) = Some p"
    "s' = s1\<lparr>segs := (segs s1)(c := (segs s1 c)\<lparr>mCurrent := Some (fst p, snd p + 1)\<rparr>)\<rparr>"
    by auto
  with sl s1 q x show ?thesis
    by (intro exI[of _ c] exI[of _ p]) (simp add: write_and_advance_def)
qed


text \<open>The slow path: \<open>Append_new_segment\<close> at the end of the chain.\<close>

definition fresh_segment :: "'a memory \<Rightarrow> nat \<Rightarrow> nat option \<Rightarrow> Data_Segment" where
  "fresh_segment m k before =
     \<lparr>mBegin = Some (length (bsize m), 0), mCurrent = Some (length (bsize m), 0),
      mEnd = Some (length (bsize m), k), mSegBefore = before, mSegAfter = None\<rparr>"

definition grow_first :: "nat \<Rightarrow> 'a concurrent_vector \<Rightarrow> 'a concurrent_vector" where
  "grow_first k s =
     s\<lparr>mem := (mem s)\<lparr>bsize := bsize (mem s) @ [k]\<rparr>,
       segs := (segs s)(0 := fresh_segment (mem s) k None)\<rparr>"

definition grow_next :: "nat \<Rightarrow> nat \<Rightarrow> 'a concurrent_vector \<Rightarrow> 'a concurrent_vector" where
  "grow_next k c s =
     s\<lparr>mem := (mem s)\<lparr>bsize := bsize (mem s) @ [k]\<rparr>,
       seg_next := seg_next s + 1,
       segs := (segs s)(seg_next s := fresh_segment (mem s) k (Some c),
                        c := (segs s c)\<lparr>mSegAfter := Some (seg_next s)\<rparr>),
       v_mEnd := Some (seg_next s)\<rparr>"

lemma seg_ok_fresh [simp]: "seg_ok (fresh_segment m k b)"
  by (simp add: seg_ok_def fresh_segment_def)

lemma seg_cap_fresh [simp]: "seg_cap (fresh_segment m k b) = k"
  by (simp add: seg_cap_def fresh_segment_def)

lemma seg_used_fresh [simp]: "seg_used (fresh_segment m k b) = 0"
  by (simp add: seg_used_def fresh_segment_def)

lemma seg_ok_cong:
  "mBegin sg' = mBegin sg \<Longrightarrow> mCurrent sg' = mCurrent sg \<Longrightarrow> mEnd sg' = mEnd sg \<Longrightarrow>
   seg_ok sg' = seg_ok sg"
  by (auto simp: seg_ok_def split: option.splits)

lemma seg_ok_mSegAfter [simp]: "seg_ok (sg\<lparr>mSegAfter := x\<rparr>) = seg_ok sg"
  by (rule seg_ok_cong) simp_all

lemma seg_cap_mSegAfter [simp]: "seg_cap (sg\<lparr>mSegAfter := x\<rparr>) = seg_cap sg"
  by (simp add: seg_cap_def)

lemma seg_used_mSegAfter [simp]: "seg_used (sg\<lparr>mSegAfter := x\<rparr>) = seg_used sg"
  by (simp add: seg_used_def)

lemma Append_new_segment_first:
  assumes inv: "vec_inv s ps" and c: "v_mCurrent s = Some 0" and e: "v_mEnd s = Some 0"
    and b: "mBegin (segs s 0) = None"
  shows "ps = [0]" and "Append_new_segment k s = ret (grow_first k s)"
    and "vec_inv (grow_first k s) [0]"
proof -
  obtain rest where ps: "ps = 0 # rest" using vec_inv_hd[OF inv] by blast
  from inv e have "last ps = 0" "distinct ps" by (auto simp: vec_inv_def)
  with ps show ps0: "ps = [0]" by (cases "rest = []") (auto dest: last_in_set)
  show "Append_new_segment k s = ret (grow_first k s)"
    using c b by (simp add: Append_new_segment_def grow_first_def allocate_def fresh_segment_def Let_def)
  show "vec_inv (grow_first k s) [0]"
    using inv c e unfolding vec_inv_def ps0
    by (simp add: grow_first_def blocks_distinct_def blocks_ok_def) (simp add: fresh_segment_def)
qed

lemma Append_new_segment_next:
  assumes inv: "vec_inv s ps" and c: "v_mCurrent s = Some c" and l: "c = last ps"
    and nb: "\<not> (c = 0 \<and> mBegin (segs s 0) = None)"
  shows "Append_new_segment k s = ret (grow_next k c s)"
    and "vec_inv (grow_next k c s) (ps @ [seg_next s])"
proof -
  let ?n = "seg_next s"
  let ?s1 = "grow_next k c s"
  obtain rest where ps: "ps = 0 # rest" using vec_inv_hd[OF inv] by blast
  have ne: "ps \<noteq> []" by (simp add: ps)
  have cin: "c \<in> set ps" using l ne by simp
  have lt: "\<forall>a\<in>set ps. a < ?n" using inv by (simp add: vec_inv_def)
  then have nnotin: "?n \<notin> set ps" by auto
  have cn: "c \<noteq> ?n" using cin nnotin by auto
  show "Append_new_segment k s = ret ?s1"
    using c nb cn
    by (auto simp: Append_new_segment_def grow_next_def allocate_def fresh_segment_def Let_def)
  have old: "\<And>a. a \<in> set ps \<Longrightarrow> a \<noteq> c \<Longrightarrow> segs ?s1 a = segs s a"
    using nnotin by (auto simp: grow_next_def)
  have atc: "segs ?s1 c = (segs s c)\<lparr>mSegAfter := Some ?n\<rparr>" by (simp add: grow_next_def)
  have atn: "segs ?s1 ?n = fresh_segment (mem s) k (Some c)" using cn by (simp add: grow_next_def)
  have same: "\<And>a. a \<in> set ps \<Longrightarrow> mBegin (segs ?s1 a) = mBegin (segs s a) \<and>
      mEnd (segs ?s1 a) = mEnd (segs s a) \<and> mCurrent (segs ?s1 a) = mCurrent (segs s a)"
    using old atc by (case_tac "a = c") auto
  have ch: "chain (segs ?s1) (Some 0) (ps @ [?n])"
  proof (rule chain_snoc[where h = "segs s"])
    show "chain (segs s) (Some 0) ps" using inv by (simp add: vec_inv_def)
    show "ps \<noteq> []" by (rule ne)
    show "?n \<notin> set ps" by (rule nnotin)
    show "distinct ps" using inv by (simp add: vec_inv_def)
    show "mSegAfter (segs ?s1 ?n) = None" by (simp add: atn fresh_segment_def)
    show "mSegAfter (segs ?s1 (last ps)) = Some ?n" using l atc by simp
    show "\<forall>a\<in>set (butlast ps). mSegAfter (segs ?s1 a) = mSegAfter (segs s a)"
    proof
      fix a assume a: "a \<in> set (butlast ps)"
      then have "a \<in> set ps" by (rule in_set_butlastD)
      moreover have "a \<noteq> c"
        using a l inv ne by (metis append_butlast_last_id distinct_butlast distinct.simps(2) distinct_append
            vec_inv_def disjoint_iff list.set_intros(1))
      ultimately show "mSegAfter (segs ?s1 a) = mSegAfter (segs s a)" using old by simp
    qed
  qed
  have oks: "\<forall>a\<in>set (ps @ [?n]). seg_ok (segs ?s1 a)"
  proof
    fix a assume "a \<in> set (ps @ [?n])"
    then consider "a = ?n" | "a \<in> set ps" by auto
    then show "seg_ok (segs ?s1 a)"
    proof cases
      case 1
      then show ?thesis by (simp add: atn)
    next
      case 2
      with inv have "seg_ok (segs s a)" by (simp add: vec_inv_def)
      with same[OF 2] seg_ok_cong[of "segs ?s1 a" "segs s a"] show ?thesis by simp
    qed
  qed
  have bo: "blocks_ok (mem s) (segs s) ps" using inv by (simp add: vec_inv_def)
  have bo': "blocks_ok (mem ?s1) (segs ?s1) (ps @ [?n])"
    unfolding blocks_ok_def
  proof (intro ballI allI impI)
    fix a b assume a: "a \<in> set (ps @ [?n])" and b: "mBegin (segs ?s1 a) = Some b"
    from a consider "a = ?n" | "a \<in> set ps" by auto
    then show "fst b < length (bsize (mem ?s1)) \<and> bsize (mem ?s1) ! fst b = seg_cap (segs ?s1 a)"
    proof cases
      case 1
      with b atn show ?thesis by (auto simp: fresh_segment_def seg_cap_def) (simp_all add: grow_next_def)
    next
      case 2
      with b same[OF 2] have b0: "mBegin (segs s a) = Some b" by simp
      with bo 2 have "fst b < length (bsize (mem s)) \<and> bsize (mem s) ! fst b = seg_cap (segs s a)"
        unfolding blocks_ok_def by blast
      moreover have "seg_cap (segs ?s1 a) = seg_cap (segs s a)" using same[OF 2] by (simp add: seg_cap_def)
      ultimately show ?thesis by (simp add: grow_next_def nth_append)
    qed
  qed
  have bd: "blocks_distinct (segs s) ps" using inv by (simp add: vec_inv_def)
  have bd': "blocks_distinct (segs ?s1) (ps @ [?n])"
    unfolding blocks_distinct_def
  proof (intro ballI allI impI)
    fix a a' b b'
    assume a: "a \<in> set (ps @ [?n])" and a': "a' \<in> set (ps @ [?n])"
      and h: "mBegin (segs ?s1 a) = Some b \<and> mBegin (segs ?s1 a') = Some b' \<and> fst b = fst b'"
    have old_lt: "\<And>x y. x \<in> set ps \<Longrightarrow> mBegin (segs ?s1 x) = Some y \<Longrightarrow> fst y < length (bsize (mem s))"
      using bo same unfolding blocks_ok_def by metis
    have new_eq: "\<And>y. mBegin (segs ?s1 ?n) = Some y \<Longrightarrow> fst y = length (bsize (mem s))"
      by (auto simp: atn fresh_segment_def)
    from a a' consider "a = ?n" "a' = ?n" | "a = ?n" "a' \<in> set ps" | "a \<in> set ps" "a' = ?n"
      | "a \<in> set ps" "a' \<in> set ps" by auto
    then show "a = a'"
    proof cases
      case 1
      then show ?thesis by simp
    next
      case 2
      with h old_lt[of a' b'] new_eq[of b] show ?thesis by auto
    next
      case 3
      with h old_lt[of a b] new_eq[of b'] show ?thesis by auto
    next
      case 4
      with h same[of a] same[of a'] blocks_distinctD[OF bd, of a a' b b'] show ?thesis by auto
    qed
  qed
  show "vec_inv ?s1 (ps @ [?n])"
    unfolding vec_inv_def
    using ch oks bo' bd' inv nnotin lt c cin
    by (auto simp: vec_inv_def grow_next_def)
qed


lemma Min_segment_size_eval_pos: "0 < Min_segment_size_eval sz"
  by (simp add: Min_segment_size_eval_def)

definition segment_size_for :: "nat \<Rightarrow> nat \<Rightarrow> nat \<Rightarrow> nat" where
  "segment_size_for sz cap new_size =
     max (Min_segment_size_eval sz)
       ((if cap > max_size - cap div 2 then max_size else max (cap + cap div 2) new_size) - cap)"

lemma segment_size_for_pos: "0 < segment_size_for sz cap n"
  using Min_segment_size_eval_pos[of sz] by (simp add: segment_size_for_def less_max_iff_disj)

lemma Calculate_new_segment_size_inv:
  "vec_inv s ps \<Longrightarrow>
   Calculate_new_segment_size sz s n = ret (segment_size_for sz (cap_sum (segs s) ps) n)"
  by (auto simp: Calculate_new_segment_size_def Calculate_new_capacity_def Get_capacity_inv
      segment_size_for_def Let_def max_def)

lemma construct_at_current_ret:
  assumes c: "v_mCurrent s = Some c" and p: "mCurrent (segs s c) = Some p"
    and ib: "in_bounds (mem s) p"
  shows "construct_at_current v s = ret (s\<lparr>mem := (mem s)\<lparr>cell := (cell (mem s))(p := Some v)\<rparr>\<rparr>)"
  using c p ib by (simp add: construct_at_current_def construct_def)

lemma advance_current_eq:
  assumes c: "v_mCurrent s = Some c" and p: "mCurrent (segs s c) = Some p"
  shows "advance_current s =
           ret (s\<lparr>segs := (segs s)(c := (segs s c)\<lparr>mCurrent := Some (fst p, snd p + 1)\<rparr>)\<rparr>)"
  using c p by (simp add: advance_current_def ptr_add_def)

lemma construct_and_advance:
  assumes c: "v_mCurrent s = Some c" and p: "mCurrent (segs s c) = Some p"
    and ib: "in_bounds (mem s) p"
  shows "bindE (construct_at_current v s) (\<lambda>s3. bindE (advance_current s3) K)
         = K (write_and_advance s p v c p)"
proof -
  let ?s3 = "s\<lparr>mem := (mem s)\<lparr>cell := (cell (mem s))(p := Some v)\<rparr>\<rparr>"
  have "advance_current ?s3 = ret (write_and_advance s p v c p)"
    using advance_current_eq[of ?s3 c p] c p by (simp add: write_and_advance_def)
  then show ?thesis by (simp add: construct_at_current_ret[OF c p ib])
qed

lemma reallocation_tail:
  "bindE (pointer_to_last s3) (\<lambda>r. ret (r, s3)) = ret (q, s') \<Longrightarrow> s' = s3"
  by (auto simp: bindE_eq_ret)

lemma seg_used_null: "seg_ok sg \<Longrightarrow> mBegin sg = None \<Longrightarrow> seg_used sg = 0"
  by (simp add: seg_ok_def seg_used_def)

lemma full_not_in_bounds:
  assumes inv: "vec_inv s ps" and c: "c \<in> set ps" and f: "mCurrent (segs s c) = mEnd (segs s c)"
    and bs: "bsize m = bsize (mem s) @ [k]"
  shows "construct m (mCurrent (segs s c)) v = Inl null_dereference \<or>
         construct m (mCurrent (segs s c)) v = Inl out_of_bounds"
proof (cases "mEnd (segs s c)")
  case None
  with f show ?thesis by (simp add: construct_def)
next
  case (Some e)
  have ok: "seg_ok (segs s c)" using inv c by (simp add: vec_inv_def)
  with Some obtain b where b: "mBegin (segs s c) = Some b" "fst e = fst b"
    by (auto simp: seg_ok_def split: option.splits)
  with inv c have "fst b < length (bsize (mem s)) \<and> bsize (mem s) ! fst b = seg_cap (segs s c)"
    unfolding vec_inv_def blocks_ok_def by blast
  with Some b have "\<not> in_bounds m e" by (simp add: in_bounds_def bs seg_cap_def nth_append)
  with f Some show ?thesis by (simp add: construct_def)
qed

text \<open>What \<open>emplace_back\<close> has done when it returns from the reallocating path.\<close>

lemma emplace_back_slow:
  assumes inv: "vec_inv s ps"
    and cur: "v_mCurrent s = Some c" and e: "v_mEnd s = Some c"
    and full: "mCurrent (segs s c) = mEnd (segs s c)"
    and r: "emplace_back sz v s = ret (q, s')"
  shows "\<exists>s2 ps2 c2 k.
           vec_inv s2 ps2 \<and> v_mCurrent s2 = Some c2 \<and> c2 = last ps2 \<and>
           segs s2 c2 = fresh_segment (mem s) k (mSegBefore (segs s2 c2)) \<and> 0 < k \<and>
           k = segment_size_for sz (cap_sum (segs s) ps) (vsize s ps + 1) \<and>
           mem s2 = (mem s)\<lparr>bsize := bsize (mem s) @ [k]\<rparr> \<and>
           (ps2 = ps \<and> ps = [0] \<and> mBegin (segs s 0) = None \<or>
            ps2 = ps @ [c2] \<and> c2 \<notin> set ps \<and>
              (\<forall>a\<in>set ps. mBegin (segs s2 a) = mBegin (segs s a) \<and> mEnd (segs s2 a) = mEnd (segs s a)
                    \<and> mCurrent (segs s2 a) = mCurrent (segs s a))) \<and>
           vsize s ps \<noteq> max_size \<and>
           s' = write_and_advance s2 (length (bsize (mem s)), 0) v c2 (length (bsize (mem s)), 0)"
proof -
  let ?n = "vsize s ps"
  define k where "k = segment_size_for sz (cap_sum (segs s) ps) (?n + 1)"
  let ?nb = "length (bsize (mem s))"
  have kpos: "0 < k" unfolding k_def by (rule segment_size_for_pos)
  have calc: "Calculate_new_segment_size sz s (?n + 1) = ret k"
    unfolding k_def by (rule Calculate_new_segment_size_inv[OF inv])
  then have calc': "Calculate_new_segment_size sz s (Suc ?n) = ret k" by simp
  have calc0: "?n = 0 \<Longrightarrow> Calculate_new_segment_size sz s (Suc 0) = ret k" using calc' by simp
  have cl: "c = last ps" using inv e by (simp add: vec_inv_def)
  have cin: "c \<in> set ps" using inv cur by (simp add: vec_inv_def)
  have g: "(if v_mCurrent s \<noteq> v_mEnd s then ret True
            else (case v_mCurrent s of None \<Rightarrow> fail null_dereference
                  | Some c \<Rightarrow> ret (mCurrent (segs s c) \<noteq> mEnd (segs s c)))) = ret False"
    using cur e full by simp
  from r have r1: "Emplace_back_with_reallocation sz v s = ret (q, s')"
    unfolding emplace_back_def g by simp
  have nmax: "?n \<noteq> max_size"
    using r1 by (auto simp: Emplace_back_with_reallocation_def Get_size_inv[OF inv] split: if_splits)
  show ?thesis
  proof (cases "c = 0 \<and> mBegin (segs s 0) = None")
    case True
    then have c0: "c = 0" and b0: "mBegin (segs s 0) = None" by auto
    note A = Append_new_segment_first(1)[OF inv cur[unfolded c0] e[unfolded c0] b0]
      Append_new_segment_first(2)[OF inv cur[unfolded c0] e[unfolded c0] b0, of k]
      Append_new_segment_first(3)[OF inv cur[unfolded c0] e[unfolded c0] b0, of k]
    let ?s1 = "grow_first k s"
    have ps0: "ps = [0]" by (rule A(1))
    have n0: "?n = 0"
      using inv b0 seg_used_null[of "segs s 0"] by (simp add: vsize_def ps0 used_sum_def vec_inv_def)
    have c1: "v_mCurrent ?s1 = Some 0" using cur c0 by (simp add: grow_first_def)
    have p1: "mCurrent (segs ?s1 0) = Some (?nb, 0)" by (simp add: grow_first_def fresh_segment_def)
    have ib: "in_bounds (mem ?s1) (?nb, 0)" using kpos by (simp add: in_bounds_def grow_first_def)
    from r1 have "s' = write_and_advance ?s1 (?nb, 0) v 0 (?nb, 0)"
      unfolding Emplace_back_with_reallocation_def
      by (simp add: Get_size_inv[OF inv] calc0[OF n0] n0 A(2) Let_def
            construct_and_advance[OF c1 p1 ib] max_size_def)
         (auto dest: reallocation_tail)
    moreover have "segs ?s1 0 = fresh_segment (mem s) k (mSegBefore (segs ?s1 0))"
      by (simp add: grow_first_def fresh_segment_def)
    moreover have "mem ?s1 = (mem s)\<lparr>bsize := bsize (mem s) @ [k]\<rparr>" by (simp add: grow_first_def)
    ultimately show ?thesis
      using A(3) c1 kpos ps0 b0 nmax k_def
      by (intro exI[of _ ?s1] exI[of _ "[0]"] exI[of _ 0] exI[of _ k]) simp
  next
    case False
    note A = Append_new_segment_next[OF inv cur cl False, of k]
    let ?s1 = "grow_next k c s"
    let ?new = "seg_next s"
    let ?s2 = "?s1\<lparr>v_mCurrent := Some ?new\<rparr>"
    have newnotin: "?new \<notin> set ps" using inv by (auto simp: vec_inv_def)
    then have cnew: "c \<noteq> ?new" using cin by auto
    have c1: "v_mCurrent ?s1 = Some c" using cur by (simp add: grow_next_def)
    have nx: "mSegAfter (segs ?s1 c) = Some ?new" by (simp add: grow_next_def)
    have n0: "?n \<noteq> 0"
    proof
      assume z: "?n = 0"
      have "mCurrent (segs ?s1 c) = mCurrent (segs s c)" by (simp add: grow_next_def)
      moreover have "bsize (mem ?s1) = bsize (mem s) @ [k]" by (simp add: grow_next_def)
      ultimately have "construct (mem ?s1) (mCurrent (segs ?s1 c)) v = Inl null_dereference \<or>
          construct (mem ?s1) (mCurrent (segs ?s1 c)) v = Inl out_of_bounds"
        using full_not_in_bounds[OF inv cin full, where m = "mem ?s1" and k = k and v = v] by simp
      with r1 show False
        unfolding Emplace_back_with_reallocation_def
        by (auto simp: Get_size_inv[OF inv] calc0[OF z] z A(1) Let_def
              c1 max_size_def construct_at_current_def)
    qed
    have inv2: "vec_inv ?s2 (ps @ [?new])"
      using A(2) unfolding vec_inv_def by simp
    have c2: "v_mCurrent ?s2 = Some ?new" by simp
    have p2: "mCurrent (segs ?s2 ?new) = Some (?nb, 0)"
      using cnew by (simp add: grow_next_def fresh_segment_def)
    have ib: "in_bounds (mem ?s2) (?nb, 0)" using kpos by (simp add: in_bounds_def grow_next_def)
    from r1 have "s' = write_and_advance ?s2 (?nb, 0) v ?new (?nb, 0)"
      unfolding Emplace_back_with_reallocation_def
      using n0 nmax
      by (simp add: Get_size_inv[OF inv] calc' A(1) Let_def c1 nx step_current_forward_def
            construct_and_advance[OF c2 p2 ib])
         (auto dest: reallocation_tail)
    moreover have "segs ?s2 ?new = fresh_segment (mem s) k (mSegBefore (segs ?s2 ?new))"
      using cnew by (simp add: grow_next_def fresh_segment_def)
    moreover have "mem ?s2 = (mem s)\<lparr>bsize := bsize (mem s) @ [k]\<rparr>" by (simp add: grow_next_def)
    moreover have "\<forall>a\<in>set ps. mBegin (segs ?s2 a) = mBegin (segs s a) \<and> mEnd (segs ?s2 a) = mEnd (segs s a)
                    \<and> mCurrent (segs ?s2 a) = mCurrent (segs s a)"
      using newnotin by (auto simp: grow_next_def)
    ultimately show ?thesis
      using inv2 c2 kpos newnotin nmax k_def
      by (intro exI[of _ ?s2] exI[of _ "ps @ [?new]"] exI[of _ ?new] exI[of _ k]) simp
  qed
qed


lemma vsize_last:
  assumes "distinct ps" "ps \<noteq> []" "cur = Some (last ps)"
  shows "used_sum h (hd ps # counted cur (tl ps)) = used_sum h ps"
proof -
  obtain a rest where ps: "ps = a # rest" using assms(2) by (cases ps) auto
  have "cur \<notin> Some ` set (butlast rest)"
  proof (cases "rest = []")
    case True
    then show ?thesis by simp
  next
    case False
    with assms(3) ps have "cur = Some (last rest)" by simp
    moreover have "last rest \<notin> set (butlast rest)"
      using assms(1) ps False by (metis append_butlast_last_id distinct.simps(2) distinct_butlast
          distinct_append disjoint_iff list.set_intros(1))
    ultimately show ?thesis by auto
  qed
  then show ?thesis by (simp add: ps counted_all)
qed

lemma used_sum_cong:
  "\<forall>a\<in>set ps. mCurrent (h' a) = mCurrent (h a) \<Longrightarrow> used_sum h' ps = used_sum h ps"
  unfolding used_sum_def by (induction ps) (auto simp: seg_used_def)

lemma used_sum_append [simp]: "used_sum h (ps @ qs) = used_sum h ps + used_sum h qs"
  by (simp add: used_sum_def)

lemma cap_sum_append [simp]: "cap_sum h (ps @ qs) = cap_sum h ps + cap_sum h qs"
  by (simp add: cap_sum_def)

lemma seg_cap_null: "seg_ok sg \<Longrightarrow> mBegin sg = None \<Longrightarrow> seg_cap sg = 0"
  by (simp add: seg_ok_def seg_cap_def)

lemma push_back_step:
  assumes inv: "vec_inv s ps" and r: "push_back sz v s = ret s'"
  shows "\<exists>ps'. vec_inv s' ps' \<and> vsize s' ps' = vsize s ps + 1 \<and>
           (\<forall>i p. i < vsize s ps \<longrightarrow> slot_of (segs s) ps i = Some p \<longrightarrow>
                  slot_of (segs s') ps' i = Some p \<and> cell (mem s') p = cell (mem s) p)"
proof -
  from r obtain q where e: "emplace_back sz v s = ret (q, s')"
    by (auto simp: push_back_def bindE_eq_ret)
  show ?thesis
  proof (cases "v_mCurrent s \<noteq> v_mEnd s \<or>
                (\<exists>c. v_mCurrent s = Some c \<and> mCurrent (segs s c) \<noteq> mEnd (segs s c))")
    case True
    from emplace_back_fast[OF inv True e] obtain c p where
      sl: "slot_of (segs s) ps (vsize s ps) = Some q" and c: "v_mCurrent s = Some c"
      and p: "mCurrent (segs s c) = Some p" and s': "s' = write_and_advance s q v c p" by blast
    note W = write_and_advance_inv[OF inv c p, of q v]
    have cells: "cell (mem s') = (cell (mem s))(q := Some v)" by (simp add: s' write_and_advance_def)
    have "\<forall>i p'. i < vsize s ps \<longrightarrow> slot_of (segs s) ps i = Some p' \<longrightarrow>
            slot_of (segs s') ps i = Some p' \<and> cell (mem s') p' = cell (mem s) p'"
    proof (intro allI impI)
      fix i p' assume i: "i < vsize s ps" and sl': "slot_of (segs s) ps i = Some p'"
      have "p' \<noteq> q"
      proof
        assume "p' = q"
        with sl sl' slot_of_inj[of "segs s" ps i q "vsize s ps"] inv have "i = vsize s ps"
          by (simp add: vec_inv_def)
        with i show False by simp
      qed
      moreover have "slot_of (segs s') ps i = slot_of (segs s) ps i" unfolding s' by (rule W(3))
      ultimately show "slot_of (segs s') ps i = Some p' \<and> cell (mem s') p' = cell (mem s) p'"
        using sl' by (simp add: cells)
    qed
    with W(1) W(2) show ?thesis unfolding s' by blast
  next
    case False
    from inv have "v_mEnd s = Some (last ps)" by (simp add: vec_inv_def)
    with False obtain c where c: "v_mCurrent s = Some c" and ve: "v_mEnd s = Some c"
      and full: "mCurrent (segs s c) = mEnd (segs s c)" by auto
    let ?nb = "length (bsize (mem s))"
    from emplace_back_slow[OF inv c ve full e] obtain s2 ps2 c2 k where
      inv2: "vec_inv s2 ps2" and c2: "v_mCurrent s2 = Some c2" and l2: "c2 = last ps2"
      and fr: "segs s2 c2 = fresh_segment (mem s) k (mSegBefore (segs s2 c2))"
      and m2: "mem s2 = (mem s)\<lparr>bsize := bsize (mem s) @ [k]\<rparr>"
      and shape: "ps2 = ps \<and> ps = [0] \<and> mBegin (segs s 0) = None \<or>
            ps2 = ps @ [c2] \<and> c2 \<notin> set ps \<and>
              (\<forall>a\<in>set ps. mBegin (segs s2 a) = mBegin (segs s a) \<and> mEnd (segs s2 a) = mEnd (segs s a)
                    \<and> mCurrent (segs s2 a) = mCurrent (segs s a))"
      and s': "s' = write_and_advance s2 (?nb, 0) v c2 (?nb, 0)" by blast
    have p2: "mCurrent (segs s2 c2) = Some (?nb, 0)" by (subst fr) (simp add: fresh_segment_def)
    note W = write_and_advance_inv[OF inv2 c2 p2, of "(?nb, 0)" v]
    have cells: "cell (mem s') = (cell (mem s))((?nb, 0) := Some v)"
      by (simp add: s' write_and_advance_def m2)
    have dist: "distinct ps" and ne: "ps \<noteq> []" using inv vec_inv_hd[OF inv] by (auto simp: vec_inv_def)
    have cl: "c = last ps" using inv ve by (simp add: vec_inv_def)
    have okall: "\<forall>a\<in>set ps. seg_ok (segs s a)" using inv by (simp add: vec_inv_def)
    have vs: "vsize s2 ps2 = vsize s ps \<and>
              (\<forall>i p. slot_of (segs s) ps i = Some p \<longrightarrow> slot_of (segs s2) ps2 i = Some p)"
      using shape
    proof
      assume a: "ps2 = ps \<and> ps = [0] \<and> mBegin (segs s 0) = None"
      then have "seg_used (segs s 0) = 0" "seg_cap (segs s 0) = 0"
        using okall seg_used_null[of "segs s 0"] seg_cap_null[of "segs s 0"] by auto
      moreover have "c2 = 0" using a l2 by simp
      then have "seg_used (segs s2 0) = 0" using p2 by (simp add: seg_used_def)
      ultimately show ?thesis using a by (simp add: vsize_def used_sum_def)
    next
      assume a: "ps2 = ps @ [c2] \<and> c2 \<notin> set ps \<and>
              (\<forall>a\<in>set ps. mBegin (segs s2 a) = mBegin (segs s a) \<and> mEnd (segs s2 a) = mEnd (segs s a)
                    \<and> mCurrent (segs s2 a) = mCurrent (segs s a))"
      have d2: "distinct ps2" using inv2 by (simp add: vec_inv_def)
      have ne2: "ps2 \<noteq> []" using a by simp
      have cur2: "v_mCurrent s2 = Some (last ps2)" using c2 l2 by simp
      have "vsize s2 ps2 = used_sum (segs s2) ps2"
        unfolding vsize_def by (rule vsize_last[OF d2 ne2 cur2])
      also have "\<dots> = used_sum (segs s2) ps + seg_used (segs s2 c2)" using a by (simp add: used_sum_def)
      also have "seg_used (segs s2 c2) = 0" using p2 by (simp add: seg_used_def)
      also have "used_sum (segs s2) ps = used_sum (segs s) ps" using a by (intro used_sum_cong) simp
      also have "used_sum (segs s) ps = vsize s ps"
        unfolding vsize_def using vsize_last[OF dist ne, of "v_mCurrent s" "segs s"] c cl by simp
      finally have "vsize s2 ps2 = vsize s ps" by simp
      moreover have "\<forall>i p. slot_of (segs s) ps i = Some p \<longrightarrow> slot_of (segs s2) ps2 i = Some p"
      proof (intro allI impI)
        fix i p assume "slot_of (segs s) ps i = Some p"
        moreover have "slot_of (segs s2) ps i = slot_of (segs s) ps i"
          using a by (intro slot_of_cong) simp
        ultimately show "slot_of (segs s2) ps2 i = Some p" using a by (simp add: slot_of_append_Some)
      qed
      ultimately show ?thesis by simp
    qed
    have "\<forall>i p'. i < vsize s ps \<longrightarrow> slot_of (segs s) ps i = Some p' \<longrightarrow>
            slot_of (segs s') ps2 i = Some p' \<and> cell (mem s') p' = cell (mem s) p'"
    proof (intro allI impI)
      fix i p' assume sl': "slot_of (segs s) ps i = Some p'"
      from slot_in_bounds[OF inv sl'] have "fst p' < ?nb" by (simp add: in_bounds_def)
      then have "p' \<noteq> (?nb, 0)" by auto
      moreover have "slot_of (segs s') ps2 i = slot_of (segs s2) ps2 i" unfolding s' by (rule W(3))
      moreover have "slot_of (segs s2) ps2 i = Some p'" using vs sl' by blast
      ultimately show "slot_of (segs s') ps2 i = Some p' \<and> cell (mem s') p' = cell (mem s) p'"
        by (simp add: cells)
    qed
    moreover have "vsize s' ps2 = vsize s ps + 1" unfolding s' using W(2) vs by simp
    moreover have "vec_inv s' ps2" unfolding s' by (rule W(1))
    ultimately show ?thesis by blast
  qed
qed

lemma push_back_all_frame:
  assumes "vec_inv s ps" and "push_back_all sz vs s = ret s'"
  shows "\<exists>ps'. vec_inv s' ps' \<and> vsize s' ps' = vsize s ps + length vs \<and>
           (\<forall>i p. i < vsize s ps \<longrightarrow> slot_of (segs s) ps i = Some p \<longrightarrow>
                  slot_of (segs s') ps' i = Some p \<and> cell (mem s') p = cell (mem s) p)"
  using assms
proof (induction vs arbitrary: s ps)
  case Nil
  then show ?case by auto
next
  case (Cons v vs)
  from Cons.prems(2) obtain s1 where s1: "push_back sz v s = ret s1"
    and rest: "push_back_all sz vs s1 = ret s'" by (auto simp: bindE_eq_ret)
  from push_back_step[OF Cons.prems(1) s1] obtain ps1 where
    inv1: "vec_inv s1 ps1" and sz1: "vsize s1 ps1 = vsize s ps + 1"
    and fr1: "\<forall>i p. i < vsize s ps \<longrightarrow> slot_of (segs s) ps i = Some p \<longrightarrow>
                  slot_of (segs s1) ps1 i = Some p \<and> cell (mem s1) p = cell (mem s) p" by blast
  from Cons.IH[OF inv1 rest] obtain ps' where
    inv': "vec_inv s' ps'" and sz': "vsize s' ps' = vsize s1 ps1 + length vs"
    and fr': "\<forall>i p. i < vsize s1 ps1 \<longrightarrow> slot_of (segs s1) ps1 i = Some p \<longrightarrow>
                  slot_of (segs s') ps' i = Some p \<and> cell (mem s') p = cell (mem s1) p" by blast
  have "\<forall>i p. i < vsize s ps \<longrightarrow> slot_of (segs s) ps i = Some p \<longrightarrow>
                  slot_of (segs s') ps' i = Some p \<and> cell (mem s') p = cell (mem s) p"
  proof (intro allI impI)
    fix i p assume i: "i < vsize s ps" and sl: "slot_of (segs s) ps i = Some p"
    with fr1 have a: "slot_of (segs s1) ps1 i = Some p" and b: "cell (mem s1) p = cell (mem s) p"
      by blast+
    from i sz1 have "i < vsize s1 ps1" by simp
    with fr'[rule_format, OF this a] b
    show "slot_of (segs s') ps' i = Some p \<and> cell (mem s') p = cell (mem s) p" by simp
  qed
  with inv' sz' sz1 show ?case by (intro exI[of _ ps']) simp
qed


text \<open>
  Claim C1 (reference stability).  Let the vector satisfy its representation invariant
  and let any sequence of \<open>push_back\<close> calls (each of them \<open>emplace_back\<close> with its result
  dropped) return normally.  Then every index below the size the vector had before the
  sequence resolves, by \<open>operator[]\<close>, to the same storage slot after the sequence as before
  it, and that slot holds the same value.
\<close>

theorem reference_stability:
  assumes "vec_inv s ps" and "push_back_all sz vs s = ret s'"
    and "Get_size s = ret n" and "i < n" and "subscript s i = ret (q, s)"
  shows "subscript s' i = ret (q, s') \<and> cell (mem s') q = cell (mem s) q"
proof -
  from assms(1,3) have n: "n = vsize s ps" by (simp add: Get_size_inv)
  from assms(5) have sl: "slot_of (segs s) ps i = Some q"
    by (auto simp: subscript_def Get_value_at_inv[OF assms(1)] bindE_eq_ret split: option.splits)
  from push_back_all_frame[OF assms(1,2)] obtain ps' where
    inv': "vec_inv s' ps'"
    and fr: "\<forall>i p. i < vsize s ps \<longrightarrow> slot_of (segs s) ps i = Some p \<longrightarrow>
                  slot_of (segs s') ps' i = Some p \<and> cell (mem s') p = cell (mem s) p" by blast
  from assms(4) n have "i < vsize s ps" by simp
  from fr[rule_format, OF this sl]
  have "slot_of (segs s') ps' i = Some q" "cell (mem s') q = cell (mem s) q" by simp_all
  then show ?thesis by (simp add: subscript_def Get_value_at_inv[OF inv'])
qed

text \<open>
  A vector of eight elements of a 32-byte type, whose only segment is full: the state
  reached from the empty vector by eight \<open>push_back\<close> calls.
\<close>

definition vec8 :: "int concurrent_vector" where
  "vec8 =
     \<lparr>segs = (\<lambda>_. null_segment)(0 :=
        \<lparr>mBegin = Some (0, 0), mCurrent = Some (0, 8), mEnd = Some (0, 8),
         mSegBefore = None, mSegAfter = None\<rparr>),
      seg_next = 1,
      mem = \<lparr>bsize = [8],
             cell = (\<lambda>_. None)((0, 0) := Some 10, (0, 1) := Some 11, (0, 2) := Some 12,
                      (0, 3) := Some 13, (0, 4) := Some 14, (0, 5) := Some 15,
                      (0, 6) := Some 16, (0, 7) := Some 17)\<rparr>,
      v_mCurrent = Some 0, v_mEnd = Some 0\<rparr>"

lemma vec8_inv: "vec_inv vec8 [0]"
  by (simp add: vec_inv_def vec8_def seg_ok_def blocks_distinct_def blocks_ok_def seg_cap_def)

lemmas vector_eval = push_back_def emplace_back_def Emplace_back_with_reallocation_def
  Emplace_at_without_reallocation_def Get_size_def Get_size_loop.simps Get_capacity_def
  Get_capacity_loop.simps Get_value_at_def Get_value_at_loop.simps Calculate_new_segment_size_def
  Calculate_new_capacity_def Append_new_segment_def step_current_forward_def construct_at_current_def
  advance_current_def pointer_to_last_def ptr_diff_def ptr_add_def construct_def allocate_def
  in_bounds_def
  Min_segment_size_eval_def max_size_def index_dec_def subscript_def Let_def new_vector_def
  empty_memory_def null_segment_def

lemma vec8_reachable: "push_back_all 32 [10, 11, 12, 13, 14, 15, 16, 17] new_vector = ret vec8"
  by (simp add: vector_eval vec8_def) (simp add: eval_nat_numeral)

theorem reference_stability_witness:
  "vec_inv vec8 [0] \<and> Get_size vec8 = ret 8 \<and> (3::nat) < 8 \<and>
   subscript vec8 3 = ret ((0, 3), vec8) \<and>
   (\<exists>s'. push_back_all 32 [18, 19] vec8 = ret s' \<and> Get_capacity s' = ret 16 \<and>
         subscript s' 3 = ret ((0, 3), s') \<and> cell (mem s') (0, 3) = Some 13)"
proof -
  have sz: "Get_size vec8 = ret 8" by (simp add: vector_eval vec8_def)
  have sub: "subscript vec8 3 = ret ((0, 3), vec8)" by (simp add: vector_eval vec8_def)
  have "\<exists>s'. push_back_all 32 [18, 19] vec8 = ret s' \<and> Get_capacity s' = ret 16"
    by (simp add: vector_eval vec8_def)
  then obtain s' where s': "push_back_all 32 [18, 19] vec8 = ret s'" and c: "Get_capacity s' = ret 16"
    by blast
  have "cell (mem vec8) (0, 3) = Some 13" by (simp add: vec8_def)
  with reference_stability[OF vec8_inv s' sz _ sub] s' c vec8_inv sz sub show ?thesis by auto
qed

text \<open>
  Claim C9 (assignment stubs).  Move assignment and assignment from an initializer list
  return the assigned-to vector with every member as it was, and leave their argument as
  it was: both bodies consist of \<open>return *this;\<close>.
\<close>

theorem assignment_stubs:
  "assign_move this rhs = (this, rhs) \<and> assign_initializer_list this iList = (this, iList)"
  by (simp add: assign_move_def assign_initializer_list_def)


subsection \<open>Indexing, growth policy and checked access\<close>

definition chain_ok :: "'a concurrent_vector \<Rightarrow> nat list \<Rightarrow> bool" where
  "chain_ok s ps = (chain (segs s) (Some 0) ps \<and> (\<forall>a\<in>set ps. seg_ok (segs s a)))"

lemma vec_inv_chain_ok: "vec_inv s ps \<Longrightarrow> chain_ok s ps"
  by (simp add: vec_inv_def chain_ok_def)

text \<open>
  Claim C10 (\<open>operator[]\<close> is unchecked).  \<open>operator[]\<close> never consults the size.  On a
  finite chain of well-formed segments it returns the slot at offset \<open>pos\<close> of the storage,
  counted over the segments' capacities in chain order, for every \<open>pos\<close> below the total
  capacity; for every \<open>pos\<close> at or beyond the total capacity the walk reads through the null
  \<open>mSegAfter\<close> of the last segment and returns no element.
\<close>

theorem subscript_unchecked:
  assumes "chain_ok s ps"
  shows "Get_capacity s = ret (cap_sum (segs s) ps) \<and>
         (pos < cap_sum (segs s) ps \<longrightarrow>
            (\<exists>k j b. k < length ps \<and> j < seg_cap (segs s (ps ! k)) \<and>
               pos = cap_sum (segs s) (take k ps) + j \<and>
               mBegin (segs s (ps ! k)) = Some (b, 0) \<and>
               subscript s pos = ret ((b, j), s))) \<and>
         (cap_sum (segs s) ps \<le> pos \<longrightarrow> subscript s pos = fail null_dereference)"
proof -
  from assms have ch: "chain (segs s) (Some 0) ps" and ok: "\<forall>a\<in>set ps. seg_ok (segs s a)"
    by (simp_all add: chain_ok_def)
  have g: "\<And>pos. Get_value_at s pos =
      (case slot_of (segs s) ps pos of None \<Rightarrow> fail null_dereference | Some x \<Rightarrow> ret x)"
    unfolding Get_value_at_def by (rule Get_value_at_loop_chain[OF ch ok])
  have c: "Get_capacity s = ret (cap_sum (segs s) ps)"
    unfolding Get_capacity_def using Get_capacity_loop_chain[OF ch ok, of 0] by simp
  have lt: "pos < cap_sum (segs s) ps \<longrightarrow>
            (\<exists>k j b. k < length ps \<and> j < seg_cap (segs s (ps ! k)) \<and>
               pos = cap_sum (segs s) (take k ps) + j \<and>
               mBegin (segs s (ps ! k)) = Some (b, 0) \<and>
               subscript s pos = ret ((b, j), s))"
  proof
    assume "pos < cap_sum (segs s) ps"
    from slot_of_lt[OF ok this] obtain k j b where
      "k < length ps" "j < seg_cap (segs s (ps ! k))" "pos = cap_sum (segs s) (take k ps) + j"
      "mBegin (segs s (ps ! k)) = Some (b, 0)" "slot_of (segs s) ps pos = Some (b, j)" by blast
    then show "\<exists>k j b. k < length ps \<and> j < seg_cap (segs s (ps ! k)) \<and>
               pos = cap_sum (segs s) (take k ps) + j \<and>
               mBegin (segs s (ps ! k)) = Some (b, 0) \<and>
               subscript s pos = ret ((b, j), s)"
      apply -
      apply (rule exI[of _ k], rule exI[of _ j], rule exI[of _ b])
      apply (simp add: subscript_def g)
      done
  qed
  have ge: "cap_sum (segs s) ps \<le> pos \<longrightarrow> subscript s pos = fail null_dereference"
    by (simp add: subscript_def g slot_of_ge)
  from c lt ge show ?thesis by blast
qed

text \<open>Two elements of a 4-byte type in a first segment of 32 slots.\<close>

definition vec2 :: "int concurrent_vector" where
  "vec2 =
     \<lparr>segs = (\<lambda>_. null_segment)(0 :=
        \<lparr>mBegin = Some (0, 0), mCurrent = Some (0, 2), mEnd = Some (0, 32),
         mSegBefore = None, mSegAfter = None\<rparr>),
      seg_next = 1,
      mem = \<lparr>bsize = [32], cell = (\<lambda>_. None)((0, 0) := Some 21, (0, 1) := Some 22)\<rparr>,
      v_mCurrent = Some 0, v_mEnd = Some 0\<rparr>"

lemma vec2_reachable: "push_back_all 4 [21, 22] new_vector = ret vec2"
  by (simp add: vector_eval vec2_def) (simp add: eval_nat_numeral)

lemma vec2_inv: "vec_inv vec2 [0]"
  by (simp add: vec_inv_def vec2_def seg_ok_def blocks_distinct_def blocks_ok_def seg_cap_def)

theorem subscript_unchecked_witness:
  "chain_ok vec2 [0] \<and> Get_size vec2 = ret 2 \<and> Get_capacity vec2 = ret 32 \<and>
   subscript vec2 5 = ret ((0, 5), vec2) \<and> at vec2 5 = fail out_of_range \<and>
   subscript vec2 32 = fail null_dereference"
proof -
  have ok: "chain_ok vec2 [0]" by (rule vec_inv_chain_ok[OF vec2_inv])
  have cap: "cap_sum (segs vec2) [0] = 32" by (simp add: cap_sum_def seg_cap_def vec2_def)
  have sz: "Get_size vec2 = ret 2" by (simp add: vector_eval vec2_def)
  have a: "at vec2 5 = fail out_of_range" by (simp add: at_def sz)
  have s5: "subscript vec2 5 = ret ((0, 5), vec2)" by (simp add: vector_eval vec2_def)
  from subscript_unchecked[OF ok, of 32] cap
  have "Get_capacity vec2 = ret 32" "subscript vec2 32 = fail null_dereference" by simp_all
  with ok sz a s5 show ?thesis by simp
qed


lemma Get_capacity_chain_ok: "chain_ok s ps \<Longrightarrow> Get_capacity s = ret (cap_sum (segs s) ps)"
  unfolding Get_capacity_def chain_ok_def using Get_capacity_loop_chain[of "segs s" 0 ps 0] by simp

lemma seg_cap_write_and_advance [simp]:
  "seg_cap (segs (write_and_advance s q v c p) a) = seg_cap (segs s a)"
  by (simp add: write_and_advance_def seg_cap_def)






subsection \<open>Logical contents\<close>

text \<open>
  The constructed slots of the chain, segment after segment: the element of logical
  index \<open>i\<close> is the \<open>i\<close>-th of them.
\<close>

fun logical_slots :: "(nat \<Rightarrow> Data_Segment) \<Rightarrow> nat list \<Rightarrow> (nat \<times> nat) list" where
  "logical_slots h [] = []"
| "logical_slots h (a # as) =
     (case mBegin (h a) of
        None \<Rightarrow> []
      | Some b \<Rightarrow> map (\<lambda>j. (fst b, j)) [0..<seg_used (h a)]) @ logical_slots h as"

definition full_prefix :: "(nat \<Rightarrow> Data_Segment) \<Rightarrow> nat list \<Rightarrow> bool" where
  "full_prefix h ps =
     ((\<forall>a\<in>set (butlast ps). seg_used (h a) = seg_cap (h a)) \<and>
      seg_used (h (last ps)) \<le> seg_cap (h (last ps)))"

definition wf_vector :: "'a concurrent_vector \<Rightarrow> nat list \<Rightarrow> bool" where
  "wf_vector s ps =
     (vec_inv s ps \<and> full_prefix (segs s) ps \<and>
      (v_mCurrent s = Some (last ps) \<or> v_mCurrent s = None))"

lemma length_logical_slots:
  "\<forall>a\<in>set ps. seg_ok (h a) \<Longrightarrow> length (logical_slots h ps) = used_sum h ps"
proof (induction ps)
  case Nil
  then show ?case by (simp add: used_sum_def)
next
  case (Cons a ps)
  then have "length (logical_slots h ps) = used_sum h ps" by simp
  moreover have "mBegin (h a) = None \<Longrightarrow> seg_used (h a) = 0"
    using Cons.prems seg_used_null[of "h a"] by simp
  ultimately show ?case by (simp add: used_sum_def split: option.splits)
qed

lemma full_prefix_Cons:
  "full_prefix h (a # b # ps) \<Longrightarrow> seg_used (h a) = seg_cap (h a) \<and> full_prefix h (b # ps)"
  by (simp add: full_prefix_def)

lemma slot_of_logical:
  "\<forall>a\<in>set ps. seg_ok (h a) \<Longrightarrow> ps \<noteq> [] \<Longrightarrow> full_prefix h ps \<Longrightarrow> pos < used_sum h ps \<Longrightarrow>
   slot_of h ps pos = Some (logical_slots h ps ! pos)"
proof (induction ps arbitrary: pos)
  case Nil
  then show ?case by simp
next
  case (Cons a ps)
  have ok: "seg_ok (h a)" using Cons.prems by simp
  have le: "seg_used (h a) \<le> seg_cap (h a)"
    using Cons.prems(3) by (cases ps) (auto simp: full_prefix_def)
  have nb: "mBegin (h a) = None \<Longrightarrow> seg_used (h a) = 0"
    using ok seg_used_null[of "h a"] by simp
  show ?case
  proof (cases "pos < seg_used (h a)")
    case True
    with nb obtain b where b: "mBegin (h a) = Some b" by (cases "mBegin (h a)") auto
    from True le b show ?thesis by (simp add: nth_append)
  next
    case False
    with Cons.prems(4) have psne: "ps \<noteq> []" by (cases ps) (auto simp: used_sum_def)
    then obtain c qs where ps: "ps = c # qs" by (cases ps) auto
    from Cons.prems(3) have full: "seg_used (h a) = seg_cap (h a)" and fp: "full_prefix h ps"
      unfolding ps using full_prefix_Cons by blast+
    have len: "length (case mBegin (h a) of None \<Rightarrow> []
                 | Some b \<Rightarrow> map (\<lambda>j. (fst b, j)) [0..<seg_used (h a)]) = seg_used (h a)"
      using nb by (simp split: option.splits)
    from False Cons.prems(4) have "pos - seg_used (h a) < used_sum h ps" by (simp add: used_sum_def)
    with Cons.IH[OF _ psne fp] Cons.prems(1)
    have "slot_of h ps (pos - seg_used (h a)) = Some (logical_slots h ps ! (pos - seg_used (h a)))"
      by simp
    with False full len show ?thesis by (simp add: nth_append)
  qed
qed

lemma counted_None [simp]: "counted None bs = bs"
  by (induction bs) auto

lemma wf_vector_size:
  assumes "wf_vector s ps"
  shows "vsize s ps = used_sum (segs s) ps"
proof -
  from assms have inv: "vec_inv s ps" by (simp add: wf_vector_def)
  obtain rest where ps: "ps = 0 # rest" using vec_inv_hd[OF inv] by blast
  from assms consider "v_mCurrent s = Some (last ps)" | "v_mCurrent s = None"
    by (auto simp: wf_vector_def)
  then show ?thesis
  proof cases
    case 1
    from inv have "distinct ps" by (simp add: vec_inv_def)
    from vsize_last[OF this _ 1, of "segs s"] ps show ?thesis by (simp add: vsize_def)
  next
    case 2
    then show ?thesis by (simp add: vsize_def ps)
  qed
qed

text \<open>
  Claim C8 (\<open>at\<close> raises exactly out of range).  For a well-formed vector, \<open>at pos\<close> fails
  with the out-of-range condition if and only if \<open>pos\<close> is at least the size; below the size
  it returns the slot of the element of logical index \<open>pos\<close>, together with the vector
  unchanged.
\<close>

theorem at_out_of_range:
  assumes "wf_vector s ps"
  shows "Get_size s = ret (length (logical_slots (segs s) ps)) \<and>
         ((at s pos = fail out_of_range) = (length (logical_slots (segs s) ps) \<le> pos)) \<and>
         (pos < length (logical_slots (segs s) ps) \<longrightarrow>
            at s pos = ret (logical_slots (segs s) ps ! pos, s))"
proof -
  from assms have inv: "vec_inv s ps" and fp: "full_prefix (segs s) ps" by (simp_all add: wf_vector_def)
  have ok: "\<forall>a\<in>set ps. seg_ok (segs s a)" using inv by (simp add: vec_inv_def)
  have ne: "ps \<noteq> []" using vec_inv_hd[OF inv] by auto
  let ?n = "length (logical_slots (segs s) ps)"
  have n: "?n = used_sum (segs s) ps" by (rule length_logical_slots[OF ok])
  have sz: "Get_size s = ret ?n" by (simp add: Get_size_inv[OF inv] wf_vector_size[OF assms] n)
  have lt: "pos < ?n \<Longrightarrow> at s pos = ret (logical_slots (segs s) ps ! pos, s)"
    using slot_of_logical[OF ok ne fp, of pos]
    by (simp add: at_def sz Get_value_at_inv[OF inv] n)
  have ge: "?n \<le> pos \<Longrightarrow> at s pos = fail out_of_range" by (simp add: at_def sz)
  from sz lt ge show ?thesis by (cases "pos < ?n") auto
qed

lemma vec2_wf: "wf_vector vec2 [0]"
  using vec2_inv by (simp add: wf_vector_def full_prefix_def) (simp add: vec2_def seg_used_def seg_cap_def)

theorem at_out_of_range_witness:
  "wf_vector vec2 [0] \<and> Get_size vec2 = ret 2 \<and> at vec2 1 = ret ((0, 1), vec2) \<and>
   cell (mem vec2) (0, 1) = Some 22 \<and> at vec2 2 = fail out_of_range \<and>
   at vec2 7 = fail out_of_range"
proof -
  have l: "logical_slots (segs vec2) [0] = [(0, 0), (0, 1)]"
    by (simp add: vec2_def seg_used_def upt_rec)
  note A = at_out_of_range[OF vec2_wf, unfolded l]
  have "Get_size vec2 = ret 2" using A[of 0] by simp
  moreover have "at vec2 1 = ret ((0, 1), vec2)" using A[of 1] by simp
  moreover have "at vec2 2 = fail out_of_range" using A[of 2] by simp
  moreover have "at vec2 7 = fail out_of_range" using A[of 7] by simp
  moreover have "cell (mem vec2) (0, 1) = Some 22" by (simp add: vec2_def)
  ultimately show ?thesis using vec2_wf by simp
qed


subsection \<open>All slots of the chain\<close>

fun cap_slots :: "(nat \<Rightarrow> Data_Segment) \<Rightarrow> nat list \<Rightarrow> (nat \<times> nat) list" where
  "cap_slots h [] = []"
| "cap_slots h (a # as) =
     (case mBegin (h a) of
        None \<Rightarrow> []
      | Some b \<Rightarrow> map (\<lambda>j. (fst b, j)) [0..<seg_cap (h a)]) @ cap_slots h as"

lemma length_cap_slots:
  "\<forall>a\<in>set ps. seg_ok (h a) \<Longrightarrow> length (cap_slots h ps) = cap_sum h ps"
proof (induction ps)
  case Nil
  then show ?case by (simp add: cap_sum_def)
next
  case (Cons a ps)
  then have "length (cap_slots h ps) = cap_sum h ps" by simp
  moreover have "mBegin (h a) = None \<Longrightarrow> seg_cap (h a) = 0"
    using Cons.prems seg_cap_null[of "h a"] by simp
  ultimately show ?case by (simp add: cap_sum_def split: option.splits)
qed

lemma cap_slots_append [simp]: "cap_slots h (ps @ qs) = cap_slots h ps @ cap_slots h qs"
  by (induction ps) auto

lemma logical_slots_append [simp]: "logical_slots h (ps @ qs) = logical_slots h ps @ logical_slots h qs"
  by (induction ps) auto

lemma cap_slots_cong:
  "\<forall>a\<in>set ps. mBegin (h' a) = mBegin (h a) \<and> mEnd (h' a) = mEnd (h a) \<Longrightarrow>
   cap_slots h' ps = cap_slots h ps"
proof (induction ps)
  case Nil
  then show ?case by simp
next
  case (Cons a ps)
  then have "seg_cap (h' a) = seg_cap (h a)" "mBegin (h' a) = mBegin (h a)"
    "cap_slots h' ps = cap_slots h ps" by (simp_all add: seg_cap_def)
  then show ?case by (simp cong: option.case_cong)
qed

lemma slot_of_cap_slots:
  "\<forall>a\<in>set ps. seg_ok (h a) \<Longrightarrow> pos < cap_sum h ps \<Longrightarrow>
   slot_of h ps pos = Some (cap_slots h ps ! pos)"
proof (induction ps arbitrary: pos)
  case Nil
  then show ?case by (simp add: cap_sum_def)
next
  case (Cons a ps)
  have nb: "mBegin (h a) = None \<Longrightarrow> seg_cap (h a) = 0"
    using Cons.prems seg_cap_null[of "h a"] by simp
  have len: "length (case mBegin (h a) of None \<Rightarrow> []
                 | Some b \<Rightarrow> map (\<lambda>j. (fst b, j)) [0..<seg_cap (h a)]) = seg_cap (h a)"
    using nb by (simp split: option.splits)
  show ?case
  proof (cases "pos < seg_cap (h a)")
    case True
    with nb obtain b where "mBegin (h a) = Some b" by (cases "mBegin (h a)") auto
    with True show ?thesis by (simp add: nth_append)
  next
    case False
    with Cons.prems have "pos - seg_cap (h a) < cap_sum h ps" by (simp add: cap_sum_def)
    with Cons.IH[of "pos - seg_cap (h a)"] Cons.prems False len show ?thesis
      by (simp add: nth_append)
  qed
qed

lemma distinct_cap_slots:
  assumes ok: "\<forall>a\<in>set ps. seg_ok (h a)" and d: "distinct ps" and bd: "blocks_distinct h ps"
  shows "distinct (cap_slots h ps)"
  unfolding distinct_conv_nth
proof (intro allI impI)
  fix i j assume i: "i < length (cap_slots h ps)" and j: "j < length (cap_slots h ps)" and ne: "i \<noteq> j"
  from i j have "i < cap_sum h ps" "j < cap_sum h ps" by (simp_all add: length_cap_slots[OF ok])
  then have si: "slot_of h ps i = Some (cap_slots h ps ! i)" and sj: "slot_of h ps j = Some (cap_slots h ps ! j)"
    by (simp_all add: slot_of_cap_slots[OF ok])
  show "cap_slots h ps ! i \<noteq> cap_slots h ps ! j"
  proof
    assume "cap_slots h ps ! i = cap_slots h ps ! j"
    with si sj slot_of_inj[of h ps i "cap_slots h ps ! i" j, OF _ _ d bd] ne show False by simp
  qed
qed

lemma logical_take:
  "\<forall>a\<in>set ps. seg_ok (h a) \<Longrightarrow> ps \<noteq> [] \<Longrightarrow> full_prefix h ps \<Longrightarrow>
   logical_slots h ps = take (used_sum h ps) (cap_slots h ps)"
proof (induction ps)
  case Nil
  then show ?case by simp
next
  case (Cons a ps)
  have ok: "seg_ok (h a)" using Cons.prems by simp
  have nbu: "mBegin (h a) = None \<Longrightarrow> seg_used (h a) = 0"
    using ok seg_used_null[of "h a"] by simp
  have nbc: "mBegin (h a) = None \<Longrightarrow> seg_cap (h a) = 0"
    using ok seg_cap_null[of "h a"] by simp
  show ?case
  proof (cases ps)
    case Nil
    with Cons.prems(3) have "seg_used (h a) \<le> seg_cap (h a)" by (simp add: full_prefix_def)
    with Nil show ?thesis
      by (simp add: used_sum_def take_map split: option.splits)
  next
    case (Cons c qs)
    with Cons.prems(3) have full: "seg_used (h a) = seg_cap (h a)" and fp: "full_prefix h ps"
      using full_prefix_Cons by blast+
    have "logical_slots h ps = take (used_sum h ps) (cap_slots h ps)"
      using Cons.IH Cons.prems(1) fp Cons by simp
    with full nbc show ?thesis
      by (simp add: used_sum_def split: option.splits)
  qed
qed

subsection \<open>\<open>push_back\<close> on a well-formed vector\<close>

definition wf_push :: "'a concurrent_vector \<Rightarrow> nat list \<Rightarrow> bool" where
  "wf_push s ps =
     (wf_vector s ps \<and> v_mCurrent s = Some (last ps) \<and>
      ((\<forall>a\<in>set ps. 0 < seg_cap (segs s a)) \<or> (ps = [0] \<and> mBegin (segs s 0) = None)))"

definition contents :: "'a concurrent_vector \<Rightarrow> nat list \<Rightarrow> 'a option list" where
  "contents s ps = map (cell (mem s)) (logical_slots (segs s) ps)"

lemma Emplace_at_without_reallocation_eq:
  assumes inv: "vec_inv s ps" and sl: "slot_of (segs s) ps (vsize s ps) = Some q"
  shows "Emplace_at_without_reallocation (vsize s ps) v s =
           ret (q, s\<lparr>mem := (mem s)\<lparr>cell := (cell (mem s))(q := Some v)\<rparr>\<rparr>)"
proof -
  let ?s1 = "s\<lparr>mem := (mem s)\<lparr>cell := (cell (mem s))(q := Some v)\<rparr>\<rparr>"
  have inv1: "vec_inv ?s1 ps" using inv by (rule vec_inv_mem_cell)
  have "in_bounds (mem s) q" using slot_in_bounds[OF inv sl] .
  then have c: "construct (mem s) (Some q) v = Inr ((mem s)\<lparr>cell := (cell (mem s))(q := Some v)\<rparr>)"
    by (simp add: construct_def)
  have g: "Get_value_at ?s1 (vsize s ps) = ret q"
    using Get_value_at_inv[OF inv1, of "vsize s ps"] sl by simp
  show ?thesis
    by (simp add: Emplace_at_without_reallocation_def Get_size_inv[OF inv] Get_value_at_inv[OF inv] sl c g)
qed

lemma emplace_back_fast_eq:
  assumes inv: "vec_inv s ps"
    and room: "v_mCurrent s \<noteq> v_mEnd s \<or> mCurrent (segs s c) \<noteq> mEnd (segs s c)"
    and sl: "slot_of (segs s) ps (vsize s ps) = Some q"
    and c: "v_mCurrent s = Some c" and p: "mCurrent (segs s c) = Some p"
  shows "emplace_back sz v s = ret (q, write_and_advance s q v c p)"
proof -
  have g: "(if v_mCurrent s \<noteq> v_mEnd s then ret True
            else (case v_mCurrent s of None \<Rightarrow> fail null_dereference
                  | Some c \<Rightarrow> ret (mCurrent (segs s c) \<noteq> mEnd (segs s c)))) = ret True"
    using room c by (cases "v_mCurrent s = v_mEnd s") auto
  let ?s1 = "s\<lparr>mem := (mem s)\<lparr>cell := (cell (mem s))(q := Some v)\<rparr>\<rparr>"
  have a: "advance_current ?s1 = ret (write_and_advance s q v c p)"
    using advance_current_eq[of ?s1 c p] c p by (simp add: write_and_advance_def)
  show ?thesis
    unfolding emplace_back_def g
    by (simp add: Get_size_inv[OF inv] Emplace_at_without_reallocation_eq[OF inv sl] a)
qed

lemma emplace_back_slow_first_eq:
  assumes inv: "vec_inv s ps" and cur: "v_mCurrent s = Some 0" and e: "v_mEnd s = Some 0"
    and b0: "mBegin (segs s 0) = None"
    and k: "k = segment_size_for sz (cap_sum (segs s) ps) (vsize s ps + 1)"
    and s3: "s3 = write_and_advance (grow_first k s) (length (bsize (mem s)), 0) v 0
                    (length (bsize (mem s)), 0)"
  shows "emplace_back sz v s = bindE (pointer_to_last s3) (\<lambda>r. ret (r, s3))"
proof -
  let ?n = "vsize s ps"
  let ?nb = "length (bsize (mem s))"
  have kpos: "0 < k" unfolding k by (rule segment_size_for_pos)
  have calc: "Calculate_new_segment_size sz s (Suc ?n) = ret k"
    unfolding k using Calculate_new_segment_size_inv[OF inv, of sz "?n + 1"] by simp
  have ok0: "seg_ok (segs s 0)" using inv vec_inv_hd[OF inv] by (auto simp: vec_inv_def)
  then have full: "mCurrent (segs s 0) = mEnd (segs s 0)" using b0 by (simp add: seg_ok_def)
  have g: "(if v_mCurrent s \<noteq> v_mEnd s then ret True
            else (case v_mCurrent s of None \<Rightarrow> fail null_dereference
                  | Some c \<Rightarrow> ret (mCurrent (segs s c) \<noteq> mEnd (segs s c)))) = ret False"
    using cur e full by simp
  note A = Append_new_segment_first(1)[OF inv cur e b0]
      Append_new_segment_first(2)[OF inv cur e b0, of k]
  let ?s1 = "grow_first k s"
  have n0: "?n = 0"
    using ok0 b0 seg_used_null[of "segs s 0"] by (simp add: vsize_def A(1) used_sum_def)
  have calc0: "Calculate_new_segment_size sz s (Suc 0) = ret k" using calc n0 by simp
  have c1: "v_mCurrent ?s1 = Some 0" using cur by (simp add: grow_first_def)
  have p1: "mCurrent (segs ?s1 0) = Some (?nb, 0)" by (simp add: grow_first_def fresh_segment_def)
  have ib: "in_bounds (mem ?s1) (?nb, 0)" using kpos by (simp add: in_bounds_def grow_first_def)
  show ?thesis
    unfolding emplace_back_def g s3
    by (simp add: Emplace_back_with_reallocation_def Get_size_inv[OF inv] n0 calc0 A(2) Let_def
          construct_and_advance[OF c1 p1 ib] max_size_def)
qed

lemma emplace_back_slow_next_eq:
  assumes inv: "vec_inv s ps" and cur: "v_mCurrent s = Some c" and e: "v_mEnd s = Some c"
    and full: "mCurrent (segs s c) = mEnd (segs s c)"
    and nb: "\<not> (c = 0 \<and> mBegin (segs s 0) = None)"
    and nz: "vsize s ps \<noteq> 0" and nmax: "vsize s ps \<noteq> max_size"
    and k: "k = segment_size_for sz (cap_sum (segs s) ps) (vsize s ps + 1)"
    and s3: "s3 = write_and_advance ((grow_next k c s)\<lparr>v_mCurrent := Some (seg_next s)\<rparr>)
                    (length (bsize (mem s)), 0) v (seg_next s) (length (bsize (mem s)), 0)"
  shows "emplace_back sz v s = bindE (pointer_to_last s3) (\<lambda>r. ret (r, s3))"
proof -
  let ?n = "vsize s ps"
  let ?nb = "length (bsize (mem s))"
  have kpos: "0 < k" unfolding k by (rule segment_size_for_pos)
  have calc: "Calculate_new_segment_size sz s (Suc ?n) = ret k"
    unfolding k using Calculate_new_segment_size_inv[OF inv, of sz "?n + 1"] by simp
  have g: "(if v_mCurrent s \<noteq> v_mEnd s then ret True
            else (case v_mCurrent s of None \<Rightarrow> fail null_dereference
                  | Some c \<Rightarrow> ret (mCurrent (segs s c) \<noteq> mEnd (segs s c)))) = ret False"
    using cur e full by simp
  have cl: "c = last ps" using inv e by (simp add: vec_inv_def)
  have cin: "c \<in> set ps" using inv cur by (simp add: vec_inv_def)
  note A = Append_new_segment_next(1)[OF inv cur cl nb, of k]
  let ?s1 = "grow_next k c s"
  let ?new = "seg_next s"
  let ?s2 = "?s1\<lparr>v_mCurrent := Some ?new\<rparr>"
  have newnotin: "?new \<notin> set ps" using inv by (auto simp: vec_inv_def)
  then have cnew: "c \<noteq> ?new" using cin by auto
  have c1: "v_mCurrent ?s1 = Some c" using cur by (simp add: grow_next_def)
  have nx: "mSegAfter (segs ?s1 c) = Some ?new" by (simp add: grow_next_def)
  have c2: "v_mCurrent ?s2 = Some ?new" by simp
  have p2: "mCurrent (segs ?s2 ?new) = Some (?nb, 0)"
    using cnew by (simp add: grow_next_def fresh_segment_def)
  have ib: "in_bounds (mem ?s2) (?nb, 0)" using kpos by (simp add: in_bounds_def grow_next_def)
  show ?thesis
    unfolding emplace_back_def g s3
    using nz nmax
    by (simp add: Emplace_back_with_reallocation_def Get_size_inv[OF inv] calc A Let_def c1 nx
          step_current_forward_def construct_and_advance[OF c2 p2 ib])
qed


lemma logical_slots_cong:
  "\<forall>a\<in>set ps. mBegin (h' a) = mBegin (h a) \<and> mCurrent (h' a) = mCurrent (h a) \<Longrightarrow>
   logical_slots h' ps = logical_slots h ps"
proof (induction ps)
  case Nil
  then show ?case by simp
next
  case (Cons a ps)
  then have "seg_used (h' a) = seg_used (h a)" "mBegin (h' a) = mBegin (h a)"
    "logical_slots h' ps = logical_slots h ps" by (simp_all add: seg_used_def)
  then show ?case by (simp cong: option.case_cong)
qed

lemma full_prefix_sums:
  assumes "full_prefix h ps" "ps \<noteq> []"
  shows "used_sum h ps = cap_sum h (butlast ps) + seg_used (h (last ps))"
    and "cap_sum h ps = cap_sum h (butlast ps) + seg_cap (h (last ps))"
proof -
  from assms(2) have ps: "ps = butlast ps @ [last ps]" by simp
  have "used_sum h (butlast ps) = cap_sum h (butlast ps)"
    using assms(1) unfolding full_prefix_def used_sum_def cap_sum_def
    by (intro arg_cong[where f = sum_list] map_cong) auto
  then show "used_sum h ps = cap_sum h (butlast ps) + seg_used (h (last ps))"
    by (subst ps) (simp add: used_sum_def)
  show "cap_sum h ps = cap_sum h (butlast ps) + seg_cap (h (last ps))"
    by (subst ps) (simp add: cap_sum_def)
qed

lemma map_upd_take_Suc:
  "distinct xs \<Longrightarrow> n < length xs \<Longrightarrow>
   map (f(xs ! n := y)) (take (Suc n) xs) = map f (take n xs) @ [y]"
proof -
  assume d: "distinct xs" and n: "n < length xs"
  have "xs ! n \<notin> set (take n xs)"
    using d n by (metis distinct_take id_take_nth_drop not_distinct_conv_prefix)
  then have "map (f(xs ! n := y)) (take n xs) = map f (take n xs)" by (intro map_cong) auto
  with n show ?thesis by (simp add: take_Suc_conv_app_nth)
qed

lemma cap_slots_in_bounds:
  "p \<in> set (cap_slots h ps) \<Longrightarrow> blocks_ok m h ps \<Longrightarrow> in_bounds m p"
proof (induction ps)
  case Nil
  then show ?case by simp
next
  case (Cons a ps)
  have bo: "blocks_ok m h ps" using Cons.prems(2) by (simp add: blocks_ok_def)
  from Cons.prems(1) consider
    "p \<in> set (case mBegin (h a) of None \<Rightarrow> [] | Some b \<Rightarrow> map (\<lambda>j. (fst b, j)) [0..<seg_cap (h a)])"
    | "p \<in> set (cap_slots h ps)" by auto
  then show ?case
  proof cases
    case 1
    then obtain b where b: "mBegin (h a) = Some b" "fst p = fst b" "snd p < seg_cap (h a)"
      by (cases "mBegin (h a)") auto
    with Cons.prems(2) have "fst b < length (bsize m) \<and> bsize m ! fst b = seg_cap (h a)"
      unfolding blocks_ok_def by (metis list.set_intros(1))
    with b show ?thesis by (simp add: in_bounds_def)
  next
    case 2
    with Cons.IH bo show ?thesis by simp
  qed
qed

lemma seg_used_write_and_advance:
  "seg_used (segs (write_and_advance s q v c p) a) = (if a = c then snd p + 1 else seg_used (segs s a))"
  by (simp add: write_and_advance_def seg_used_def)

lemma begin_write_and_advance [simp]:
  "mBegin (segs (write_and_advance s q v c p) a) = mBegin (segs s a)"
  "mEnd (segs (write_and_advance s q v c p) a) = mEnd (segs s a)"
  by (simp_all add: write_and_advance_def)

lemma cell_write_and_advance [simp]:
  "cell (mem (write_and_advance s q v c p)) = (cell (mem s))(q := Some v)"
  "v_mCurrent (write_and_advance s q v c p) = v_mCurrent s"
  by (simp_all add: write_and_advance_def)

lemma seg_ok_pointers:
  assumes "seg_ok sg" "mBegin sg = Some b"
  shows "mCurrent sg = Some (fst b, seg_used sg)" "mEnd sg = Some (fst b, seg_cap sg)" "snd b = 0"
  using assms by (auto simp: seg_ok_def seg_used_def seg_cap_def split: option.splits)

lemma seg_ok_full:
  "seg_ok sg \<Longrightarrow> (mCurrent sg = mEnd sg) = (seg_used sg = seg_cap sg)"
  by (auto simp: seg_ok_def seg_used_def seg_cap_def split: option.splits)

lemma push_back_wf_fast:
  assumes wf: "wf_push s ps" and lt: "seg_used (segs s (last ps)) < seg_cap (segs s (last ps))"
  shows "\<exists>s'. push_back sz v s = ret s' \<and> wf_push s' ps \<and>
           contents s' ps = contents s ps @ [Some v] \<and>
           used_sum (segs s') ps = used_sum (segs s) ps + 1"
proof -
  let ?c = "last ps"
  let ?CS = "cap_slots (segs s) ps"
  let ?n = "used_sum (segs s) ps"
  from wf have wfv: "wf_vector s ps" and cur: "v_mCurrent s = Some ?c"
    and caps: "(\<forall>a\<in>set ps. 0 < seg_cap (segs s a)) \<or> (ps = [0] \<and> mBegin (segs s 0) = None)"
    by (simp_all add: wf_push_def)
  from wfv have inv: "vec_inv s ps" and fp: "full_prefix (segs s) ps" by (simp_all add: wf_vector_def)
  have ok: "\<forall>a\<in>set ps. seg_ok (segs s a)" and d: "distinct ps" and bd: "blocks_distinct (segs s) ps"
    and bo: "blocks_ok (mem s) (segs s) ps" and en: "v_mEnd s = Some ?c"
    using inv by (simp_all add: vec_inv_def)
  have ne: "ps \<noteq> []" using vec_inv_hd[OF inv] by auto
  have cin: "?c \<in> set ps" using ne by simp
  have okc: "seg_ok (segs s ?c)" using ok cin by simp
  have vs: "vsize s ps = ?n" by (rule wf_vector_size[OF wfv])
  have "mBegin (segs s ?c) \<noteq> None"
  proof
    assume "mBegin (segs s ?c) = None"
    from seg_cap_null[OF okc this] lt show False by simp
  qed
  then obtain b where b: "mBegin (segs s ?c) = Some b" by (cases "mBegin (segs s ?c)") blast+
  note P = seg_ok_pointers[OF okc b]
  let ?p = "(fst b, seg_used (segs s ?c))"
  have room: "v_mCurrent s \<noteq> v_mEnd s \<or> mCurrent (segs s ?c) \<noteq> mEnd (segs s ?c)"
    using lt seg_ok_full[OF okc] by simp
  have nlt: "?n < cap_sum (segs s) ps"
    using full_prefix_sums[OF fp ne] lt by simp
  then have len: "?n < length ?CS" by (simp add: length_cap_slots[OF ok])
  let ?q = "?CS ! ?n"
  have sl: "slot_of (segs s) ps (vsize s ps) = Some ?q"
    unfolding vs by (rule slot_of_cap_slots[OF ok nlt])
  let ?s' = "write_and_advance s ?q v ?c ?p"
  have e: "emplace_back sz v s = ret (?q, ?s')"
    by (rule emplace_back_fast_eq[OF inv room sl cur P(1)])
  then have pb: "push_back sz v s = ret ?s'" by (simp add: push_back_def)
  note W = write_and_advance_inv[OF inv cur P(1), of ?q v]
  have fp': "full_prefix (segs ?s') ps"
    unfolding full_prefix_def
  proof
    show "\<forall>a\<in>set (butlast ps). seg_used (segs ?s' a) = seg_cap (segs ?s' a)"
    proof
      fix a assume a: "a \<in> set (butlast ps)"
      then have "a \<noteq> ?c" using d ne
        by (metis append_butlast_last_id distinct.simps(2) distinct_butlast distinct_append
            disjoint_iff list.set_intros(1))
      with a fp show "seg_used (segs ?s' a) = seg_cap (segs ?s' a)"
        by (simp add: seg_used_write_and_advance full_prefix_def)
    qed
    show "seg_used (segs ?s' ?c) \<le> seg_cap (segs ?s' ?c)"
      using lt by (simp add: seg_used_write_and_advance)
  qed
  have wfv': "wf_vector ?s' ps" using W(1) fp' cur by (simp add: wf_vector_def)
  have caps': "\<forall>a\<in>set ps. 0 < seg_cap (segs s a)"
    using caps lt by auto
  have wf': "wf_push ?s' ps" using wfv' cur caps' by (simp add: wf_push_def)
  have us: "used_sum (segs ?s') ps = ?n + 1"
    using wf_vector_size[OF wfv'] W(2) vs by simp
  have ok': "\<forall>a\<in>set ps. seg_ok (segs ?s' a)" using W(1) by (simp add: vec_inv_def)
  have cs': "cap_slots (segs ?s') ps = ?CS" by (rule cap_slots_cong) simp
  have "logical_slots (segs ?s') ps = take (?n + 1) ?CS"
    using logical_take[OF ok' ne fp'] us cs' by simp
  moreover have "logical_slots (segs s) ps = take ?n ?CS" by (rule logical_take[OF ok ne fp])
  moreover have "distinct ?CS" by (rule distinct_cap_slots[OF ok d bd])
  ultimately have "contents ?s' ps = contents s ps @ [Some v]"
    using map_upd_take_Suc[of ?CS ?n "cell (mem s)" "Some v"] len by (simp add: contents_def)
  with pb wf' us show ?thesis by blast
qed


lemma vec_inv_set_current:
  "vec_inv s ps \<Longrightarrow> c \<in> set ps \<Longrightarrow> vec_inv (s\<lparr>v_mCurrent := Some c\<rparr>) ps"
  by (simp add: vec_inv_def)

lemma index_dec_Suc [simp]: "index_dec (Suc n) = n"
  by (simp add: index_dec_def)

lemma push_back_wf_slow_first:
  assumes wf: "wf_push s ps" and b0: "mBegin (segs s 0) = None" and ps: "ps = [0]"
  shows "\<exists>s'. push_back sz v s = ret s' \<and> wf_push s' ps \<and>
           contents s' ps = contents s ps @ [Some v] \<and>
           used_sum (segs s') ps = used_sum (segs s) ps + 1"
proof -
  let ?nb = "length (bsize (mem s))"
  define k where "k = segment_size_for sz (cap_sum (segs s) ps) (vsize s ps + 1)"
  have kpos: "0 < k" unfolding k_def by (rule segment_size_for_pos)
  from wf have inv: "vec_inv s ps" and cur: "v_mCurrent s = Some 0"
    by (simp_all add: wf_push_def wf_vector_def ps)
  have en: "v_mEnd s = Some 0" using inv by (simp add: vec_inv_def ps)
  have ok0: "seg_ok (segs s 0)" using inv by (simp add: vec_inv_def ps)
  let ?s1 = "grow_first k s"
  let ?s3 = "write_and_advance ?s1 (?nb, 0) v 0 (?nb, 0)"
  have e: "emplace_back sz v s = bindE (pointer_to_last ?s3) (\<lambda>r. ret (r, ?s3))"
    by (rule emplace_back_slow_first_eq[OF inv cur en b0 k_def refl])
  have inv1: "vec_inv ?s1 [0]" by (rule Append_new_segment_first(3)[OF inv cur en b0])
  have c1: "v_mCurrent ?s1 = Some 0" using cur by (simp add: grow_first_def)
  have p1: "mCurrent (segs ?s1 0) = Some (?nb, 0)" by (simp add: grow_first_def fresh_segment_def)
  note W = write_and_advance_inv[OF inv1 c1 p1, of "(?nb, 0)" v]
  have u0: "seg_used (segs s 0) = 0" by (rule seg_used_null[OF ok0 b0])
  have seg3: "segs ?s3 0 = (fresh_segment (mem s) k None)\<lparr>mCurrent := Some (?nb, 1)\<rparr>"
    by (simp add: write_and_advance_def grow_first_def)
  have u3: "seg_used (segs ?s3 0) = 1" "seg_cap (segs ?s3 0) = k"
    "mBegin (segs ?s3 0) = Some (?nb, 0)"
    by (simp_all add: seg3 seg_used_def seg_cap_def fresh_segment_def)
  have vs3: "vsize ?s3 [0] = 1" using c1 u3 by (simp add: vsize_def used_sum_def)
  have sl3: "slot_of (segs ?s3) [0] 0 = Some (?nb, 0)" using kpos u3 by simp
  have gs3: "Get_size ?s3 = ret (Suc 0)" using Get_size_inv[OF W(1)] vs3 by simp
  have gv3: "Get_value_at ?s3 0 = ret (?nb, 0)" using Get_value_at_inv[OF W(1), of 0] sl3 by simp
  have "pointer_to_last ?s3 = ret (?nb, 0)"
    by (simp add: pointer_to_last_def gs3 gv3)
  with e have pb: "push_back sz v s = ret ?s3" by (simp add: push_back_def)
  have wf3: "wf_push ?s3 [0]"
    using W(1) c1 kpos u3 by (simp add: wf_push_def wf_vector_def full_prefix_def)
  have c3: "contents ?s3 [0] = [Some v]" using u3 by (simp add: contents_def)
  have c0: "contents s [0] = []" using b0 by (simp add: contents_def)
  have "used_sum (segs ?s3) [0] = used_sum (segs s) [0] + 1" using u3 u0 by (simp add: used_sum_def)
  with pb wf3 c3 c0 show ?thesis unfolding ps by (intro exI[of _ ?s3]) simp
qed

lemma push_back_wf_slow_next:
  assumes wf: "wf_push s ps" and full: "seg_used (segs s (last ps)) = seg_cap (segs s (last ps))"
    and caps: "\<forall>a\<in>set ps. 0 < seg_cap (segs s a)"
    and nmax: "used_sum (segs s) ps \<noteq> max_size"
  shows "\<exists>s'. push_back sz v s = ret s' \<and> wf_push s' (ps @ [seg_next s]) \<and>
           contents s' (ps @ [seg_next s]) = contents s ps @ [Some v] \<and>
           used_sum (segs s') (ps @ [seg_next s]) = used_sum (segs s) ps + 1"
proof -
  let ?c = "last ps"
  let ?n = "used_sum (segs s) ps"
  let ?nb = "length (bsize (mem s))"
  let ?new = "seg_next s"
  let ?ps2 = "ps @ [?new]"
  define k where "k = segment_size_for sz (cap_sum (segs s) ps) (vsize s ps + 1)"
  have kpos: "0 < k" unfolding k_def by (rule segment_size_for_pos)
  from wf have wfv: "wf_vector s ps" and cur: "v_mCurrent s = Some ?c" by (simp_all add: wf_push_def)
  from wfv have inv: "vec_inv s ps" and fp: "full_prefix (segs s) ps" by (simp_all add: wf_vector_def)
  have ok: "\<forall>a\<in>set ps. seg_ok (segs s a)" and d: "distinct ps"
    and bo: "blocks_ok (mem s) (segs s) ps" and en: "v_mEnd s = Some ?c"
    using inv by (simp_all add: vec_inv_def)
  have ne: "ps \<noteq> []" using vec_inv_hd[OF inv] by auto
  have cin: "?c \<in> set ps" using ne by simp
  have okc: "seg_ok (segs s ?c)" using ok cin by simp
  have vs: "vsize s ps = ?n" by (rule wf_vector_size[OF wfv])
  have fullp: "mCurrent (segs s ?c) = mEnd (segs s ?c)" using seg_ok_full[OF okc] full by simp
  have capc: "0 < seg_cap (segs s ?c)" using caps cin by simp
  have nb: "\<not> (?c = 0 \<and> mBegin (segs s 0) = None)"
  proof
    assume "?c = 0 \<and> mBegin (segs s 0) = None"
    then have "mBegin (segs s ?c) = None" by simp
    from seg_cap_null[OF okc this] capc show False by simp
  qed
  have ncap: "?n = cap_sum (segs s) ps" using full_prefix_sums[OF fp ne] full by simp
  have nz: "vsize s ps \<noteq> 0" using capc ncap full_prefix_sums(2)[OF fp ne] vs by simp
  have nm: "vsize s ps \<noteq> max_size" using nmax vs by simp
  let ?s2 = "(grow_next k ?c s)\<lparr>v_mCurrent := Some ?new\<rparr>"
  let ?s3 = "write_and_advance ?s2 (?nb, 0) v ?new (?nb, 0)"
  have e: "emplace_back sz v s = bindE (pointer_to_last ?s3) (\<lambda>r. ret (r, ?s3))"
    by (rule emplace_back_slow_next_eq[OF inv cur en fullp nb nz nm k_def refl])
  have inv1: "vec_inv (grow_next k ?c s) ?ps2" by (rule Append_new_segment_next(2)[OF inv cur refl nb])
  have inv2: "vec_inv ?s2 ?ps2" using vec_inv_set_current[OF inv1, of ?new] by simp
  have newnotin: "?new \<notin> set ps" using inv by (auto simp: vec_inv_def)
  then have cnew: "?c \<noteq> ?new" using cin by auto
  have c2: "v_mCurrent ?s2 = Some ?new" by simp
  have p2: "mCurrent (segs ?s2 ?new) = Some (?nb, 0)"
    using cnew by (simp add: grow_next_def fresh_segment_def)
  note W = write_and_advance_inv[OF inv2 c2 p2, of "(?nb, 0)" v]
  have old: "\<forall>a\<in>set ps. mBegin (segs ?s3 a) = mBegin (segs s a) \<and> mEnd (segs ?s3 a) = mEnd (segs s a)
                \<and> mCurrent (segs ?s3 a) = mCurrent (segs s a)"
    using newnotin by (auto simp: write_and_advance_def grow_next_def)
  have seg3: "segs ?s3 ?new = (fresh_segment (mem s) k (Some ?c))\<lparr>mCurrent := Some (?nb, 1)\<rparr>"
    using cnew by (simp add: write_and_advance_def grow_next_def)
  have u3: "seg_used (segs ?s3 ?new) = 1" "seg_cap (segs ?s3 ?new) = k"
    "mBegin (segs ?s3 ?new) = Some (?nb, 0)"
    by (simp_all add: seg3 seg_used_def seg_cap_def fresh_segment_def)
  have used3: "used_sum (segs ?s3) ps = ?n" using old by (intro used_sum_cong) simp
  have cap3: "cap_sum (segs ?s3) ps = cap_sum (segs s) ps" using old by (intro cap_sum_cong) simp
  have us3: "used_sum (segs ?s3) ?ps2 = ?n + 1" using used3 u3 by (simp add: used_sum_def)
  have seg_same: "\<forall>a\<in>set ps. seg_used (segs ?s3 a) = seg_used (segs s a) \<and>
                    seg_cap (segs ?s3 a) = seg_cap (segs s a)"
    using old by (simp add: seg_used_def seg_cap_def)
  have fp3: "full_prefix (segs ?s3) ?ps2"
    unfolding full_prefix_def
  proof
    show "\<forall>a\<in>set (butlast ?ps2). seg_used (segs ?s3 a) = seg_cap (segs ?s3 a)"
    proof
      fix a assume "a \<in> set (butlast ?ps2)"
      then have a: "a \<in> set ps" by simp
      show "seg_used (segs ?s3 a) = seg_cap (segs ?s3 a)"
      proof (cases "a = ?c")
        case True
        with seg_same cin full show ?thesis by simp
      next
        case False
        with a ne have "a \<in> set (butlast ps)"
          by (metis append_butlast_last_id set_ConsD in_set_conv_decomp rotate1.simps(2) set_rotate1)
        with fp seg_same a show ?thesis by (simp add: full_prefix_def)
      qed
    qed
    show "seg_used (segs ?s3 (last ?ps2)) \<le> seg_cap (segs ?s3 (last ?ps2))"
      using u3 kpos by simp
  qed
  have wfv3: "wf_vector ?s3 ?ps2" using W(1) fp3 by (simp add: wf_vector_def)
  have wf3: "wf_push ?s3 ?ps2"
    using wfv3 caps seg_same u3 kpos by (simp add: wf_push_def)
  have vs3: "vsize ?s3 ?ps2 = ?n + 1" using wf_vector_size[OF wfv3] us3 by simp
  have "slot_of (segs ?s3) ?ps2 ?n = slot_of (segs ?s3) [?new] (?n - cap_sum (segs ?s3) ps)"
    by (rule slot_of_append_ge) (simp add: cap3 ncap)
  then have sl3: "slot_of (segs ?s3) ?ps2 ?n = Some (?nb, 0)"
    using u3 kpos by (simp add: cap3 ncap)
  have gs3: "Get_size ?s3 = ret (Suc ?n)" using Get_size_inv[OF W(1)] vs3 by simp
  have gv3: "Get_value_at ?s3 ?n = ret (?nb, 0)" using Get_value_at_inv[OF W(1), of ?n] sl3 by simp
  have "pointer_to_last ?s3 = ret (?nb, 0)"
    by (simp add: pointer_to_last_def gs3 gv3)
  with e have pb: "push_back sz v s = ret ?s3" by (simp add: push_back_def)
  have ls: "logical_slots (segs ?s3) ps = logical_slots (segs s) ps"
    using old by (intro logical_slots_cong) simp
  have oldcells: "\<forall>p\<in>set (logical_slots (segs s) ps). cell (mem ?s3) p = cell (mem s) p"
  proof
    fix p assume "p \<in> set (logical_slots (segs s) ps)"
    then have "p \<in> set (cap_slots (segs s) ps)"
      unfolding logical_take[OF ok ne fp] by (rule in_set_takeD)
    from cap_slots_in_bounds[OF this bo] have "fst p < ?nb" by (simp add: in_bounds_def)
    then have "p \<noteq> (?nb, 0)" by auto
    then show "cell (mem ?s3) p = cell (mem s) p" by (simp add: grow_next_def)
  qed
  have "contents ?s3 ?ps2 = contents s ps @ [Some v]"
    using oldcells u3 by (simp add: contents_def ls)
  with pb wf3 us3 show ?thesis by blast
qed

lemma push_back_wf:
  assumes wf: "wf_push s ps" and nmax: "used_sum (segs s) ps \<noteq> max_size"
  shows "\<exists>s' ps'. push_back sz v s = ret s' \<and> wf_push s' ps' \<and>
           contents s' ps' = contents s ps @ [Some v] \<and>
           used_sum (segs s') ps' = used_sum (segs s) ps + 1"
proof -
  from wf have fp: "full_prefix (segs s) ps"
    and caps: "(\<forall>a\<in>set ps. 0 < seg_cap (segs s a)) \<or> (ps = [0] \<and> mBegin (segs s 0) = None)"
    by (simp_all add: wf_push_def wf_vector_def)
  from fp have le: "seg_used (segs s (last ps)) \<le> seg_cap (segs s (last ps))"
    by (simp add: full_prefix_def)
  show ?thesis
  proof (cases "seg_used (segs s (last ps)) < seg_cap (segs s (last ps))")
    case True
    from push_back_wf_fast[OF wf True] show ?thesis by blast
  next
    case False
    with le have full: "seg_used (segs s (last ps)) = seg_cap (segs s (last ps))" by simp
    from caps show ?thesis
    proof
      assume "\<forall>a\<in>set ps. 0 < seg_cap (segs s a)"
      from push_back_wf_slow_next[OF wf full this nmax] show ?thesis by blast
    next
      assume "ps = [0] \<and> mBegin (segs s 0) = None"
      then have "mBegin (segs s 0) = None" "ps = [0]" by simp_all
      from push_back_wf_slow_first[OF wf this] show ?thesis by blast
    qed
  qed
qed

lemma push_back_all_wf:
  assumes "wf_push s ps" and "used_sum (segs s) ps + n \<le> max_size"
  shows "\<exists>s' ps'. push_back_all sz (replicate n v) s = ret s' \<and> wf_push s' ps' \<and>
           contents s' ps' = contents s ps @ replicate n (Some v) \<and>
           used_sum (segs s') ps' = used_sum (segs s) ps + n"
  using assms
proof (induction n arbitrary: s ps)
  case 0
  then show ?case by auto
next
  case (Suc n)
  from Suc.prems(2) have "used_sum (segs s) ps \<noteq> max_size" by simp
  from push_back_wf[OF Suc.prems(1) this, of sz v] obtain s1 ps1 where
    pb: "push_back sz v s = ret s1" and wf1: "wf_push s1 ps1"
    and c1: "contents s1 ps1 = contents s ps @ [Some v]"
    and u1: "used_sum (segs s1) ps1 = used_sum (segs s) ps + 1" by blast
  from Suc.prems(2) u1 have "used_sum (segs s1) ps1 + n \<le> max_size" by simp
  from Suc.IH[OF wf1 this] obtain s' ps' where
    pa: "push_back_all sz (replicate n v) s1 = ret s'" and wf': "wf_push s' ps'"
    and c': "contents s' ps' = contents s1 ps1 @ replicate n (Some v)"
    and u': "used_sum (segs s') ps' = used_sum (segs s1) ps1 + n" by blast
  have "push_back_all sz (replicate (Suc n) v) s = ret s'" using pb pa by simp
  moreover have "contents s' ps' = contents s ps @ replicate (Suc n) (Some v)"
    using c' c1 by (simp add: replicate_app_Cons_same)
  moreover have "used_sum (segs s') ps' = used_sum (segs s) ps + Suc n" using u' u1 by simp
  ultimately show ?case using wf' by blast
qed

subsection \<open>\<open>grow_by\<close> on a well-formed vector\<close>

lemma Fill_n_inv:
  assumes "vec_inv s ps" and "t + n \<le> cap_sum (segs s) ps"
  shows "Fill_n t n v s =
           ret (s\<lparr>mem := (mem s)\<lparr>cell := (\<lambda>p. if p \<in> set (take n (drop t (cap_slots (segs s) ps)))
                                               then Some v else cell (mem s) p)\<rparr>\<rparr>)"
  using assms
proof (induction n arbitrary: t s)
  case 0
  then show ?case by simp
next
  case (Suc n)
  let ?CS = "cap_slots (segs s) ps"
  have ok: "\<forall>a\<in>set ps. seg_ok (segs s a)" using Suc.prems(1) by (simp add: vec_inv_def)
  have t: "t < cap_sum (segs s) ps" using Suc.prems(2) by simp
  then have tl: "t < length ?CS" by (simp add: length_cap_slots[OF ok])
  have sl: "slot_of (segs s) ps t = Some (?CS ! t)" by (rule slot_of_cap_slots[OF ok t])
  have g: "Get_value_at s t = ret (?CS ! t)" using Get_value_at_inv[OF Suc.prems(1), of t] sl by simp
  have "in_bounds (mem s) (?CS ! t)" by (rule slot_in_bounds[OF Suc.prems(1) sl])
  then have c: "construct (mem s) (Some (?CS ! t)) v =
      Inr ((mem s)\<lparr>cell := (cell (mem s))(?CS ! t := Some v)\<rparr>)" by (simp add: construct_def)
  let ?s1 = "s\<lparr>mem := (mem s)\<lparr>cell := (cell (mem s))(?CS ! t := Some v)\<rparr>\<rparr>"
  have inv1: "vec_inv ?s1 ps" using Suc.prems(1) by (rule vec_inv_mem_cell)
  have "Suc t + n \<le> cap_sum (segs ?s1) ps" using Suc.prems(2) by simp
  from Suc.IH[OF inv1 this]
  have ih: "Fill_n (Suc t) n v ?s1 =
      ret (?s1\<lparr>mem := (mem ?s1)\<lparr>cell := (\<lambda>p. if p \<in> set (take n (drop (Suc t) ?CS))
                                               then Some v else cell (mem ?s1) p)\<rparr>\<rparr>)" by simp
  have dr: "take (Suc n) (drop t ?CS) = ?CS ! t # take n (drop (Suc t) ?CS)"
    using tl by (simp add: Cons_nth_drop_Suc[symmetric])
  have "(\<lambda>p. if p \<in> set (take n (drop (Suc t) ?CS)) then Some v else cell (mem ?s1) p) =
        (\<lambda>p. if p \<in> set (take (Suc n) (drop t ?CS)) then Some v else cell (mem s) p)"
    unfolding dr by (rule ext) simp
  then show ?case by (simp add: g c ih)
qed

lemma Adjust_walk_step:
  "seg_ok (h a) \<Longrightarrow>
   Adjust_walk h (Some a) idx =
     (if idx < seg_cap (h a)
      then (case ptr_add (mBegin (h a)) idx of
              Inl e \<Rightarrow> Some (Inl e)
            | Inr p \<Rightarrow> Some (Inr (h(a := (h a)\<lparr>mCurrent := p\<rparr>), Some a)))
      else Adjust_walk (h(a := (h a)\<lparr>mCurrent := mEnd (h a)\<rparr>)) (mSegAfter (h a))
             (idx - seg_cap (h a)))"
  by (subst Adjust_walk.simps) (simp add: ptr_diff_end_begin)

text \<open>
  The cursors that \<open>Adjust_segments_and_get_last_address_for\<close> leaves when the index lies
  in or behind the last segment: every earlier segment is full, and the last holds the rest.
\<close>

definition adjusted :: "(nat \<Rightarrow> Data_Segment) \<Rightarrow> nat list \<Rightarrow> nat \<Rightarrow> (nat \<Rightarrow> Data_Segment) \<Rightarrow> bool" where
  "adjusted h ps idx h' =
     ((\<forall>a. mBegin (h' a) = mBegin (h a) \<and> mEnd (h' a) = mEnd (h a) \<and>
           mSegAfter (h' a) = mSegAfter (h a)) \<and>
      (\<forall>a. a \<notin> set ps \<longrightarrow> h' a = h a) \<and>
      (\<forall>a\<in>set ps. seg_ok (h' a)) \<and>
      (\<forall>a\<in>set (butlast ps). seg_used (h' a) = seg_cap (h a)) \<and>
      seg_used (h' (last ps)) =
        min (idx - cap_sum h (butlast ps)) (seg_cap (h (last ps))))"

lemma Adjust_walk_last:
  assumes "chain h p ps" and "distinct ps" and "\<forall>a\<in>set ps. seg_ok (h a)" and "ps \<noteq> []"
    and "cap_sum h (butlast ps) \<le> idx"
  shows "\<exists>h'. Adjust_walk h p idx =
                 ret (h', if idx - cap_sum h (butlast ps) < seg_cap (h (last ps))
                          then Some (last ps) else None) \<and>
              adjusted h ps idx h'"
  using assms
proof (induction ps arbitrary: h p idx)
  case Nil
  then show ?case by simp
next
  case (Cons a ps)
  from Cons.prems have p: "p = Some a" and ok: "seg_ok (h a)" by simp_all
  show ?case
  proof (cases ps)
    case Nil
    from Cons.prems(1) have nx: "mSegAfter (h a) = None" by (simp add: Nil)
    show ?thesis
    proof (cases "idx < seg_cap (h a)")
      case True
      then obtain b where b: "mBegin (h a) = Some b" using seg_cap_pos_begin[OF ok] by auto
      note P = seg_ok_pointers[OF ok b]
      let ?h' = "h(a := (h a)\<lparr>mCurrent := Some (fst b, snd b + idx)\<rparr>)"
      have w: "Adjust_walk h p idx = ret (?h', Some a)"
        using True b ok by (simp add: p Adjust_walk_step[of h a] ptr_add_def ret_def)
      have ok': "seg_ok (?h' a)" using ok b by (auto simp: seg_ok_def split: option.splits)
      have "adjusted h [a] idx ?h'"
        using True ok' P(3) by (simp add: adjusted_def seg_used_def cap_sum_def)
      with w True show ?thesis by (simp add: Nil cap_sum_def)
    next
      case False
      let ?h' = "h(a := (h a)\<lparr>mCurrent := mEnd (h a)\<rparr>)"
      have w: "Adjust_walk h p idx = ret (?h', None)"
        using False nx ok by (simp add: p Adjust_walk_step[of h a]) (simp add: Adjust_walk.simps ret_def)
      have ok': "seg_ok (?h' a)" using ok by (auto simp: seg_ok_def split: option.splits)
      have "seg_used (?h' a) = seg_cap (h a)" by (simp add: seg_used_def seg_cap_def)
      with ok' False have "adjusted h [a] idx ?h'" by (simp add: adjusted_def cap_sum_def)
      with w False show ?thesis by (simp add: Nil cap_sum_def)
    qed
  next
    case (Cons b rest)
    let ?h1 = "h(a := (h a)\<lparr>mCurrent := mEnd (h a)\<rparr>)"
    from Cons.prems(5) have ge: "seg_cap (h a) \<le> idx" by (simp add: Cons cap_sum_def)
    have anot: "a \<notin> set ps" using Cons.prems(2) by simp
    have same: "\<And>x. x \<in> set ps \<Longrightarrow> ?h1 x = h x" using anot by auto
    have ch1: "chain ?h1 (mSegAfter (h a)) ps"
      using Cons.prems(1) chain_cong[of ps ?h1 h "mSegAfter (h a)"] same by simp
    have ok1: "\<forall>x\<in>set ps. seg_ok (?h1 x)" using Cons.prems(3) same by simp
    have d1: "distinct ps" using Cons.prems(2) by simp
    have ne1: "ps \<noteq> []" by (simp add: Cons)
    have cs1: "\<And>xs. set xs \<subseteq> set ps \<Longrightarrow> cap_sum ?h1 xs = cap_sum h xs"
      using anot by (intro cap_sum_cong) auto
    have bl: "set (butlast ps) \<subseteq> set ps" by (auto dest: in_set_butlastD)
    have csb: "cap_sum h (butlast (a # ps)) = seg_cap (h a) + cap_sum h (butlast ps)"
      by (simp add: Cons cap_sum_def)
    have le1: "cap_sum ?h1 (butlast ps) \<le> idx - seg_cap (h a)"
      using Cons.prems(5) csb cs1[OF bl] by simp
    from Cons.IH[OF ch1 d1 ok1 ne1 le1] obtain h' where
      w1: "Adjust_walk ?h1 (mSegAfter (h a)) (idx - seg_cap (h a)) =
             ret (h', if idx - seg_cap (h a) - cap_sum ?h1 (butlast ps) < seg_cap (?h1 (last ps))
                      then Some (last ps) else None)"
      and ad1: "adjusted ?h1 ps (idx - seg_cap (h a)) h'" by blast
    have lastin: "last ps \<in> set ps" using ne1 by simp
    have lc: "seg_cap (?h1 (last ps)) = seg_cap (h (last ps))" using same[OF lastin] by simp
    have rem: "idx - seg_cap (h a) - cap_sum ?h1 (butlast ps) = idx - cap_sum h (butlast (a # ps))"
      using csb cs1[OF bl] by simp
    have w: "Adjust_walk h p idx =
        ret (h', if idx - cap_sum h (butlast (a # ps)) < seg_cap (h (last (a # ps)))
                 then Some (last (a # ps)) else None)"
    proof -
      have "Adjust_walk h p idx = Adjust_walk ?h1 (mSegAfter (h a)) (idx - seg_cap (h a))"
        using ge ok by (simp add: p Adjust_walk_step[of h a])
      also note w1
      finally have "Adjust_walk h p idx =
          ret (h', if idx - cap_sum h (butlast (a # ps)) < seg_cap (h (last ps))
                   then Some (last ps) else None)" by (simp only: rem lc)
      moreover have "last (a # ps) = last ps" using ne1 by simp
      ultimately show ?thesis by simp
    qed
    have fields: "\<forall>x. mBegin (h' x) = mBegin (h x) \<and> mEnd (h' x) = mEnd (h x) \<and>
           mSegAfter (h' x) = mSegAfter (h x)"
      using ad1 by (simp add: adjusted_def)
    have eqa: "h' a = ?h1 a" using ad1 anot by (simp add: adjusted_def)
    have h'a: "seg_ok (h' a) \<and> seg_used (h' a) = seg_cap (h a)"
      unfolding eqa using ok by (auto simp: seg_ok_def seg_used_def seg_cap_def split: option.splits)
    have out: "\<forall>x. x \<notin> set (a # ps) \<longrightarrow> h' x = h x"
      using ad1 by (simp add: adjusted_def)
    have oks: "\<forall>x\<in>set (a # ps). seg_ok (h' x)"
      using ad1 h'a by (simp add: adjusted_def)
    have bu: "\<forall>x\<in>set (butlast (a # ps)). seg_used (h' x) = seg_cap (h x)"
    proof
      fix x assume "x \<in> set (butlast (a # ps))"
      then have "x = a \<or> x \<in> set (butlast ps)" using ne1 by simp
      then show "seg_used (h' x) = seg_cap (h x)"
      proof
        assume "x = a" then show ?thesis using h'a by simp
      next
        assume x: "x \<in> set (butlast ps)"
        then have "seg_used (h' x) = seg_cap (?h1 x)" using ad1 by (simp add: adjusted_def)
        moreover have "x \<in> set ps" using x bl by auto
        ultimately show ?thesis using same by simp
      qed
    qed
    have la: "seg_used (h' (last (a # ps))) =
        min (idx - cap_sum h (butlast (a # ps))) (seg_cap (h (last (a # ps))))"
    proof -
      have "seg_used (h' (last ps)) =
          min (idx - seg_cap (h a) - cap_sum ?h1 (butlast ps)) (seg_cap (?h1 (last ps)))"
        using ad1 by (simp add: adjusted_def)
      moreover have "last (a # ps) = last ps" using ne1 by simp
      ultimately show ?thesis by (simp only: rem lc)
    qed
    have "adjusted h (a # ps) idx h'"
      unfolding adjusted_def using fields out oks bu la by simp
    with w show ?thesis by blast
  qed
qed


lemma Adjust_inv:
  assumes inv: "vec_inv s ps" and lo: "cap_sum (segs s) (butlast ps) \<le> idx"
  shows "\<exists>h' t. Adjust_segments_and_get_last_address_for idx s = ret (t, s\<lparr>segs := h'\<rparr>) \<and>
           (t = Some (last ps) \<or> t = None) \<and> adjusted (segs s) ps idx h'"
proof -
  obtain rest where ps: "ps = 0 # rest" using vec_inv_hd[OF inv] by blast
  then have ne: "ps \<noteq> []" by simp
  from inv have ch: "chain (segs s) (Some 0) ps" and d: "distinct ps"
    and ok: "\<forall>a\<in>set ps. seg_ok (segs s a)" by (simp_all add: vec_inv_def)
  from Adjust_walk_last[OF ch d ok ne lo] obtain h' where
    w: "Adjust_walk (segs s) (Some 0) idx =
          ret (h', if idx - cap_sum (segs s) (butlast ps) < seg_cap (segs s (last ps))
                   then Some (last ps) else None)"
    and ad: "adjusted (segs s) ps idx h'" by blast
  have "mSegAfter (h' (last ps)) = mSegAfter (segs s (last ps))" using ad by (simp add: adjusted_def)
  then have nx: "mSegAfter (h' (last ps)) = None" using chain_last_None[OF ch ne] by simp
  have r: "Adjust_reset h' None = ret h'" by (simp add: Adjust_reset.simps ret_def)
  show ?thesis
  proof (cases "idx - cap_sum (segs s) (butlast ps) < seg_cap (segs s (last ps))")
    case True
    with w have "Adjust_segments_and_get_last_address_for idx s = ret (Some (last ps), s\<lparr>segs := h'\<rparr>)"
      by (simp add: Adjust_segments_and_get_last_address_for_def nx r)
    with ad show ?thesis by blast
  next
    case False
    with w have "Adjust_segments_and_get_last_address_for idx s = ret (None, s\<lparr>segs := h'\<rparr>)"
      by (simp add: Adjust_segments_and_get_last_address_for_def)
    with ad show ?thesis by blast
  qed
qed

lemma adjusted_wf:
  assumes inv: "vec_inv s ps" and ad: "adjusted (segs s) ps idx h'"
    and lo: "cap_sum (segs s) (butlast ps) \<le> idx" and hi: "idx \<le> cap_sum (segs s) ps"
    and t: "t = Some (last ps) \<or> t = None"
  shows "wf_vector (s\<lparr>segs := h', v_mCurrent := t\<rparr>) ps"
    and "used_sum h' ps = idx"
    and "cap_slots h' ps = cap_slots (segs s) ps"
proof -
  obtain rest where ps: "ps = 0 # rest" using vec_inv_hd[OF inv] by blast
  then have ne: "ps \<noteq> []" by simp
  have f: "\<And>a. mBegin (h' a) = mBegin (segs s a)" "\<And>a. mEnd (h' a) = mEnd (segs s a)"
    "\<And>a. mSegAfter (h' a) = mSegAfter (segs s a)" using ad by (simp_all add: adjusted_def)
  have cap: "\<And>a. seg_cap (h' a) = seg_cap (segs s a)" by (simp add: seg_cap_def f)
  have ok': "\<forall>a\<in>set ps. seg_ok (h' a)" using ad by (simp add: adjusted_def)
  have ch: "chain h' (Some 0) ps" using inv chain_cong[of ps h' "segs s" "Some 0"] f(3)
    by (simp add: vec_inv_def)
  have bd: "blocks_distinct h' ps" using inv by (simp add: vec_inv_def blocks_distinct_def f)
  have bo: "blocks_ok (mem s) h' ps" using inv by (simp add: vec_inv_def blocks_ok_def f cap)
  have lastin: "last ps \<in> set ps" using ne by simp
  have inv': "vec_inv (s\<lparr>segs := h', v_mCurrent := t\<rparr>) ps"
    using inv t ch bd bo ok' lastin by (auto simp: vec_inv_def)
  have cs: "\<And>xs. cap_sum h' xs = cap_sum (segs s) xs" by (simp add: cap_sum_def cap)
  have fs: "cap_sum (segs s) ps = cap_sum (segs s) (butlast ps) + seg_cap (segs s (last ps))"
  proof -
    have "ps = butlast ps @ [last ps]" using ne by simp
    then have "cap_sum (segs s) ps = cap_sum (segs s) (butlast ps @ [last ps])" by simp
    then show ?thesis by (simp add: cap_sum_def)
  qed
  have lu: "seg_used (h' (last ps)) = idx - cap_sum (segs s) (butlast ps)"
    using ad hi fs by (simp add: adjusted_def)
  have fp: "full_prefix h' ps"
    using ad hi fs by (simp add: full_prefix_def adjusted_def cap)
  show "wf_vector (s\<lparr>segs := h', v_mCurrent := t\<rparr>) ps"
    using inv' fp t by (auto simp: wf_vector_def)
  show "used_sum h' ps = idx"
    using full_prefix_sums(1)[OF fp ne] lu lo by (simp add: cs)
  show "cap_slots h' ps = cap_slots (segs s) ps"
    by (rule cap_slots_cong) (simp add: f)
qed

text \<open>The part of \<open>grow_by\<close> after the capacity has been secured.\<close>

lemma grow_tail:
  assumes inv: "vec_inv sA ps" and sz: "Get_size sA = ret n0"
    and hi: "n0 + n \<le> cap_sum (segs sA) ps"
    and lo: "cap_sum (segs sA) (butlast ps) \<le> n0 + n"
  shows "\<exists>s1. bindE (Get_size sA) (\<lambda>end_index.
                bindE (Fill_n end_index n v sA) (\<lambda>s2.
                bindE (Adjust_segments_and_get_last_address_for (n0 + n) s2) (\<lambda>r.
                  ret ((snd r)\<lparr>v_mCurrent := fst r\<rparr>)))) = ret s1 \<and>
              wf_vector s1 ps \<and> used_sum (segs s1) ps = n0 + n \<and>
              contents s1 ps = map (cell (mem sA)) (take n0 (cap_slots (segs sA) ps)) @
                                 replicate n (Some v)"
proof -
  let ?CS = "cap_slots (segs sA) ps"
  let ?sB = "sA\<lparr>mem := (mem sA)\<lparr>cell := (\<lambda>p. if p \<in> set (take n (drop n0 ?CS))
                                               then Some v else cell (mem sA) p)\<rparr>\<rparr>"
  have fill: "Fill_n n0 n v sA = ret ?sB" by (rule Fill_n_inv[OF inv hi])
  have invB: "vec_inv ?sB ps"
    using inv by (simp add: vec_inv_def blocks_ok_def)
  have loB: "cap_sum (segs ?sB) (butlast ps) \<le> n0 + n" using lo by simp
  from Adjust_inv[OF invB loB] obtain h' t where
    adj: "Adjust_segments_and_get_last_address_for (n0 + n) ?sB = ret (t, ?sB\<lparr>segs := h'\<rparr>)"
    and t: "t = Some (last ps) \<or> t = None"
    and ad: "adjusted (segs ?sB) ps (n0 + n) h'" by blast
  let ?s1 = "?sB\<lparr>segs := h', v_mCurrent := t\<rparr>"
  have hiB: "n0 + n \<le> cap_sum (segs ?sB) ps" using hi by simp
  note W = adjusted_wf[OF invB ad loB hiB t]
  have run: "bindE (Get_size sA) (\<lambda>end_index.
                bindE (Fill_n end_index n v sA) (\<lambda>s2.
                bindE (Adjust_segments_and_get_last_address_for (n0 + n) s2) (\<lambda>r.
                  ret ((snd r)\<lparr>v_mCurrent := fst r\<rparr>)))) = ret ?s1"
    by (simp add: sz fill adj)
  obtain rest where ps: "ps = 0 # rest" using vec_inv_hd[OF inv] by blast
  then have ne: "ps \<noteq> []" by simp
  have ok: "\<forall>a\<in>set ps. seg_ok (segs sA a)" and d: "distinct ps"
    and bd: "blocks_distinct (segs sA) ps" using inv by (simp_all add: vec_inv_def)
  have ok1: "\<forall>a\<in>set ps. seg_ok (h' a)" using ad by (simp add: adjusted_def)
  have fp1: "full_prefix h' ps" using W(1) by (simp add: wf_vector_def)
  have CS1: "cap_slots h' ps = ?CS" using W(3) by simp
  have us: "used_sum h' ps = n0 + n" using W(2) by simp
  have ls: "logical_slots h' ps = take (n0 + n) ?CS"
    using logical_take[OF ok1 ne fp1] by (simp add: us CS1)
  have dis: "distinct ?CS" by (rule distinct_cap_slots[OF ok d bd])
  have split: "take (n0 + n) ?CS = take n0 ?CS @ take n (drop n0 ?CS)" by (simp add: take_add)
  have disj: "set (take n0 ?CS) \<inter> set (take n (drop n0 ?CS)) = {}"
  proof -
    have "set (take n0 ?CS) \<inter> set (drop n0 ?CS) = {}"
      using dis distinct_append[of "take n0 ?CS" "drop n0 ?CS"] by simp
    moreover have "set (take n (drop n0 ?CS)) \<subseteq> set (drop n0 ?CS)" by (rule set_take_subset)
    ultimately show ?thesis by blast
  qed
  have len: "length (take n (drop n0 ?CS)) = n"
    using hi by (simp add: length_cap_slots[OF ok])
  have m1: "map (cell (mem ?s1)) (take n0 ?CS) = map (cell (mem sA)) (take n0 ?CS)"
    using disj by (intro map_cong) auto
  have m2: "map (cell (mem ?s1)) (take n (drop n0 ?CS)) = replicate n (Some v)"
  proof -
    have "map (cell (mem ?s1)) (take n (drop n0 ?CS)) =
          map (\<lambda>_. Some v) (take n (drop n0 ?CS))" by (intro map_cong) auto
    then show ?thesis using len by (simp add: map_replicate_const)
  qed
  have "contents ?s1 ps = map (cell (mem ?s1)) (take n0 ?CS @ take n (drop n0 ?CS))"
    by (simp add: contents_def ls split)
  then have c: "contents ?s1 ps = map (cell (mem sA)) (take n0 ?CS) @ replicate n (Some v)"
    using m1 m2 by (simp only: map_append)
  from run W(1) us c show ?thesis by (intro exI[of _ ?s1]) simp
qed


lemma counted_append_last:
  "distinct bs \<Longrightarrow> bs \<noteq> [] \<Longrightarrow> counted (Some (last bs)) (bs @ xs) = bs"
  by (induction bs) auto

lemma segment_size_for_ge:
  "m \<le> max_size \<Longrightarrow> m - cap \<le> segment_size_for sz cap m"
  unfolding segment_size_for_def
  by (cases "max_size - cap div 2 < cap") (simp_all add: le_max_iff_disj diff_le_mono)

lemma contents_take:
  assumes "wf_vector s ps"
  shows "contents s ps = map (cell (mem s)) (take (used_sum (segs s) ps) (cap_slots (segs s) ps))"
proof -
  from assms have inv: "vec_inv s ps" and fp: "full_prefix (segs s) ps"
    by (simp_all add: wf_vector_def)
  have ne: "ps \<noteq> []" using vec_inv_hd[OF inv] by auto
  have ok: "\<forall>a\<in>set ps. seg_ok (segs s a)" using inv by (simp add: vec_inv_def)
  show ?thesis by (simp add: contents_def logical_take[OF ok ne fp])
qed

lemma grow_by_wf:
  assumes wp: "wf_push s ps" and le: "used_sum (segs s) ps + n \<le> max_size"
  shows "\<exists>s1 ps1. grow_by sz n v s = ret s1 \<and> wf_vector s1 ps1 \<and>
           contents s1 ps1 = contents s ps @ replicate n (Some v) \<and>
           used_sum (segs s1) ps1 = used_sum (segs s) ps + n \<and>
           (ps1 = ps \<or> ps1 = ps @ [seg_next s])"
proof -
  let ?n0 = "used_sum (segs s) ps"
  let ?cap = "cap_sum (segs s) ps"
  let ?c = "last ps"
  let ?new = "seg_next s"
  let ?CS = "cap_slots (segs s) ps"
  from wp have wfv: "wf_vector s ps" and cur: "v_mCurrent s = Some ?c" by (simp_all add: wf_push_def)
  from wfv have inv: "vec_inv s ps" and fp: "full_prefix (segs s) ps" by (simp_all add: wf_vector_def)
  have ok: "\<forall>a\<in>set ps. seg_ok (segs s a)" and d: "distinct ps"
    and bo: "blocks_ok (mem s) (segs s) ps" and en: "v_mEnd s = Some ?c"
    using inv by (simp_all add: vec_inv_def)
  obtain rest where ps: "ps = 0 # rest" using vec_inv_hd[OF inv] by blast
  have ne: "ps \<noteq> []" using ps by simp
  have cin: "?c \<in> set ps" using ne by simp
  have gs: "Get_size s = ret ?n0" using Get_size_inv[OF inv] wf_vector_size[OF wfv] by simp
  have gc: "Get_capacity s = ret ?cap" by (rule Get_capacity_inv[OF inv])
  have md: "(?n0 + n) mod 18446744073709551616 = ?n0 + n" using le by (simp add: max_size_def)
  have nle: "\<not> max_size < ?n0 + n" using le by simp
  have gb: "grow_by sz n v s =
      bindE (if ?cap < ?n0 + n
             then bindE (Calculate_new_segment_size sz s (?n0 + n)) (\<lambda>k. Append_new_segment k s)
             else ret s) (\<lambda>s1.
      bindE (Get_size s1) (\<lambda>end_index.
      bindE (Fill_n end_index n v s1) (\<lambda>s2.
      bindE (Adjust_segments_and_get_last_address_for (?n0 + n) s2) (\<lambda>r.
        ret ((snd r)\<lparr>v_mCurrent := fst r\<rparr>)))))"
    unfolding grow_by_def using nle by (simp add: gs gc md Let_def)
  have ct: "contents s ps = map (cell (mem s)) (take ?n0 ?CS)" by (rule contents_take[OF wfv])
  have n0cap: "?n0 \<le> ?cap" using full_prefix_sums[OF fp ne] fp by (simp add: full_prefix_def)
  show ?thesis
  proof (cases "?cap < ?n0 + n")
    case False
    then have hi: "?n0 + n \<le> ?cap" by simp
    have lo: "cap_sum (segs s) (butlast ps) \<le> ?n0 + n" using full_prefix_sums(1)[OF fp ne] by simp
    from grow_tail[OF inv gs hi lo, of v] obtain s1 where
      run: "bindE (Get_size s) (\<lambda>end_index.
                bindE (Fill_n end_index n v s) (\<lambda>s2.
                bindE (Adjust_segments_and_get_last_address_for (?n0 + n) s2) (\<lambda>r.
                  ret ((snd r)\<lparr>v_mCurrent := fst r\<rparr>)))) = ret s1"
      and r: "wf_vector s1 ps" "used_sum (segs s1) ps = ?n0 + n"
        "contents s1 ps = map (cell (mem s)) (take ?n0 ?CS) @ replicate n (Some v)" by blast
    have "grow_by sz n v s = ret s1"
      unfolding gb using False run by simp
    with r ct show ?thesis by (intro exI[of _ s1] exI[of _ ps]) simp
  next
    case True
    define k where "k = segment_size_for sz ?cap (?n0 + n)"
    have cs: "Calculate_new_segment_size sz s (?n0 + n) = ret k"
      unfolding k_def by (rule Calculate_new_segment_size_inv[OF inv])
    have kge: "?n0 + n - ?cap \<le> k" unfolding k_def by (rule segment_size_for_ge[OF le])
    show ?thesis
    proof (cases "?c = 0 \<and> mBegin (segs s 0) = None")
      case first: True
      then have c0: "v_mCurrent s = Some 0" and e0: "v_mEnd s = Some 0" and b0: "mBegin (segs s 0) = None"
        using cur en by simp_all
      note A = Append_new_segment_first(1)[OF inv c0 e0 b0]
        Append_new_segment_first(2)[OF inv c0 e0 b0, of k]
        Append_new_segment_first(3)[OF inv c0 e0 b0, of k]
      have ps0: "ps = [0]" by (rule A(1))
      have ok0: "seg_ok (segs s 0)" using ok ps0 by simp
      have n0: "?n0 = 0" using seg_used_null[OF ok0 b0] by (simp add: ps0 used_sum_def)
      have cap0: "?cap = 0" using seg_cap_null[OF ok0 b0] by (simp add: ps0 cap_sum_def)
      let ?sA = "grow_first k s"
      have invA: "vec_inv ?sA [0]" by (rule A(3))
      have gsA: "Get_size ?sA = ret 0"
        using Get_size_inv[OF invA] by (simp add: vsize_def used_sum_def grow_first_def)
      have "n \<le> k" using kge unfolding n0 cap0 by simp
      then have hi: "0 + n \<le> cap_sum (segs ?sA) [0]" by (simp add: cap_sum_def grow_first_def)
      have lo: "cap_sum (segs ?sA) (butlast [0]) \<le> 0 + n" by (simp add: cap_sum_def)
      from grow_tail[OF invA gsA hi lo, of v] obtain s1 where
        run: "bindE (Get_size ?sA) (\<lambda>end_index.
                bindE (Fill_n end_index n v ?sA) (\<lambda>s2.
                bindE (Adjust_segments_and_get_last_address_for (0 + n) s2) (\<lambda>r.
                  ret ((snd r)\<lparr>v_mCurrent := fst r\<rparr>)))) = ret s1"
        and r: "wf_vector s1 [0]" "used_sum (segs s1) [0] = 0 + n"
          "contents s1 [0] = map (cell (mem ?sA)) (take 0 (cap_slots (segs ?sA) [0])) @ replicate n (Some v)"
        by blast
      have g: "grow_by sz n v s = ret s1"
        unfolding gb using True run cs A(2) by (simp add: n0)
      have "contents s ps = []" using ct n0 by simp
      with g r n0 show ?thesis by (intro exI[of _ s1] exI[of _ ps]) (simp add: ps0)
    next
      case nb: False
      note A = Append_new_segment_next(1)[OF inv cur refl nb, of k]
        Append_new_segment_next(2)[OF inv cur refl nb, of k]
      let ?sA = "grow_next k ?c s"
      let ?psA = "ps @ [?new]"
      have invA: "vec_inv ?sA ?psA" by (rule A(2))
      have newnotin: "?new \<notin> set ps" using inv by (auto simp: vec_inv_def)
      then have cnew: "?c \<noteq> ?new" using cin by auto
      have old: "\<forall>a\<in>set ps. mBegin (segs ?sA a) = mBegin (segs s a) \<and> mEnd (segs ?sA a) = mEnd (segs s a)
                \<and> mCurrent (segs ?sA a) = mCurrent (segs s a)"
        using newnotin by (auto simp: grow_next_def)
      have usedA: "used_sum (segs ?sA) ps = ?n0" using old by (intro used_sum_cong) simp
      have capA: "cap_sum (segs ?sA) ps = ?cap" using old by (intro cap_sum_cong) simp
      have CSA: "cap_slots (segs ?sA) ps = ?CS" using old by (intro cap_slots_cong) simp
      have newseg: "segs ?sA ?new = fresh_segment (mem s) k (Some ?c)"
        using cnew by (simp add: grow_next_def)
      have curA: "v_mCurrent ?sA = Some ?c" using cur by (simp add: grow_next_def)
      have vsA: "vsize ?sA ?psA = ?n0"
      proof (cases "rest = []")
        case True
        then have "ps = [0]" using ps by simp
        moreover have "?new \<noteq> 0" using newnotin ps by auto
        ultimately show ?thesis using usedA newseg
          by (simp add: vsize_def curA used_sum_def)
      next
        case False
        then have lr: "?c = last rest" using ps by simp
        have dr: "distinct rest" using d ps by simp
        have cnt: "counted (Some ?c) (rest @ [?new]) = rest"
          unfolding lr by (rule counted_append_last[OF dr False])
        have "hd ?psA = 0" "tl ?psA = rest @ [?new]" by (simp_all add: ps)
        then have "vsize ?sA ?psA = used_sum (segs ?sA) (0 # rest)"
          unfolding vsize_def curA by (simp only: cnt)
        then show ?thesis using usedA unfolding ps by simp
      qed
      have gsA: "Get_size ?sA = ret ?n0" using Get_size_inv[OF invA] vsA by simp
      have hi: "?n0 + n \<le> cap_sum (segs ?sA) ?psA"
        using kge capA newseg by (simp add: cap_sum_def)
      have lo: "cap_sum (segs ?sA) (butlast ?psA) \<le> ?n0 + n" using True capA by simp
      from grow_tail[OF invA gsA hi lo, of v] obtain s1 where
        run: "bindE (Get_size ?sA) (\<lambda>end_index.
                bindE (Fill_n end_index n v ?sA) (\<lambda>s2.
                bindE (Adjust_segments_and_get_last_address_for (?n0 + n) s2) (\<lambda>r.
                  ret ((snd r)\<lparr>v_mCurrent := fst r\<rparr>)))) = ret s1"
        and r: "wf_vector s1 ?psA" "used_sum (segs s1) ?psA = ?n0 + n"
          "contents s1 ?psA = map (cell (mem ?sA)) (take ?n0 (cap_slots (segs ?sA) ?psA)) @ replicate n (Some v)"
        by blast
      have g: "grow_by sz n v s = ret s1"
        unfolding gb using True run cs A(1) by simp
      have len: "?n0 \<le> length ?CS" using n0cap by (simp add: length_cap_slots[OF ok])
      have "take ?n0 (cap_slots (segs ?sA) ?psA) = take ?n0 ?CS"
        using len by (simp add: CSA)
      moreover have "cell (mem ?sA) = cell (mem s)" by (simp add: grow_next_def)
      ultimately have "contents s1 ?psA = contents s ps @ replicate n (Some v)"
        using r(3) ct by simp
      with g r show ?thesis by (intro exI[of _ s1] exI[of _ ?psA]) simp
    qed
  qed
qed


lemma read_at_contents:
  assumes "wf_vector s ps"
  shows "read_at s i =
           (if length (contents s ps) \<le> i then fail out_of_range
            else (case contents s ps ! i of None \<Rightarrow> fail uninitialised | Some x \<Rightarrow> ret x))"
proof -
  from assms have inv: "vec_inv s ps" and fp: "full_prefix (segs s) ps" by (simp_all add: wf_vector_def)
  have ok: "\<forall>a\<in>set ps. seg_ok (segs s a)" using inv by (simp add: vec_inv_def)
  have ne: "ps \<noteq> []" using vec_inv_hd[OF inv] by auto
  let ?LS = "logical_slots (segs s) ps"
  have n: "length ?LS = used_sum (segs s) ps" by (rule length_logical_slots[OF ok])
  have sz: "Get_size s = ret (length ?LS)"
    by (simp add: Get_size_inv[OF inv] wf_vector_size[OF assms] n)
  have len: "length (contents s ps) = length ?LS" by (simp add: contents_def)
  show ?thesis
  proof (cases "length ?LS \<le> i")
    case True
    then show ?thesis by (simp add: read_at_def at_def sz len)
  next
    case False
    then have i: "i < used_sum (segs s) ps" using n by simp
    have sl: "slot_of (segs s) ps i = Some (?LS ! i)" by (rule slot_of_logical[OF ok ne fp i])
    have ib: "in_bounds (mem s) (?LS ! i)" by (rule slot_in_bounds[OF inv sl])
    have a: "at s i = ret (?LS ! i, s)"
      using False sl by (simp add: at_def sz Get_value_at_inv[OF inv])
    have c: "contents s ps ! i = cell (mem s) (?LS ! i)" using False by (simp add: contents_def)
    show ?thesis using False ib
      by (simp add: read_at_def a len c deref_def lift_def ret_def fail_def split: option.splits)
  qed
qed

lemma read_all_contents:
  assumes "wf_vector s ps"
  shows "map (read_at s) [0..<length (contents s ps)] =
         map (\<lambda>c. case c of None \<Rightarrow> fail uninitialised | Some x \<Rightarrow> ret x) (contents s ps)"
  by (rule nth_equalityI) (simp_all add: read_at_contents[OF assms])

text \<open>
  Claim C7 (\<open>grow_by\<close> equivalence).  On a vector whose cursor is at the last segment of
  its chain, with every earlier segment full, and whose size plus \<open>n\<close> does not exceed
  \<open>max_size()\<close>: \<open>grow_by(n, v)\<close> and \<open>n\<close> successive \<open>push_back(v)\<close> calls both return; both
  results have size \<open>size() + n\<close>; \<open>at(i)\<close> gives the same outcome on both for every index
  \<open>i\<close>, namely the old elements followed by \<open>n\<close> copies of \<open>v\<close>; and the segment chain after
  \<open>grow_by\<close> is the old chain, or the old chain with one new segment at its end.
\<close>

theorem grow_by_equivalence:
  assumes "wf_push s ps" and "Get_size s = ret n0" and "n0 + n \<le> max_size"
  shows "\<exists>s1 s2 ps1. grow_by sz n v s = ret s1 \<and>
           push_back_all sz (replicate n v) s = ret s2 \<and>
           Get_size s1 = ret (n0 + n) \<and> Get_size s2 = ret (n0 + n) \<and>
           (\<forall>i. read_at s1 i = read_at s2 i) \<and>
           map (read_at s1) [0..<n0 + n] = map (read_at s) [0..<n0] @ replicate n (ret v) \<and>
           chain (segs s1) (Some 0) ps1 \<and> (ps1 = ps \<or> ps1 = ps @ [seg_next s])"
proof -
  from assms(1) have wfv: "wf_vector s ps" by (simp add: wf_push_def)
  then have inv: "vec_inv s ps" by (simp add: wf_vector_def)
  have ok: "\<forall>a\<in>set ps. seg_ok (segs s a)" using inv by (simp add: vec_inv_def)
  have "Get_size s = ret (used_sum (segs s) ps)"
    using Get_size_inv[OF inv] wf_vector_size[OF wfv] by simp
  with assms(2) have n0: "used_sum (segs s) ps = n0" by (simp add: ret_def)
  have le: "used_sum (segs s) ps + n \<le> max_size" using assms(3) n0 by simp
  from grow_by_wf[OF assms(1) le, of sz v] obtain s1 ps1 where
    g: "grow_by sz n v s = ret s1" and wf1: "wf_vector s1 ps1"
    and c1: "contents s1 ps1 = contents s ps @ replicate n (Some v)"
    and u1: "used_sum (segs s1) ps1 = n0 + n"
    and p1: "ps1 = ps \<or> ps1 = ps @ [seg_next s]" unfolding n0 by blast
  from push_back_all_wf[OF assms(1) le, of sz v] obtain s2 ps2 where
    p: "push_back_all sz (replicate n v) s = ret s2" and wp2: "wf_push s2 ps2"
    and c2: "contents s2 ps2 = contents s ps @ replicate n (Some v)"
    and u2: "used_sum (segs s2) ps2 = n0 + n" unfolding n0 by blast
  from wp2 have wf2: "wf_vector s2 ps2" by (simp add: wf_push_def)
  have inv1: "vec_inv s1 ps1" and inv2: "vec_inv s2 ps2" using wf1 wf2 by (simp_all add: wf_vector_def)
  have sz1: "Get_size s1 = ret (n0 + n)"
    using Get_size_inv[OF inv1] wf_vector_size[OF wf1] u1 by simp
  have sz2: "Get_size s2 = ret (n0 + n)"
    using Get_size_inv[OF inv2] wf_vector_size[OF wf2] u2 by simp
  have rd: "\<forall>i. read_at s1 i = read_at s2 i"
    by (simp add: read_at_contents[OF wf1] read_at_contents[OF wf2] c1 c2)
  have l0: "length (contents s ps) = n0"
    using length_logical_slots[OF ok] n0 by (simp add: contents_def)
  have l1: "length (contents s1 ps1) = n0 + n" using c1 l0 by simp
  have "map (read_at s1) [0..<n0 + n] =
        map (\<lambda>c. case c of None \<Rightarrow> fail uninitialised | Some x \<Rightarrow> ret x) (contents s1 ps1)"
    using read_all_contents[OF wf1] l1 by simp
  also have "\<dots> = map (\<lambda>c. case c of None \<Rightarrow> fail uninitialised | Some x \<Rightarrow> ret x) (contents s ps) @
                   replicate n (ret v)" by (simp add: c1)
  also have "map (\<lambda>c. case c of None \<Rightarrow> fail uninitialised | Some x \<Rightarrow> ret x) (contents s ps) =
             map (read_at s) [0..<n0]" using read_all_contents[OF wfv] l0 by simp
  finally have all: "map (read_at s1) [0..<n0 + n] = map (read_at s) [0..<n0] @ replicate n (ret v)" .
  have ch: "chain (segs s1) (Some 0) ps1" using inv1 by (simp add: vec_inv_def)
  from g p sz1 sz2 rd all ch p1 show ?thesis by blast
qed

lemma vec8_wf_push: "wf_push vec8 [0]"
  using vec8_inv
  by (simp add: wf_push_def wf_vector_def full_prefix_def)
     (simp add: vec8_def seg_used_def seg_cap_def)

theorem grow_by_equivalence_witness:
  "wf_push vec8 [0] \<and> Get_size vec8 = ret 8 \<and> 8 + 2 \<le> max_size \<and>
   (\<exists>s1 s2. grow_by 32 2 99 vec8 = ret s1 \<and> push_back_all 32 [99, 99] vec8 = ret s2 \<and>
      Get_size s1 = ret 10 \<and> Get_size s2 = ret 10 \<and>
      (\<forall>i. read_at s1 i = read_at s2 i) \<and>
      map (read_at s1) [0..<10] =
        [ret 10, ret 11, ret 12, ret 13, ret 14, ret 15, ret 16, ret 17, ret 99, ret 99] \<and>
      (chain (segs s1) (Some 0) [0] \<or> chain (segs s1) (Some 0) [0, 1]))"
proof -
  have sz: "Get_size vec8 = ret 8" by (simp add: vector_eval vec8_def)
  have mx: "8 + 2 \<le> max_size" by (simp add: max_size_def)
  have old: "map (read_at vec8) [0..<8] =
      [ret 10, ret 11, ret 12, ret 13, ret 14, ret 15, ret 16, ret 17]"
    by (simp add: upt_rec read_at_def at_def sz vector_eval deref_def lift_def ret_def vec8_def)
  have sn: "seg_next vec8 = 1" by (simp add: vec8_def)
  have r2: "replicate 2 (99::int) = [99, 99]" by (simp add: numeral_2_eq_2)
  from grow_by_equivalence[OF vec8_wf_push sz mx, of 32 99] obtain s1 s2 ps1 where
    A: "grow_by 32 2 99 vec8 = ret s1" "push_back_all 32 (replicate 2 99) vec8 = ret s2"
      "Get_size s1 = ret (8 + 2)" "Get_size s2 = ret (8 + 2)" "\<forall>i. read_at s1 i = read_at s2 i"
      "map (read_at s1) [0..<8 + 2] = map (read_at vec8) [0..<8] @ replicate 2 (ret 99)"
      "chain (segs s1) (Some 0) ps1" "ps1 = [0] \<or> ps1 = [0] @ [seg_next vec8]" by blast
  have c: "chain (segs s1) (Some 0) [0] \<or> chain (segs s1) (Some 0) [0, 1]"
    using A(7,8) sn by auto
  have m: "map (read_at s1) [0..<10] =
        [ret 10, ret 11, ret 12, ret 13, ret 14, ret 15, ret 16, ret 17, ret 99, ret 99]"
    using A(6) unfolding old by (simp add: numeral_2_eq_2)
  have "Get_size s1 = ret 10" "Get_size s2 = ret 10" using A(3,4) by simp_all
  with A(1,2,5) c m r2 vec8_wf_push sz mx show ?thesis by auto
qed

section \<open>combinable\<close>

text \<open>
  \<open>concurrent::combinable<Type, ThreadCount>\<close>: a table of \<open>Min_size\<close> buckets, each the head
  of a singly linked chain of \<open>Storage\<close> entries, one entry per thread.  Entries live in a
  store indexed by address; an address the allocator has not handed out, or that has been
  deallocated, holds \<open>None\<close>, and reading through it is the error \<open>use_after_free\<close>.  Thread
  identities are numbers, \<open>std::hash<std::thread::id>\<close> is the parameter \<open>hashf\<close>, and
  \<open>value_type {}\<close> is the parameter \<open>dflt\<close>.
\<close>

record 'v Storage =
  mThreadID :: nat
  mValue :: 'v
  nextStorage :: "nat option"

record 'v combinable =
  mBuckets :: "nat option list"
  storage :: "nat \<Rightarrow> 'v Storage option"
  storage_next :: nat

definition Min_size :: "nat \<Rightarrow> nat" where
  "Min_size ThreadCount = (if 8 > ThreadCount div 8 then 8 else ThreadCount div 8)"

definition new_combinable :: "nat \<Rightarrow> 'v combinable" where
  "new_combinable ThreadCount =
     \<lparr>mBuckets = replicate (Min_size ThreadCount) None, storage = (\<lambda>_. None), storage_next = 0\<rparr>"

text \<open>
  \<open>Delete_storage_units_in_bucket_ptr(Storage* bucket)\<close>: the bucket pointer is passed by
  value, so \<open>bucket = nullptr\<close> assigns the parameter only and the table keeps its entry.
\<close>

partial_function (option) Delete_storage_units_loop ::
  "(nat \<Rightarrow> 'v Storage option) \<Rightarrow> nat option \<Rightarrow> (nat \<Rightarrow> 'v Storage option) outcome" where
  "Delete_storage_units_loop st storage_unit =
     (case storage_unit of
        None \<Rightarrow> Some (Inr st)
      | Some delete_unit \<Rightarrow>
          (case st delete_unit of
             None \<Rightarrow> Some (Inl use_after_free)
           | Some u \<Rightarrow> Delete_storage_units_loop (st(delete_unit := None)) (nextStorage u)))"

declare Delete_storage_units_loop.simps [code]

definition Delete_storage_units_in_bucket_ptr ::
  "'v combinable \<Rightarrow> nat option \<Rightarrow> 'v combinable outcome" where
  "Delete_storage_units_in_bucket_ptr c bucket =
     bindE (Delete_storage_units_loop (storage c) bucket) (\<lambda>st. ret (c\<lparr>storage := st\<rparr>))"

fun Finalise_loop :: "nat option list \<Rightarrow> 'v combinable \<Rightarrow> 'v combinable outcome" where
  "Finalise_loop [] c = ret c"
| "Finalise_loop (bucket # buckets) c =
     bindE (Delete_storage_units_in_bucket_ptr c bucket) (Finalise_loop buckets)"

definition Finalise :: "'v combinable \<Rightarrow> 'v combinable outcome" where
  "Finalise c = Finalise_loop (mBuckets c) c"

definition clear :: "'v combinable \<Rightarrow> 'v combinable outcome" where
  "clear c = Finalise c"

text \<open>
  \<open>Get_local_storage_unit\<close>: the body of \<open>while (current_unit)\<close> returns on a match and
  otherwise leaves \<open>current_unit\<close> as it is.
\<close>

partial_function (option) Get_local_storage_unit_loop ::
  "(nat \<Rightarrow> 'v Storage option) \<Rightarrow> nat option \<Rightarrow> nat \<Rightarrow> nat option outcome" where
  "Get_local_storage_unit_loop st current_unit thread_id =
     (case current_unit of
        None \<Rightarrow> Some (Inr None)
      | Some a \<Rightarrow>
          (case st a of
             None \<Rightarrow> Some (Inl use_after_free)
           | Some u \<Rightarrow>
               if mThreadID u = thread_id then Some (Inr (Some a))
               else Get_local_storage_unit_loop st current_unit thread_id))"

declare Get_local_storage_unit_loop.simps [code]

definition Get_local_storage_unit ::
  "nat \<Rightarrow> (nat \<Rightarrow> nat) \<Rightarrow> 'v combinable \<Rightarrow> nat \<Rightarrow> (nat option \<times> nat) outcome" where
  "Get_local_storage_unit ThreadCount hashf c thread_id =
     (let bucket_index = hashf thread_id mod Min_size ThreadCount in
      if bucket_index < length (mBuckets c)
      then bindE (Get_local_storage_unit_loop (storage c) (mBuckets c ! bucket_index) thread_id)
             (\<lambda>storage_unit. ret (storage_unit, bucket_index))
      else fail out_of_bounds)"

definition Add_local_storage_unit ::
  "'v \<Rightarrow> 'v combinable \<Rightarrow> nat \<Rightarrow> nat \<Rightarrow> (nat \<times> 'v combinable) outcome" where
  "Add_local_storage_unit dflt c thread_id bucket_index =
     (if bucket_index < length (mBuckets c)
      then (let bucket = mBuckets c ! bucket_index;
                new_storage = storage_next c
            in ret (new_storage,
                    c\<lparr>storage := (storage c)(new_storage :=
                         Some \<lparr>mThreadID = thread_id, mValue = dflt, nextStorage = bucket\<rparr>),
                      storage_next := new_storage + 1,
                      mBuckets := (mBuckets c)[bucket_index := Some new_storage]\<rparr>))
      else fail out_of_bounds)"

text \<open>
  \<open>local()\<close> and \<open>local(bool &)\<close> return a reference to the \<open>mValue\<close> of an entry: the result
  is the entry's address, for \<open>local(bool &)\<close> paired with the value written to \<open>exists\<close>.
\<close>

definition local_value ::
  "nat \<Rightarrow> (nat \<Rightarrow> nat) \<Rightarrow> 'v \<Rightarrow> 'v combinable \<Rightarrow> nat \<Rightarrow> (nat \<times> 'v combinable) outcome" where
  "local_value ThreadCount hashf dflt c thread_id =
     bindE (Get_local_storage_unit ThreadCount hashf c thread_id) (\<lambda>r.
       case fst r of
         None \<Rightarrow> Add_local_storage_unit dflt c thread_id (snd r)
       | Some storage_unit \<Rightarrow> ret (storage_unit, c))"

definition local_exists ::
  "nat \<Rightarrow> (nat \<Rightarrow> nat) \<Rightarrow> 'v \<Rightarrow> 'v combinable \<Rightarrow> nat \<Rightarrow> ((nat \<times> bool) \<times> 'v combinable) outcome" where
  "local_exists ThreadCount hashf dflt c thread_id =
     bindE (Get_local_storage_unit ThreadCount hashf c thread_id) (\<lambda>r.
       case fst r of
         None \<Rightarrow> bindE (Add_local_storage_unit dflt c thread_id (snd r))
                   (\<lambda>n. ret ((fst n, False), snd n))
       | Some storage_unit \<Rightarrow> ret ((storage_unit, True), c))"

lemma Get_local_storage_unit_loop_diverges:
  assumes "st a = Some u" and "mThreadID u \<noteq> tid"
  shows "Get_local_storage_unit_loop st (Some a) tid = None"
proof (rule ccontr)
  assume "Get_local_storage_unit_loop st (Some a) tid \<noteq> None"
  then obtain y where y: "Get_local_storage_unit_loop st (Some a) tid = Some y" by auto
  have "\<not> (st = st \<and> Some a = Some a \<and> tid = tid)"
    by (rule Get_local_storage_unit_loop.raw_induct
          [where P = "\<lambda>st' cur' tid' y'. \<not> (st' = st \<and> cur' = Some a \<and> tid' = tid)", OF _ y])
       (use assms in \<open>auto split: option.splits if_splits\<close>)
  then show False by simp
qed

lemma Finalise_loop_mBuckets:
  "Finalise_loop bs c = ret c' \<Longrightarrow> mBuckets c' = mBuckets c"
proof (induction bs arbitrary: c)
  case Nil
  then show ?case by (simp add: ret_def)
next
  case (Cons b bs)
  from Cons.prems obtain c1 where d: "Delete_storage_units_in_bucket_ptr c b = ret c1"
    and f: "Finalise_loop bs c1 = ret c'" by (auto simp: bindE_eq_ret)
  from d obtain st where "c1 = c\<lparr>storage := st\<rparr>"
    unfolding Delete_storage_units_in_bucket_ptr_def bindE_eq_ret by (auto simp: ret_def)
  with Cons.IH[OF f] show ?case by simp
qed

lemma clear_mBuckets: "clear c = ret c' \<Longrightarrow> mBuckets c' = mBuckets c"
  unfolding clear_def Finalise_def by (rule Finalise_loop_mBuckets)

text \<open>
  A \<open>combinable<int, 8>\<close> with the identity as hash, after thread 3 has called \<open>local()\<close>
  once: one entry, at address 0, in bucket 3.
\<close>

definition comb1 :: "int combinable" where
  "comb1 =
     \<lparr>mBuckets = [None, None, None, Some 0, None, None, None, None],
      storage = (\<lambda>_. None)(0 := Some \<lparr>mThreadID = 3, mValue = 0, nextStorage = None\<rparr>),
      storage_next = 1\<rparr>"

lemmas combinable_eval = local_value_def local_exists_def Get_local_storage_unit_def Min_size_def
  new_combinable_def Get_local_storage_unit_loop.simps Add_local_storage_unit_def Let_def
  clear_def Finalise_def Delete_storage_units_in_bucket_ptr_def Delete_storage_units_loop.simps

lemma replicate8: "replicate 8 x = [x, x, x, x, x, x, x, x]"
  by (simp add: eval_nat_numeral)

lemma comb1_reachable: "local_value 8 (\<lambda>x. x) 0 (new_combinable 8) 3 = ret (0, comb1)"
  by (simp add: combinable_eval comb1_def replicate8)

text \<open>
  Claim C3 (clear freshness).  The claim fails on the code: \<open>clear()\<close> deallocates the
  entries and leaves the table pointing at them.  After thread 3 has called \<open>local()\<close> and
  then \<open>clear()\<close>, bucket 3 still holds the address of the deallocated entry, and the next
  \<open>local(exists)\<close> of thread 3 reads that deallocated entry instead of creating a fresh one.
\<close>

theorem clear_keeps_table:
  "\<exists>c2. local_value 8 (\<lambda>x. x) 0 (new_combinable 8) 3 = ret (0, comb1) \<and>
        clear comb1 = ret c2 \<and> mBuckets c2 = mBuckets comb1 \<and> mBuckets c2 ! 3 = Some 0 \<and>
        storage c2 0 = None \<and>
        local_exists 8 (\<lambda>x. x) 0 c2 3 = fail use_after_free \<and>
        local_value 8 (\<lambda>x. x) 0 c2 3 = fail use_after_free"
  by (simp add: comb1_reachable) (simp add: combinable_eval comb1_def fail_def)

text \<open>
  Claim C4 (lookup termination).  The claim fails on the code: the scan never advances, so
  it returns only when the bucket is empty or its first entry belongs to the caller.  After
  thread 3 has called \<open>local()\<close>, the lookup of thread 11, which hashes to the same bucket,
  does not return, and so neither does \<open>local()\<close>.
\<close>

theorem scan_does_not_return:
  "local_value 8 (\<lambda>x. x) 0 (new_combinable 8) 3 = ret (0, comb1) \<and>
   Get_local_storage_unit 8 (\<lambda>x. x) comb1 11 = None \<and>
   local_value 8 (\<lambda>x. x) 0 comb1 11 = None \<and>
   local_exists 8 (\<lambda>x. x) 0 comb1 11 = None"
proof -
  have "Get_local_storage_unit_loop (storage comb1) (Some 0) 11 = None"
    by (rule Get_local_storage_unit_loop_diverges[where u = "\<lparr>mThreadID = 3, mValue = 0, nextStorage = None\<rparr>"])
       (simp_all add: comb1_def)
  moreover have "mBuckets comb1 ! (11 mod 8) = Some 0" by (simp add: comb1_def)
  ultimately have g: "Get_local_storage_unit 8 (\<lambda>x. x) comb1 11 = None"
    by (simp add: Get_local_storage_unit_def Min_size_def Let_def comb1_def)
  then have "local_value 8 (\<lambda>x. x) 0 comb1 11 = None" "local_exists 8 (\<lambda>x. x) 0 comb1 11 = None"
    by (simp_all add: local_value_def local_exists_def)
  with g comb1_reachable show ?thesis by simp
qed

section \<open>concurrent_queue\<close>

text \<open>
  A \<open>MiniQueue\<close> object lives at a block address handed out by \<open>mini_queue_allocator\<close>;
  its element pointers point into a block of the element memory.  \<open>queue_next\<close> counts the
  \<open>MiniQueue\<close> objects allocated so far, and the element memory records every element
  block allocated so far: \<open>push\<close> and \<open>try_pop\<close> contain no deallocation.
\<close>

record MiniQueue =
  mElements :: ptr
  mBegin :: ptr
  mUsedBegin :: ptr
  mCurrent :: ptr
  mEnd :: ptr
  mNextQueue :: "nat option"

definition null_mini_queue :: MiniQueue where
  "null_mini_queue =
     \<lparr>mElements = None, mBegin = None, mUsedBegin = None, mCurrent = None, mEnd = None,
      mNextQueue = None\<rparr>"

record 'a concurrent_queue =
  queues :: "nat \<Rightarrow> MiniQueue"
  queue_next :: nat
  qmem :: "'a memory"
  mQueue :: "nat option"
  mQueueCurrent :: "nat option"
  mQueueEnd :: "nat option"

definition new_queue :: "'a concurrent_queue" where
  "new_queue =
     \<lparr>queues = (\<lambda>_. null_mini_queue), queue_next = 0, qmem = empty_memory,
      mQueue = None, mQueueCurrent = None, mQueueEnd = None\<rparr>"

definition empty :: "'a concurrent_queue \<Rightarrow> bool" where
  "empty q =
     (case mQueue q of
        None \<Rightarrow> True
      | Some a \<Rightarrow> mCurrent (queues q a) = mUsedBegin (queues q a))"

text \<open>\<open>unsafe_size\<close>: the sum of \<open>mCurrent - mUsedBegin\<close> over the chain, in \<open>size_type\<close>.\<close>

partial_function (option) unsafe_size_loop ::
  "(nat \<Rightarrow> MiniQueue) \<Rightarrow> nat option \<Rightarrow> nat \<Rightarrow> nat outcome" where
  "unsafe_size_loop h queue acc =
     (case queue of
        None \<Rightarrow> Some (Inr acc)
      | Some a \<Rightarrow>
          (case ptr_diff (mCurrent (h a)) (mUsedBegin (h a)) of
             Inl e \<Rightarrow> Some (Inl e)
           | Inr d \<Rightarrow> unsafe_size_loop h (mNextQueue (h a)) ((acc + d) mod 2 ^ 64)))"

declare unsafe_size_loop.simps [code]

definition unsafe_size :: "'a concurrent_queue \<Rightarrow> nat outcome" where
  "unsafe_size q =
     (case mQueue q of
        None \<Rightarrow> ret 0
      | Some a \<Rightarrow> unsafe_size_loop (queues q) (mQueue q) 0)"

text \<open>
  The static \<open>Calculate_new_capacity(new_size)\<close> of the queue, in \<open>size_type\<close> arithmetic;
  \<open>Min_queue_size\<close> is \<open>Min_segment_size_eval\<close> of the element type.
\<close>

definition Min_queue_size :: "nat \<Rightarrow> nat" where
  "Min_queue_size sizeof_Type = Min_segment_size_eval sizeof_Type"

definition queue_Calculate_new_capacity :: "nat \<Rightarrow> nat \<Rightarrow> nat" where
  "queue_Calculate_new_capacity sizeof_Type new_size =
     (let size_limit = max_size;
          current_capacity = (new_size + 2 ^ 64 - 1) mod 2 ^ 64
      in if current_capacity > size_limit - current_capacity div 2
         then max (Min_queue_size sizeof_Type) size_limit
         else let Size = current_capacity + current_capacity div 2
              in if Size < new_size then max (Min_queue_size sizeof_Type) new_size
                 else max (Min_queue_size sizeof_Type) Size)"

definition Allocate_mini_queue ::
  "nat \<Rightarrow> nat \<Rightarrow> nat \<Rightarrow> 'a concurrent_queue \<Rightarrow> nat \<times> 'a concurrent_queue" where
  "Allocate_mini_queue sizeof_Type requested_new_size current_size q =
     (let new_capacity = queue_Calculate_new_capacity sizeof_Type requested_new_size;
          new_size = max (Min_queue_size sizeof_Type)
                       ((new_capacity + 2 ^ 64 - current_size) mod 2 ^ 64);
          queue = queue_next q;
          elements = fst (allocate (qmem q) new_size)
      in (queue,
          q\<lparr>qmem := snd (allocate (qmem q) new_size),
            queue_next := queue + 1,
            queues := (queues q)(queue :=
              \<lparr>mElements = Some (elements, 0), mBegin = Some (elements, 0),
               mUsedBegin = Some (elements, 0), mCurrent = Some (elements, 0),
               mEnd = Some (elements, new_size), mNextQueue = None\<rparr>)\<rparr>))"

definition Emplace_back_mini_queue ::
  "nat \<Rightarrow> 'a concurrent_queue \<Rightarrow> 'a concurrent_queue outcome" where
  "Emplace_back_mini_queue queue q =
     (case mQueue q of
        None \<Rightarrow> ret (q\<lparr>mQueue := Some queue, mQueueCurrent := Some queue, mQueueEnd := Some queue\<rparr>)
      | Some _ \<Rightarrow>
          (case mQueueEnd q of
             None \<Rightarrow> fail null_dereference
           | Some e \<Rightarrow>
               let h1 = (queues q)(e := (queues q e)\<lparr>mNextQueue := Some queue\<rparr>) in
               (case mQueueCurrent q of
                  None \<Rightarrow> fail null_dereference
                | Some c \<Rightarrow>
                    ret (q\<lparr>queues := h1, mQueueEnd := Some queue,
                           mQueueCurrent := (if mCurrent (h1 c) = mEnd (h1 c)
                                             then mNextQueue (h1 c) else Some c)\<rparr>))))"

definition secure_block :: "nat \<Rightarrow> 'a concurrent_queue \<Rightarrow> 'a concurrent_queue outcome" where
  "secure_block sizeof_Type q =
     (if mQueueEnd q = mQueueCurrent q
      then (case mQueue q of
              None \<Rightarrow>
                Emplace_back_mini_queue (fst (Allocate_mini_queue sizeof_Type 1 0 q))
                  (snd (Allocate_mini_queue sizeof_Type 1 0 q))
            | Some _ \<Rightarrow>
                (case mQueueCurrent q of
                   None \<Rightarrow> fail null_dereference
                 | Some c \<Rightarrow>
                     if mCurrent (queues q c) = mEnd (queues q c)
                     then bindE (unsafe_size q) (\<lambda>size.
                            Emplace_back_mini_queue
                              (fst (Allocate_mini_queue sizeof_Type ((size + 1) mod 2 ^ 64) size q))
                              (snd (Allocate_mini_queue sizeof_Type ((size + 1) mod 2 ^ 64) size q)))
                     else ret q))
      else ret q)"

definition construct_and_step :: "'a \<Rightarrow> 'a concurrent_queue \<Rightarrow> 'a concurrent_queue outcome" where
  "construct_and_step v q =
     (case mQueueCurrent q of
        None \<Rightarrow> fail null_dereference
      | Some c \<Rightarrow>
          bindE (lift (construct (qmem q) (mCurrent (queues q c)) v)) (\<lambda>m.
          bindE (lift (ptr_add (mCurrent (queues q c)) 1)) (\<lambda>p.
            let h2 = (queues q)(c := (queues q c)\<lparr>mCurrent := p\<rparr>) in
            if mCurrent (h2 c) = mEnd (h2 c) \<and> Some c \<noteq> mQueueEnd q
            then (case mNextQueue (h2 c) of
                    None \<Rightarrow> fail null_dereference
                  | Some nx \<Rightarrow>
                      ret (q\<lparr>qmem := m,
                             queues := h2(c := (h2 c)\<lparr>mCurrent := mBegin (h2 nx)\<rparr>),
                             mQueueCurrent := Some nx\<rparr>))
            else ret (q\<lparr>qmem := m, queues := h2\<rparr>))))"

text \<open>
  \<open>Internal_push\<close>: first the block for the new element is secured (\<open>secure_block\<close>, the
  \<open>if (mQueueEnd == mQueueCurrent)\<close> statement), then the element is constructed at the
  write cursor and the cursor moves on (\<open>construct_and_step\<close>, the rest of the body).
\<close>

definition Internal_push :: "nat \<Rightarrow> 'a \<Rightarrow> 'a concurrent_queue \<Rightarrow> 'a concurrent_queue outcome" where
  "Internal_push sizeof_Type v q = bindE (secure_block sizeof_Type q) (construct_and_step v)"

definition push :: "nat \<Rightarrow> 'a \<Rightarrow> 'a concurrent_queue \<Rightarrow> 'a concurrent_queue outcome" where
  "push sizeof_Type v q = Internal_push sizeof_Type v q"

definition Internal_Pop :: "'a concurrent_queue \<Rightarrow> ((bool \<times> 'a) \<times> 'a concurrent_queue) outcome" where
  "Internal_Pop q =
     (case mQueue q of
        None \<Rightarrow> fail null_dereference
      | Some a \<Rightarrow>
          bindE (lift (deref (qmem q) (mUsedBegin (queues q a)))) (\<lambda>dest.
          bindE (lift (destroy (qmem q) (mUsedBegin (queues q a)))) (\<lambda>m.
          bindE (lift (ptr_add (mUsedBegin (queues q a)) 1)) (\<lambda>p.
            let h1 = (queues q)(a := (queues q a)\<lparr>mUsedBegin := p\<rparr>) in
            if mUsedBegin (h1 a) = mEnd (h1 a)
            then
              let h2 = h1(a := (h1 a)\<lparr>mUsedBegin := mBegin (h1 a), mCurrent := mBegin (h1 a)\<rparr>) in
              if Some a \<noteq> mQueueEnd q
              then (case mQueueEnd q of
                      None \<Rightarrow> fail null_dereference
                    | Some e \<Rightarrow>
                        let h3 = h2(e := (h2 e)\<lparr>mNextQueue := Some a\<rparr>) in
                        ret ((True, dest),
                             q\<lparr>qmem := m,
                               queues := h3(a := (h3 a)\<lparr>mNextQueue := None\<rparr>),
                               mQueueEnd := Some a,
                               mQueue := mNextQueue (h3 a)\<rparr>))
              else ret ((True, dest), q\<lparr>qmem := m, queues := h2\<rparr>)
            else ret ((True, dest), q\<lparr>qmem := m, queues := h1\<rparr>)))))"

text \<open>
  \<open>try_pop(dest)\<close>: the result pairs the returned flag with the value left in \<open>dest\<close>,
  which is \<open>Type {}\<close> (the parameter \<open>dflt\<close>) when the queue is empty.
\<close>

definition try_pop :: "'a \<Rightarrow> 'a concurrent_queue \<Rightarrow> ((bool \<times> 'a) \<times> 'a concurrent_queue) outcome" where
  "try_pop dflt q =
     (case mQueue q of
        None \<Rightarrow> ret ((False, dflt), q)
      | Some a \<Rightarrow>
          if mCurrent (queues q a) = mUsedBegin (queues q a) then ret ((False, dflt), q)
          else Internal_Pop q)"

fun push_each :: "nat \<Rightarrow> 'a list \<Rightarrow> 'a concurrent_queue \<Rightarrow> 'a concurrent_queue outcome" where
  "push_each sizeof_Type [] q = ret q"
| "push_each sizeof_Type (v # vs) q = bindE (push sizeof_Type v q) (push_each sizeof_Type vs)"

fun try_pop_n :: "'a \<Rightarrow> nat \<Rightarrow> 'a concurrent_queue \<Rightarrow> ((bool \<times> 'a) list \<times> 'a concurrent_queue) outcome" where
  "try_pop_n dflt 0 q = ret ([], q)"
| "try_pop_n dflt (Suc n) q =
     bindE (try_pop dflt q) (\<lambda>r.
     bindE (try_pop_n dflt n (snd r)) (\<lambda>rs. ret (fst r # fst rs, snd rs)))"

subsection \<open>The chain of blocks and the elements it holds\<close>

fun qchain :: "(nat \<Rightarrow> MiniQueue) \<Rightarrow> nat option \<Rightarrow> nat list \<Rightarrow> bool" where
  "qchain h p [] = (p = None)"
| "qchain h p (a # as) = (p = Some a \<and> qchain h (mNextQueue (h a)) as)"

definition q_blk :: "MiniQueue \<Rightarrow> nat" where
  "q_blk mq = (case mBegin mq of None \<Rightarrow> 0 | Some b \<Rightarrow> fst b)"

definition q_used :: "MiniQueue \<Rightarrow> nat" where
  "q_used mq = (case mUsedBegin mq of None \<Rightarrow> 0 | Some p \<Rightarrow> snd p)"

definition q_cur :: "MiniQueue \<Rightarrow> nat" where
  "q_cur mq = (case mCurrent mq of None \<Rightarrow> 0 | Some p \<Rightarrow> snd p)"

definition q_cap :: "MiniQueue \<Rightarrow> nat" where
  "q_cap mq = (case mEnd mq of None \<Rightarrow> 0 | Some p \<Rightarrow> snd p)"

text \<open>
  A block whose four element pointers point into one element block of its own size, in
  the order \<open>mBegin \<le> mUsedBegin \<le> mCurrent \<le> mEnd\<close>.
\<close>

definition blk_ok :: "'a memory \<Rightarrow> MiniQueue \<Rightarrow> bool" where
  "blk_ok m mq =
     (mBegin mq = Some (q_blk mq, 0) \<and> mUsedBegin mq = Some (q_blk mq, q_used mq) \<and>
      mCurrent mq = Some (q_blk mq, q_cur mq) \<and> mEnd mq = Some (q_blk mq, q_cap mq) \<and>
      q_used mq \<le> q_cur mq \<and> q_cur mq \<le> q_cap mq \<and> 0 < q_cap mq \<and>
      q_blk mq < length (bsize m) \<and> bsize m ! q_blk mq = q_cap mq)"

definition live_slots :: "MiniQueue \<Rightarrow> (nat \<times> nat) list" where
  "live_slots mq = map (\<lambda>j. (q_blk mq, j)) [q_used mq..<q_cur mq]"

definition qcontents :: "'a concurrent_queue \<Rightarrow> nat list \<Rightarrow> 'a option list" where
  "qcontents q bs = concat (map (\<lambda>a. map (cell (qmem q)) (live_slots (queues q a))) bs)"

text \<open>
  The order in which \<open>try_pop\<close> finds the elements: a block is followed by empty blocks
  only, or it is filled up to its end, not yet drained, and the rest is in order.
\<close>

fun in_order :: "(nat \<Rightarrow> MiniQueue) \<Rightarrow> nat list \<Rightarrow> bool" where
  "in_order h [] = True"
| "in_order h (a # as) =
     ((\<forall>x\<in>set as. q_used (h x) = q_cur (h x)) \<or>
      (q_cur (h a) = q_cap (h a) \<and> q_used (h a) < q_cap (h a) \<and> in_order h as))"

definition pop_inv :: "'a concurrent_queue \<Rightarrow> nat list \<Rightarrow> bool" where
  "pop_inv q bs =
     (qchain (queues q) (mQueue q) bs \<and> distinct bs \<and>
      (bs \<noteq> [] \<longrightarrow> mQueueEnd q = Some (last bs)) \<and>
      (\<forall>a\<in>set bs. blk_ok (qmem q) (queues q a)) \<and>
      distinct (map (\<lambda>a. q_blk (queues q a)) bs) \<and>
      in_order (queues q) bs)"

lemma qchain_cong:
  "\<forall>a\<in>set bs. mNextQueue (h' a) = mNextQueue (h a) \<Longrightarrow> qchain h' p bs = qchain h p bs"
  by (induction bs arbitrary: p) auto

lemma qchain_last_None: "qchain h p bs \<Longrightarrow> bs \<noteq> [] \<Longrightarrow> mNextQueue (h (last bs)) = None"
  by (induction bs arbitrary: p) (auto split: if_splits)

lemma in_order_cong:
  "\<forall>a\<in>set bs. q_used (h' a) = q_used (h a) \<and> q_cur (h' a) = q_cur (h a) \<and> q_cap (h' a) = q_cap (h a)
   \<Longrightarrow> in_order h' bs = in_order h bs"
  by (induction bs) auto

lemma in_order_all_empty: "\<forall>x\<in>set bs. q_used (h x) = q_cur (h x) \<Longrightarrow> in_order h bs"
  by (induction bs) auto

lemma in_order_snoc_empty:
  "in_order h bs \<Longrightarrow> q_used (h a) = q_cur (h a) \<Longrightarrow> in_order h (bs @ [a])"
  by (induction bs) auto

lemma unsafe_size_loop_step:
  "blk_ok m (h a) \<Longrightarrow>
   unsafe_size_loop h (Some a) acc =
     unsafe_size_loop h (mNextQueue (h a)) ((acc + (q_cur (h a) - q_used (h a))) mod 2 ^ 64)"
  by (subst unsafe_size_loop.simps) (simp add: blk_ok_def ptr_diff_def)

lemma unsafe_size_loop_returns:
  "qchain h p bs \<Longrightarrow> \<forall>a\<in>set bs. blk_ok m (h a) \<Longrightarrow> \<exists>n. unsafe_size_loop h p acc = ret n"
proof (induction bs arbitrary: p acc)
  case Nil
  then show ?case by (simp add: unsafe_size_loop.simps ret_def)
next
  case (Cons a bs)
  then have p: "p = Some a" and ok: "blk_ok m (h a)" and ch: "qchain h (mNextQueue (h a)) bs" by simp_all
  from Cons.IH[OF ch] Cons.prems(2) show ?case
    unfolding p using unsafe_size_loop_step[of m h a, OF ok] by simp
qed


lemma blk_ok_fields:
  assumes "blk_ok m mq"
  obtains b u k c where "mBegin mq = Some (b, 0)" "mUsedBegin mq = Some (b, u)"
    "mCurrent mq = Some (b, k)" "mEnd mq = Some (b, c)" "u \<le> k" "k \<le> c" "0 < c"
    "b < length (bsize m)" "bsize m ! b = c"
    "q_blk mq = b" "q_used mq = u" "q_cur mq = k" "q_cap mq = c"
  using assms unfolding blk_ok_def by blast

lemma blk_okI:
  "mBegin mq = Some (b, 0) \<Longrightarrow> mUsedBegin mq = Some (b, u) \<Longrightarrow> mCurrent mq = Some (b, k) \<Longrightarrow>
   mEnd mq = Some (b, c) \<Longrightarrow> u \<le> k \<Longrightarrow> k \<le> c \<Longrightarrow> 0 < c \<Longrightarrow> b < length (bsize m) \<Longrightarrow>
   bsize m ! b = c \<Longrightarrow> blk_ok m mq"
  by (simp add: blk_ok_def q_blk_def q_used_def q_cur_def q_cap_def)

lemma blk_ok_cong:
  "mBegin mq' = mBegin mq \<Longrightarrow> mUsedBegin mq' = mUsedBegin mq \<Longrightarrow> mCurrent mq' = mCurrent mq \<Longrightarrow>
   mEnd mq' = mEnd mq \<Longrightarrow> bsize m' = bsize m \<Longrightarrow> blk_ok m' mq' = blk_ok m mq"
  by (simp add: blk_ok_def q_blk_def q_used_def q_cur_def q_cap_def)

lemma live_slots_cong:
  "mBegin mq' = mBegin mq \<Longrightarrow> mUsedBegin mq' = mUsedBegin mq \<Longrightarrow> mCurrent mq' = mCurrent mq \<Longrightarrow>
   live_slots mq' = live_slots mq"
  by (simp add: live_slots_def q_blk_def q_used_def q_cur_def)

lemma cells_other_block:
  "q_blk mq \<noteq> b \<Longrightarrow>
   map ((cell m)((b, j) := w)) (live_slots mq) = map (cell m) (live_slots mq)"
  by (simp add: live_slots_def)

lemma qchain_link_last:
  "qchain h p bs \<Longrightarrow> bs \<noteq> [] \<Longrightarrow> distinct bs \<Longrightarrow> a \<notin> set bs \<Longrightarrow>
   \<forall>x\<in>set (butlast bs). mNextQueue (h' x) = mNextQueue (h x) \<Longrightarrow>
   mNextQueue (h' (last bs)) = Some a \<Longrightarrow> mNextQueue (h' a) = None \<Longrightarrow>
   qchain h' p (bs @ [a])"
proof (induction bs arbitrary: p)
  case Nil
  then show ?case by simp
next
  case (Cons x xs)
  show ?case
  proof (cases "xs = []")
    case True
    with Cons.prems show ?thesis by simp
  next
    case False
    with Cons.prems have "qchain h' (mNextQueue (h x)) (xs @ [a])"
      by (intro Cons.IH) auto
    moreover have "mNextQueue (h' x) = mNextQueue (h x)" using Cons.prems(5) False by simp
    ultimately show ?thesis using Cons.prems(1) by simp
  qed
qed

lemma q_blk_cong: "mBegin mq' = mBegin mq \<Longrightarrow> q_blk mq' = q_blk mq"
  by (simp add: q_blk_def)

lemma qcontents_Cons:
  "qcontents q (a # as) = map (cell (qmem q)) (live_slots (queues q a)) @ qcontents q as"
  by (simp add: qcontents_def)

lemma qcontents_append:
  "qcontents q (as @ bs) = qcontents q as @ qcontents q bs"
  by (simp add: qcontents_def)

lemma qcontents_cong:
  "\<forall>a\<in>set bs. map (cell (qmem q')) (live_slots (queues q' a)) =
                map (cell (qmem q)) (live_slots (queues q a)) \<Longrightarrow>
   qcontents q' bs = qcontents q bs"
  by (induction bs) (simp_all add: qcontents_def)

lemma pop_inv_head:
  assumes "pop_inv q (a # as)"
  shows "mQueue q = Some a" and "blk_ok (qmem q) (queues q a)" and "a \<notin> set as"
    and "\<forall>x\<in>set as. q_blk (queues q x) \<noteq> q_blk (queues q a)"
proof -
  from assms show "mQueue q = Some a" "blk_ok (qmem q) (queues q a)" "a \<notin> set as"
    by (simp_all add: pop_inv_def)
  from assms have "q_blk (queues q a) \<notin> (\<lambda>x. q_blk (queues q x)) ` set as"
    by (simp add: pop_inv_def)
  then show "\<forall>x\<in>set as. q_blk (queues q x) \<noteq> q_blk (queues q a)"
    by (intro ballI notI) (metis image_eqI)
qed

lemma pop_inv_blk_ok: "pop_inv q bs \<Longrightarrow> x \<in> set bs \<Longrightarrow> blk_ok (qmem q) (queues q x)"
  by (simp add: pop_inv_def)

text \<open>A successful \<open>try_pop\<close> that stays inside the head block.\<close>

lemma try_pop_inside:
  assumes inv: "pop_inv q (a # as)" and ne: "q_used (queues q a) < q_cur (queues q a)"
    and v: "cell (qmem q) (q_blk (queues q a), q_used (queues q a)) = Some v"
    and ns: "q_used (queues q a) + 1 \<noteq> q_cap (queues q a)"
  shows "\<exists>q'. try_pop dflt q = ret ((True, v), q') \<and> pop_inv q' (a # as) \<and>
              qcontents q' (a # as) = tl (qcontents q (a # as)) \<and>
              queue_next q' = queue_next q \<and> bsize (qmem q') = bsize (qmem q)"
proof -
  note H = pop_inv_head[OF inv]
  from H(2) obtain b u k c where F: "mBegin (queues q a) = Some (b, 0)"
    "mUsedBegin (queues q a) = Some (b, u)" "mCurrent (queues q a) = Some (b, k)"
    "mEnd (queues q a) = Some (b, c)" "u \<le> k" "k \<le> c" "0 < c"
    "b < length (bsize (qmem q))" "bsize (qmem q) ! b = c"
    and G: "q_blk (queues q a) = b" "q_used (queues q a) = u" "q_cur (queues q a) = k"
    "q_cap (queues q a) = c" by (rule blk_ok_fields)
  have uk: "u < k" using ne G by simp
  have uc: "u + 1 \<noteq> c" using ns G by simp
  define m' where "m' = (qmem q)\<lparr>cell := (cell (qmem q))((b, u) := None)\<rparr>"
  define h' where "h' = (queues q)(a := (queues q a)\<lparr>mUsedBegin := Some (b, u + 1)\<rparr>)"
  define q' where "q' = q\<lparr>qmem := m', queues := h'\<rparr>"
  have cv: "cell (qmem q) (b, u) = Some v" using v G by simp
  have tp: "try_pop dflt q = ret ((True, v), q')"
    using uk uc F cv
    by (simp add: try_pop_def Internal_Pop_def H(1) Let_def lift_def deref_def destroy_def
        ptr_add_def in_bounds_def ret_def q'_def m'_def h'_def)
  have same: "\<And>x. x \<noteq> a \<Longrightarrow> h' x = queues q x" by (simp add: h'_def)
  have ha: "h' a = (queues q a)\<lparr>mUsedBegin := Some (b, u + 1)\<rparr>" by (simp add: h'_def)
  have nxt: "\<And>x. mNextQueue (h' x) = mNextQueue (queues q x)" by (simp add: h'_def)
  have beg: "\<And>x. mBegin (h' x) = mBegin (queues q x)" by (simp add: h'_def)
  have blk: "\<And>x. q_blk (h' x) = q_blk (queues q x)" by (rule q_blk_cong) (rule beg)
  have oka: "blk_ok m' (h' a)"
    using F uk by (intro blk_okI[where b = b and u = "u + 1" and k = k and c = c]) (simp_all add: ha m'_def) 
  have ch: "qchain h' (mQueue q) (a # as)"
    using inv qchain_cong[of "a # as" h' "queues q" "mQueue q"] nxt by (simp add: pop_inv_def)
  have oks: "\<forall>x\<in>set (a # as). blk_ok m' (h' x)"
  proof
    fix x assume x: "x \<in> set (a # as)"
    show "blk_ok m' (h' x)"
    proof (cases "x = a")
      case True
      then show ?thesis using oka by simp
    next
      case False
      have "blk_ok (qmem q) (queues q x)" by (rule pop_inv_blk_ok[OF inv x])
      then show ?thesis using same[OF False] by (simp add: blk_ok_def m'_def)
    qed
  qed
  have db: "distinct (map (\<lambda>x. q_blk (h' x)) (a # as))"
    using inv unfolding pop_inv_def blk by simp
  have ua: "q_used (h' a) = u + 1" "q_cur (h' a) = k" "q_cap (h' a) = c"
    using F by (simp_all add: ha q_used_def q_cur_def q_cap_def)
  have io: "in_order h' (a # as)"
  proof -
    have sa: "\<forall>x\<in>set as. h' x = queues q x" using H(3) by (auto simp: h'_def)
    have as_same: "in_order h' as = in_order (queues q) as"
      by (intro in_order_cong) (simp add: sa)
    have e_same: "(\<forall>x\<in>set as. q_used (h' x) = q_cur (h' x)) =
                  (\<forall>x\<in>set as. q_used (queues q x) = q_cur (queues q x))"
      using sa by simp
    have "in_order (queues q) (a # as)" using inv by (simp add: pop_inv_def)
    then show ?thesis using as_same e_same ua G uk uc F(6) by auto
  qed
  have pi: "pop_inv q' (a # as)"
    using inv ch oks db io unfolding pop_inv_def by (simp add: q'_def)
  have la: "live_slots (queues q a) = (b, u) # live_slots (h' a)"
    using uk by (simp add: live_slots_def G ua blk upt_conv_Cons)
  have ca: "map (cell m') (live_slots (h' a)) = map (cell (qmem q)) (live_slots (h' a))"
    by (simp add: live_slots_def ua m'_def)
  have rest: "qcontents q' as = qcontents q as"
  proof (rule qcontents_cong, rule ballI)
    fix x assume x: "x \<in> set as"
    then have xa: "x \<noteq> a" using H(3) by auto
    have "q_blk (queues q x) \<noteq> b" using H(4) x G by simp
    then show "map (cell (qmem q')) (live_slots (queues q' x)) =
               map (cell (qmem q)) (live_slots (queues q x))"
      using same[OF xa] by (simp add: q'_def m'_def cells_other_block)
  qed
  have "qcontents q' (a # as) = tl (qcontents q (a # as))"
    using rest ca by (simp add: qcontents_Cons la) (simp add: q'_def)
  with tp pi show ?thesis by (intro exI[of _ q']) (simp add: q'_def m'_def)
qed


text \<open>A successful \<open>try_pop\<close> that takes the last slot of the only block.\<close>

lemma try_pop_reset:
  assumes inv: "pop_inv q [a]" and ne: "q_used (queues q a) < q_cur (queues q a)"
    and v: "cell (qmem q) (q_blk (queues q a), q_used (queues q a)) = Some v"
    and ns: "q_used (queues q a) + 1 = q_cap (queues q a)"
  shows "\<exists>q'. try_pop dflt q = ret ((True, v), q') \<and> pop_inv q' [a] \<and>
              qcontents q' [a] = tl (qcontents q [a]) \<and>
              queue_next q' = queue_next q \<and> bsize (qmem q') = bsize (qmem q)"
proof -
  note H = pop_inv_head[OF inv]
  from H(2) obtain b u k c where F: "mBegin (queues q a) = Some (b, 0)"
    "mUsedBegin (queues q a) = Some (b, u)" "mCurrent (queues q a) = Some (b, k)"
    "mEnd (queues q a) = Some (b, c)" "u \<le> k" "k \<le> c" "0 < c"
    "b < length (bsize (qmem q))" "bsize (qmem q) ! b = c"
    and G: "q_blk (queues q a) = b" "q_used (queues q a) = u" "q_cur (queues q a) = k"
    "q_cap (queues q a) = c" by (rule blk_ok_fields)
  have uk: "u < k" using ne G by simp
  have uc: "u + 1 = c" using ns G by simp
  have kc: "k = c" using uk uc F(6) by simp
  have en: "mQueueEnd q = Some a" using inv by (simp add: pop_inv_def)
  define m' where "m' = (qmem q)\<lparr>cell := (cell (qmem q))((b, u) := None)\<rparr>"
  define h' where "h' = (queues q)(a := (queues q a)\<lparr>mUsedBegin := Some (b, 0), mCurrent := Some (b, 0)\<rparr>)"
  define q' where "q' = q\<lparr>qmem := m', queues := h'\<rparr>"
  have cv: "cell (qmem q) (b, u) = Some v" using v G by simp
  have tp: "try_pop dflt q = ret ((True, v), q')"
    using uk uc F cv en
    by (simp add: try_pop_def Internal_Pop_def H(1) Let_def lift_def deref_def destroy_def
        ptr_add_def in_bounds_def ret_def q'_def m'_def h'_def)
  have ha: "h' a = (queues q a)\<lparr>mUsedBegin := Some (b, 0), mCurrent := Some (b, 0)\<rparr>"
    by (simp add: h'_def)
  have oka: "blk_ok m' (h' a)"
    using F by (intro blk_okI[where b = b and u = 0 and k = 0 and c = c]) (simp_all add: ha m'_def)
  have nx: "mNextQueue (h' a) = mNextQueue (queues q a)" by (simp add: ha)
  have pi: "pop_inv q' [a]"
    using inv oka nx unfolding pop_inv_def by (simp add: q'_def)
  have "live_slots (h' a) = []" using F by (simp add: live_slots_def ha q_used_def q_cur_def)
  moreover have "live_slots (queues q a) = [(b, u)]"
    using uc kc by (simp add: live_slots_def G upt_conv_Cons)
  ultimately have "qcontents q' [a] = tl (qcontents q [a])"
    by (simp add: qcontents_def q'_def)
  with tp pi show ?thesis by (intro exI[of _ q']) (simp add: q'_def m'_def)
qed

text \<open>
  A successful \<open>try_pop\<close> that takes the last slot of a head block that is not the tail:
  the block moves to the end of the chain.
\<close>

lemma try_pop_rotate:
  assumes inv: "pop_inv q (a # as)" and ne: "q_used (queues q a) < q_cur (queues q a)"
    and v: "cell (qmem q) (q_blk (queues q a), q_used (queues q a)) = Some v"
    and ns: "q_used (queues q a) + 1 = q_cap (queues q a)" and as: "as \<noteq> []"
  shows "\<exists>q'. try_pop dflt q = ret ((True, v), q') \<and> pop_inv q' (as @ [a]) \<and>
              qcontents q' (as @ [a]) = tl (qcontents q (a # as)) \<and>
              queue_next q' = queue_next q \<and> bsize (qmem q') = bsize (qmem q) \<and>
              q_used (queues q' a) = 0 \<and> q_cur (queues q' a) = 0"
proof -
  note H = pop_inv_head[OF inv]
  from H(2) obtain b u k c where F: "mBegin (queues q a) = Some (b, 0)"
    "mUsedBegin (queues q a) = Some (b, u)" "mCurrent (queues q a) = Some (b, k)"
    "mEnd (queues q a) = Some (b, c)" "u \<le> k" "k \<le> c" "0 < c"
    "b < length (bsize (qmem q))" "bsize (qmem q) ! b = c"
    and G: "q_blk (queues q a) = b" "q_used (queues q a) = u" "q_cur (queues q a) = k"
    "q_cap (queues q a) = c" by (rule blk_ok_fields)
  have uk: "u < k" using ne G by simp
  have uc: "u + 1 = c" using ns G by simp
  have kc: "k = c" using uk uc F(6) by simp
  define e where "e = last as"
  have en: "mQueueEnd q = Some e" using inv as by (simp add: pop_inv_def e_def)
  have ein: "e \<in> set as" using as by (simp add: e_def)
  have ea: "e \<noteq> a" using ein H(3) by auto
  have ch: "qchain (queues q) (mNextQueue (queues q a)) as" using inv by (simp add: pop_inv_def)
  have d: "distinct as" using inv by (simp add: pop_inv_def)
  define m' where "m' = (qmem q)\<lparr>cell := (cell (qmem q))((b, u) := None)\<rparr>"
  define h' where "h' = (queues q)
      (e := (queues q e)\<lparr>mNextQueue := Some a\<rparr>,
       a := (queues q a)\<lparr>mUsedBegin := Some (b, 0), mCurrent := Some (b, 0), mNextQueue := None\<rparr>)"
  define q' where "q' = q\<lparr>qmem := m', queues := h', mQueueEnd := Some a,
                           mQueue := mNextQueue (queues q a)\<rparr>"
  have cv: "cell (qmem q) (b, u) = Some v" using v G by simp
  have tp0: "try_pop dflt q = ret ((True, v),
      q\<lparr>qmem := m',
        queues := (queues q)
          (a := (queues q a)\<lparr>mUsedBegin := Some (b, 0), mCurrent := Some (b, 0)\<rparr>,
           e := (queues q e)\<lparr>mNextQueue := Some a\<rparr>,
           a := (queues q a)\<lparr>mUsedBegin := Some (b, 0), mCurrent := Some (b, 0), mNextQueue := None\<rparr>),
        mQueueEnd := Some a, mQueue := mNextQueue (queues q a)\<rparr>)"
    using uk uc F cv en ea
    by (simp add: try_pop_def Internal_Pop_def H(1) Let_def lift_def deref_def destroy_def
        ptr_add_def in_bounds_def ret_def m'_def)
  have heq: "(queues q)
          (a := (queues q a)\<lparr>mUsedBegin := Some (b, 0), mCurrent := Some (b, 0)\<rparr>,
           e := (queues q e)\<lparr>mNextQueue := Some a\<rparr>,
           a := (queues q a)\<lparr>mUsedBegin := Some (b, 0), mCurrent := Some (b, 0), mNextQueue := None\<rparr>) = h'"
    using ea by (auto simp: h'_def fun_eq_iff)
  have tp: "try_pop dflt q = ret ((True, v), q')" unfolding tp0 heq q'_def by simp
  have ha: "h' a = (queues q a)\<lparr>mUsedBegin := Some (b, 0), mCurrent := Some (b, 0), mNextQueue := None\<rparr>"
    by (simp add: h'_def)
  have he: "h' e = (queues q e)\<lparr>mNextQueue := Some a\<rparr>" using ea by (simp add: h'_def)
  have same: "\<And>x. x \<noteq> a \<Longrightarrow> x \<noteq> e \<Longrightarrow> h' x = queues q x" by (simp add: h'_def)
  have ptrs: "\<And>x. x \<noteq> a \<Longrightarrow> mBegin (h' x) = mBegin (queues q x) \<and>
      mUsedBegin (h' x) = mUsedBegin (queues q x) \<and> mCurrent (h' x) = mCurrent (queues q x) \<and>
      mEnd (h' x) = mEnd (queues q x)"
    by (simp add: h'_def)
  have beg: "\<And>x. mBegin (h' x) = mBegin (queues q x)" by (simp add: h'_def)
  have blk: "\<And>x. q_blk (h' x) = q_blk (queues q x)" by (rule q_blk_cong) (rule beg)
  have oka: "blk_ok m' (h' a)"
    using F by (intro blk_okI[where b = b and u = 0 and k = 0 and c = c]) (simp_all add: ha m'_def)
  have ch': "qchain h' (mNextQueue (queues q a)) (as @ [a])"
  proof (rule qchain_link_last[OF ch as d H(3)])
    show "\<forall>x\<in>set (butlast as). mNextQueue (h' x) = mNextQueue (queues q x)"
    proof
      fix x assume x: "x \<in> set (butlast as)"
      then have "x \<in> set as" by (rule in_set_butlastD)
      then have xa: "x \<noteq> a" using H(3) by auto
      have "x \<noteq> e" using x d as unfolding e_def
        by (metis append_butlast_last_id distinct_append disjoint_iff list.set_intros(1))
      then show "mNextQueue (h' x) = mNextQueue (queues q x)" using same[OF xa] by simp
    qed
    show "mNextQueue (h' (last as)) = Some a" using he by (simp add: e_def)
    show "mNextQueue (h' a) = None" by (simp add: ha)
  qed
  have oks: "\<forall>x\<in>set (as @ [a]). blk_ok m' (h' x)"
  proof
    fix x assume x: "x \<in> set (as @ [a])"
    show "blk_ok m' (h' x)"
    proof (cases "x = a")
      case True
      then show ?thesis using oka by simp
    next
      case False
      then have "x \<in> set (a # as)" using x by simp
      then have "blk_ok (qmem q) (queues q x)" by (rule pop_inv_blk_ok[OF inv])
      moreover have "blk_ok m' (h' x) = blk_ok (qmem q) (queues q x)"
        using ptrs[OF False] by (intro blk_ok_cong) (simp_all add: m'_def)
      ultimately show ?thesis by simp
    qed
  qed
  have db: "distinct (map (\<lambda>x. q_blk (h' x)) (as @ [a]))"
    using inv unfolding pop_inv_def blk by auto
  have ea': "q_used (h' a) = q_cur (h' a)" by (simp add: ha q_used_def q_cur_def)
  have cong_as: "\<forall>x\<in>set as. q_used (h' x) = q_used (queues q x) \<and> q_cur (h' x) = q_cur (queues q x) \<and>
       q_cap (h' x) = q_cap (queues q x)"
  proof
    fix x assume "x \<in> set as"
    then have "x \<noteq> a" using H(3) by auto
    from ptrs[OF this] show "q_used (h' x) = q_used (queues q x) \<and> q_cur (h' x) = q_cur (queues q x) \<and>
       q_cap (h' x) = q_cap (queues q x)" by (simp add: q_used_def q_cur_def q_cap_def)
  qed
  have io: "in_order h' (as @ [a])"
  proof -
    have "in_order (queues q) (a # as)" using inv by (simp add: pop_inv_def)
    then consider "\<forall>x\<in>set as. q_used (queues q x) = q_cur (queues q x)" | "in_order (queues q) as"
      by auto
    then show ?thesis
    proof cases
      case 1
      then have "\<forall>x\<in>set (as @ [a]). q_used (h' x) = q_cur (h' x)" using cong_as ea' by auto
      then show ?thesis by (rule in_order_all_empty)
    next
      case 2
      then have "in_order h' as" using in_order_cong[OF cong_as] by simp
      then show ?thesis using ea' by (rule in_order_snoc_empty)
    qed
  qed
  have pi: "pop_inv q' (as @ [a])"
    using ch' oks db io d H(3) unfolding pop_inv_def by (simp add: q'_def)
  have la: "live_slots (queues q a) = [(b, u)]"
    using uc kc by (simp add: live_slots_def G upt_conv_Cons)
  have la': "live_slots (h' a) = []" by (simp add: live_slots_def ha q_used_def q_cur_def)
  have rest: "qcontents q' as = qcontents q as"
  proof (rule qcontents_cong, rule ballI)
    fix x assume x: "x \<in> set as"
    then have xa: "x \<noteq> a" using H(3) by auto
    have nb: "q_blk (queues q x) \<noteq> b" using H(4) x G by simp
    have "live_slots (h' x) = live_slots (queues q x)"
      using ptrs[OF xa] by (intro live_slots_cong) simp_all
    then show "map (cell (qmem q')) (live_slots (queues q' x)) =
               map (cell (qmem q)) (live_slots (queues q x))"
      using nb by (simp add: q'_def m'_def cells_other_block)
  qed
  have "qcontents q' (as @ [a]) = tl (qcontents q (a # as))"
    using rest la la' by (simp add: qcontents_append qcontents_Cons) (simp add: qcontents_def q'_def)
  moreover have "q_used (queues q' a) = 0" "q_cur (queues q' a) = 0"
    by (simp_all add: q'_def ha q_used_def q_cur_def)
  ultimately show ?thesis using tp pi by (intro exI[of _ q']) (simp add: q'_def m'_def)
qed


lemma qcontents_empty_blocks:
  "\<forall>x\<in>set as. q_used (queues q x) = q_cur (queues q x) \<Longrightarrow> qcontents q as = []"
  by (induction as) (simp_all add: qcontents_def live_slots_def)

lemma try_pop_nonempty:
  assumes inv: "pop_inv q bs" and c: "qcontents q bs = Some v # rest"
  shows "\<exists>q' bs'. try_pop dflt q = ret ((True, v), q') \<and> pop_inv q' bs' \<and>
           qcontents q' bs' = rest \<and> queue_next q' = queue_next q \<and>
           bsize (qmem q') = bsize (qmem q)"
proof -
  from c obtain a as where bs: "bs = a # as" by (cases bs) (auto simp: qcontents_def)
  note inv' = inv[unfolded bs]
  let ?A = "queues q a"
  have io: "in_order (queues q) (a # as)" using inv' by (simp add: pop_inv_def)
  have ok: "blk_ok (qmem q) ?A" using pop_inv_head(2)[OF inv'] .
  have ne: "q_used ?A < q_cur ?A"
  proof (rule ccontr)
    assume n: "\<not> q_used ?A < q_cur ?A"
    then have l: "live_slots ?A = []" by (simp add: live_slots_def)
    from io n ok have "\<forall>x\<in>set as. q_used (queues q x) = q_cur (queues q x)"
      by (auto simp: blk_ok_def)
    then have "qcontents q as = []" by (rule qcontents_empty_blocks)
    with l c show False by (simp add: bs qcontents_Cons)
  qed
  then have l: "live_slots ?A = (q_blk ?A, q_used ?A) # map (\<lambda>j. (q_blk ?A, j)) [Suc (q_used ?A)..<q_cur ?A]"
    by (simp add: live_slots_def upt_conv_Cons)
  have v: "cell (qmem q) (q_blk ?A, q_used ?A) = Some v"
    using c by (simp add: bs qcontents_Cons l)
  have tl: "tl (qcontents q (a # as)) = rest" using c by (simp add: bs)
  show ?thesis
  proof (cases "q_used ?A + 1 = q_cap ?A")
    case False
    from try_pop_inside[OF inv' ne v False, of dflt] tl show ?thesis by auto
  next
    case True
    show ?thesis
    proof (cases "as = []")
      case e: True
      from try_pop_reset[OF inv'[unfolded e] ne v True, of dflt] tl e show ?thesis by auto
    next
      case e: False
      from try_pop_rotate[OF inv' ne v True e, of dflt] tl show ?thesis by auto
    qed
  qed
qed

lemma try_pop_empty:
  assumes inv: "pop_inv q bs" and c: "qcontents q bs = []"
  shows "try_pop dflt q = ret ((False, dflt), q)" and "empty q"
proof -
  have "try_pop dflt q = ret ((False, dflt), q) \<and> empty q"
  proof (cases bs)
    case Nil
    with inv show ?thesis by (simp add: pop_inv_def try_pop_def empty_def)
  next
    case (Cons a as)
    let ?A = "queues q a"
    note inv' = inv[unfolded Cons]
    note H = pop_inv_head[OF inv']
    from H(2) obtain b u k c where F: "mBegin ?A = Some (b, 0)"
      "mUsedBegin ?A = Some (b, u)" "mCurrent ?A = Some (b, k)"
      "mEnd ?A = Some (b, c)" "u \<le> k" "k \<le> c" "0 < c"
      "b < length (bsize (qmem q))" "bsize (qmem q) ! b = c"
      and G: "q_blk ?A = b" "q_used ?A = u" "q_cur ?A = k" "q_cap ?A = c" by (rule blk_ok_fields)
    from c have "live_slots ?A = []" by (simp add: Cons qcontents_Cons)
    then have "u = k" using F(5) by (auto simp: live_slots_def G)
    then show ?thesis using F by (simp add: try_pop_def empty_def H(1))
  qed
  then show "try_pop dflt q = ret ((False, dflt), q)" and "empty q" by simp_all
qed

lemma try_pop_n_fifo:
  assumes "pop_inv q bs" and "qcontents q bs = map Some vs"
  shows "\<exists>q' bs'. try_pop_n dflt (length vs) q = ret (map (Pair True) vs, q') \<and>
           pop_inv q' bs' \<and> qcontents q' bs' = [] \<and> queue_next q' = queue_next q \<and>
           bsize (qmem q') = bsize (qmem q)"
  using assms
proof (induction vs arbitrary: q bs)
  case Nil
  then show ?case by auto
next
  case (Cons v vs)
  from Cons.prems have c: "qcontents q bs = Some v # map Some vs" by simp
  from try_pop_nonempty[OF Cons.prems(1) c, of dflt] obtain q1 bs1 where
    p: "try_pop dflt q = ret ((True, v), q1)" and i1: "pop_inv q1 bs1"
    and c1: "qcontents q1 bs1 = map Some vs"
    and a1: "queue_next q1 = queue_next q" "bsize (qmem q1) = bsize (qmem q)" by blast
  from Cons.IH[OF i1 c1] obtain q' bs' where
    r: "try_pop_n dflt (length vs) q1 = ret (map (Pair True) vs, q')"
    and i': "pop_inv q' bs'" and c': "qcontents q' bs' = []"
    and a': "queue_next q' = queue_next q1" "bsize (qmem q') = bsize (qmem q1)" by blast
  have "try_pop_n dflt (length (v # vs)) q = ret (map (Pair True) (v # vs), q')"
    by (simp add: p r)
  with i' c' a1 a' show ?case by (intro exI[of _ q'] exI[of _ bs']) simp
qed

subsection \<open>Pushing onto a queue that has not been popped from\<close>

definition push_inv :: "'a concurrent_queue \<Rightarrow> nat list \<Rightarrow> bool" where
  "push_inv q bs =
     (qchain (queues q) (mQueue q) bs \<and> distinct bs \<and>
      mQueueEnd q = (if bs = [] then None else Some (last bs)) \<and>
      mQueueCurrent q = mQueueEnd q \<and>
      (\<forall>a\<in>set bs. blk_ok (qmem q) (queues q a)) \<and>
      distinct (map (\<lambda>a. q_blk (queues q a)) bs) \<and>
      (\<forall>a\<in>set bs. a < queue_next q) \<and>
      (\<forall>a\<in>set bs. q_used (queues q a) = 0) \<and>
      (\<forall>a\<in>set (butlast bs). q_cur (queues q a) = q_cap (queues q a)))"

definition new_block_size :: "nat \<Rightarrow> nat \<Rightarrow> nat \<Rightarrow> nat" where
  "new_block_size sz requested current =
     max (Min_queue_size sz)
       ((queue_Calculate_new_capacity sz requested + 2 ^ 64 - current) mod 2 ^ 64)"

lemma new_block_size_pos: "0 < new_block_size sz r c"
  using Min_segment_size_eval_pos[of sz]
  by (simp add: new_block_size_def Min_queue_size_def less_max_iff_disj)

definition fresh_block :: "'a concurrent_queue \<Rightarrow> nat \<Rightarrow> MiniQueue" where
  "fresh_block q n =
     \<lparr>mElements = Some (length (bsize (qmem q)), 0), mBegin = Some (length (bsize (qmem q)), 0),
      mUsedBegin = Some (length (bsize (qmem q)), 0), mCurrent = Some (length (bsize (qmem q)), 0),
      mEnd = Some (length (bsize (qmem q)), n), mNextQueue = None\<rparr>"

lemma Allocate_mini_queue_eq:
  "Allocate_mini_queue sz r c q =
     (queue_next q,
      q\<lparr>qmem := (qmem q)\<lparr>bsize := bsize (qmem q) @ [new_block_size sz r c]\<rparr>,
        queue_next := queue_next q + 1,
        queues := (queues q)(queue_next q := fresh_block q (new_block_size sz r c))\<rparr>)"
  by (simp add: Allocate_mini_queue_def Let_def allocate_def new_block_size_def fresh_block_def)

lemma in_order_full:
  "\<forall>a\<in>set bs. q_used (h a) = 0 \<and> 0 < q_cap (h a) \<Longrightarrow>
   \<forall>a\<in>set (butlast bs). q_cur (h a) = q_cap (h a) \<Longrightarrow> in_order h bs"
proof (induction bs)
  case Nil
  then show ?case by simp
next
  case (Cons a bs)
  show ?case
  proof (cases "bs = []")
    case True
    then show ?thesis by simp
  next
    case False
    with Cons have "in_order h bs" "q_cur (h a) = q_cap (h a)" "q_used (h a) < q_cap (h a)"
      by auto
    then show ?thesis by simp
  qed
qed

lemma push_inv_pop_inv: "push_inv q bs \<Longrightarrow> pop_inv q bs"
proof -
  assume p: "push_inv q bs"
  then have "\<forall>a\<in>set bs. q_used (queues q a) = 0 \<and> 0 < q_cap (queues q a)"
    by (auto simp: push_inv_def blk_ok_def)
  moreover from p have "\<forall>a\<in>set (butlast bs). q_cur (queues q a) = q_cap (queues q a)"
    by (simp add: push_inv_def)
  ultimately have "in_order (queues q) bs" by (rule in_order_full)
  with p show ?thesis by (auto simp: push_inv_def pop_inv_def)
qed

lemma push_inv_new: "push_inv new_queue []"
  by (simp add: push_inv_def new_queue_def)

text \<open>The first push: the queue has no block yet.\<close>

lemma push_first:
  assumes inv: "push_inv q []"
  shows "\<exists>q'. push sz v q = ret q' \<and> push_inv q' [queue_next q] \<and>
              qcontents q' [queue_next q] = [Some v]"
proof -
  from inv have z: "mQueue q = None" "mQueueEnd q = None" "mQueueCurrent q = None"
    by (simp_all add: push_inv_def)
  define C where "C = new_block_size sz 1 0"
  have Cpos: "0 < C" unfolding C_def by (rule new_block_size_pos)
  define nb where "nb = length (bsize (qmem q))"
  define n where "n = queue_next q"
  define q' where "q' = q\<lparr>qmem := (qmem q)\<lparr>bsize := bsize (qmem q) @ [C],
                                          cell := (cell (qmem q))((nb, 0) := Some v)\<rparr>,
        queue_next := n + 1,
        queues := (queues q)(n := (fresh_block q C)\<lparr>mCurrent := Some (nb, 1)\<rparr>),
        mQueue := Some n, mQueueCurrent := Some n, mQueueEnd := Some n\<rparr>"
  have sb: "secure_block sz q =
      ret (q\<lparr>qmem := (qmem q)\<lparr>bsize := bsize (qmem q) @ [C]\<rparr>,
             queue_next := n + 1,
             queues := (queues q)(n := fresh_block q C),
             mQueue := Some n, mQueueCurrent := Some n, mQueueEnd := Some n\<rparr>)"
    by (simp add: secure_block_def z Allocate_mini_queue_eq Emplace_back_mini_queue_def C_def n_def)
  have p: "push sz v q = ret q'"
    using Cpos
    by (simp add: push_def Internal_push_def sb construct_and_step_def fresh_block_def
        construct_def in_bounds_def lift_def ptr_add_def Let_def q'_def nb_def nth_append)
  have ok: "blk_ok (qmem q') (queues q' n)"
    using Cpos
    by (intro blk_okI[where b = nb and u = 0 and k = 1 and c = C])
       (simp_all add: q'_def fresh_block_def nb_def nth_append)
  have pi: "push_inv q' [n]"
    using ok by (simp add: push_inv_def q'_def fresh_block_def q_used_def)
  have "live_slots (queues q' n) = [(nb, 0)]"
    by (simp add: live_slots_def q'_def fresh_block_def q_blk_def q_used_def q_cur_def nb_def)
  then have "qcontents q' [n] = [Some v]" by (simp add: qcontents_def) (simp add: q'_def)
  with p pi show ?thesis unfolding n_def by blast
qed


lemma push_inv_last:
  assumes "push_inv q bs" and "bs \<noteq> []"
  shows "mQueueEnd q = Some (last bs)" and "mQueueCurrent q = Some (last bs)"
    and "blk_ok (qmem q) (queues q (last bs))" and "\<exists>a. mQueue q = Some a"
proof -
  from assms show "mQueueEnd q = Some (last bs)" "mQueueCurrent q = Some (last bs)"
    by (simp_all add: push_inv_def)
  from assms have "last bs \<in> set bs" by simp
  with assms(1) show "blk_ok (qmem q) (queues q (last bs))" by (simp add: push_inv_def)
  from assms show "\<exists>a. mQueue q = Some a" by (cases bs) (simp_all add: push_inv_def)
qed

lemma push_inv_blocks_differ:
  assumes "push_inv q bs" and "x \<in> set bs" and "y \<in> set bs" and "x \<noteq> y"
  shows "q_blk (queues q x) \<noteq> q_blk (queues q y)"
proof -
  from assms(1) have "inj_on (\<lambda>a. q_blk (queues q a)) (set bs)"
    by (simp add: push_inv_def distinct_map)
  with assms(2-4) show ?thesis by (auto dest: inj_onD)
qed

text \<open>A push into a last block that has room.\<close>

lemma push_room:
  assumes inv: "push_inv q bs" and ne: "bs \<noteq> []"
    and room: "q_cur (queues q (last bs)) \<noteq> q_cap (queues q (last bs))"
  shows "\<exists>q'. push sz v q = ret q' \<and> push_inv q' bs \<and>
              qcontents q' bs = qcontents q bs @ [Some v]"
proof -
  define l where "l = last bs"
  note L = push_inv_last[OF inv ne, folded l_def]
  have lin: "l \<in> set bs" using ne by (simp add: l_def)
  from L(3) obtain b u k c where F: "mBegin (queues q l) = Some (b, 0)"
    "mUsedBegin (queues q l) = Some (b, u)" "mCurrent (queues q l) = Some (b, k)"
    "mEnd (queues q l) = Some (b, c)" "u \<le> k" "k \<le> c" "0 < c"
    "b < length (bsize (qmem q))" "bsize (qmem q) ! b = c"
    and G: "q_blk (queues q l) = b" "q_used (queues q l) = u" "q_cur (queues q l) = k"
    "q_cap (queues q l) = c" by (rule blk_ok_fields)
  have u0: "u = 0" using inv lin G by (simp add: push_inv_def)
  have kc: "k < c" using room F(6) G by (simp add: l_def)
  obtain a where mq: "mQueue q = Some a" using L(4) by blast
  define h' where "h' = (queues q)(l := (queues q l)\<lparr>mCurrent := Some (b, k + 1)\<rparr>)"
  define q' where "q' = q\<lparr>qmem := (qmem q)\<lparr>cell := (cell (qmem q))((b, k) := Some v)\<rparr>,
                           queues := h'\<rparr>"
  have sb: "secure_block sz q = ret q"
    using kc by (simp add: secure_block_def L mq F)
  have p: "push sz v q = ret q'"
    using kc F
    by (simp add: push_def Internal_push_def sb construct_and_step_def L construct_def
        in_bounds_def lift_def ptr_add_def Let_def q'_def h'_def)
  have same: "\<And>x. x \<noteq> l \<Longrightarrow> h' x = queues q x" by (simp add: h'_def)
  have hl: "h' l = (queues q l)\<lparr>mCurrent := Some (b, k + 1)\<rparr>" by (simp add: h'_def)
  have nxt: "\<And>x. mNextQueue (h' x) = mNextQueue (queues q x)" by (simp add: h'_def)
  have beg: "\<And>x. mBegin (h' x) = mBegin (queues q x)" by (simp add: h'_def)
  have ub: "\<And>x. mUsedBegin (h' x) = mUsedBegin (queues q x)" by (simp add: h'_def)
  have blk: "\<And>x. q_blk (h' x) = q_blk (queues q x)" by (rule q_blk_cong) (rule beg)
  have usd: "\<And>x. q_used (h' x) = q_used (queues q x)" by (simp add: q_used_def ub)
  have okl: "blk_ok (qmem q') (h' l)"
    using F kc u0
    by (intro blk_okI[where b = b and u = 0 and k = "k + 1" and c = c]) (simp_all add: hl q'_def)
  have ch: "qchain h' (mQueue q) bs"
    using inv qchain_cong[of bs h' "queues q" "mQueue q"] nxt by (simp add: push_inv_def)
  have oks: "\<forall>x\<in>set bs. blk_ok (qmem q') (h' x)"
  proof
    fix x assume x: "x \<in> set bs"
    show "blk_ok (qmem q') (h' x)"
    proof (cases "x = l")
      case True
      then show ?thesis using okl by simp
    next
      case False
      have "blk_ok (qmem q) (queues q x)" using inv x by (simp add: push_inv_def)
      then show ?thesis using same[OF False] by (simp add: blk_ok_def q'_def)
    qed
  qed
  have full: "\<forall>x\<in>set (butlast bs). q_cur (h' x) = q_cap (h' x)"
  proof
    fix x assume x: "x \<in> set (butlast bs)"
    have "x \<noteq> l" using x inv ne unfolding l_def push_inv_def
      by (metis append_butlast_last_id distinct_append disjoint_iff list.set_intros(1))
    then show "q_cur (h' x) = q_cap (h' x)" using same inv x by (simp add: push_inv_def)
  qed
  have pi: "push_inv q' bs"
    using inv ch oks full unfolding push_inv_def by (simp add: q'_def blk usd)
  have bs: "bs = butlast bs @ [l]" using ne by (simp add: l_def)
  have lnot: "l \<notin> set (butlast bs)"
    using inv ne unfolding l_def push_inv_def
    by (metis append_butlast_last_id distinct_append disjoint_iff list.set_intros(1))
  have front: "qcontents q' (butlast bs) = qcontents q (butlast bs)"
  proof (rule qcontents_cong, rule ballI)
    fix x assume x: "x \<in> set (butlast bs)"
    then have xl: "x \<noteq> l" using lnot by auto
    have xin: "x \<in> set bs" using x by (rule in_set_butlastD)
    have "q_blk (queues q x) \<noteq> b"
      using push_inv_blocks_differ[OF inv xin lin xl] G by simp
    then show "map (cell (qmem q')) (live_slots (queues q' x)) =
               map (cell (qmem q)) (live_slots (queues q x))"
      using same[OF xl] by (simp add: q'_def cells_other_block)
  qed
  have ll: "live_slots (h' l) = live_slots (queues q l) @ [(b, k)]"
    using F u0 by (simp add: live_slots_def hl q_blk_def q_used_def q_cur_def)
  have lo: "map ((cell (qmem q))((b, k) := Some v)) (live_slots (queues q l)) =
            map (cell (qmem q)) (live_slots (queues q l))"
    by (simp add: live_slots_def G)
  have lastc: "qcontents q' [l] = qcontents q [l] @ [Some v]"
    using ll lo by (simp add: qcontents_def q'_def)
  have "qcontents q' (butlast bs @ [l]) = qcontents q (butlast bs @ [l]) @ [Some v]"
    unfolding qcontents_append front lastc by simp
  then have "qcontents q' bs = qcontents q bs @ [Some v]" using bs by simp
  with p pi show ?thesis by blast
qed


lemma blk_ok_extend:
  "blk_ok m mq \<Longrightarrow> mBegin mq' = mBegin mq \<Longrightarrow> mUsedBegin mq' = mUsedBegin mq \<Longrightarrow>
   mCurrent mq' = mCurrent mq \<Longrightarrow> mEnd mq' = mEnd mq \<Longrightarrow> bsize m' = bsize m @ [C] \<Longrightarrow>
   blk_ok m' mq'"
  by (simp add: blk_ok_def q_blk_def q_used_def q_cur_def q_cap_def nth_append)

text \<open>A push that finds the last block full: a new block is allocated and linked.\<close>

lemma push_full:
  assumes inv: "push_inv q bs" and ne: "bs \<noteq> []"
    and full: "q_cur (queues q (last bs)) = q_cap (queues q (last bs))"
  shows "\<exists>q'. push sz v q = ret q' \<and> push_inv q' (bs @ [queue_next q]) \<and>
              qcontents q' (bs @ [queue_next q]) = qcontents q bs @ [Some v]"
proof -
  define l where "l = last bs"
  define n where "n = queue_next q"
  define nb where "nb = length (bsize (qmem q))"
  note L = push_inv_last[OF inv ne, folded l_def]
  have lin: "l \<in> set bs" using ne by (simp add: l_def)
  from L(3) obtain b u k c where F: "mBegin (queues q l) = Some (b, 0)"
    "mUsedBegin (queues q l) = Some (b, u)" "mCurrent (queues q l) = Some (b, k)"
    "mEnd (queues q l) = Some (b, c)" "u \<le> k" "k \<le> c" "0 < c"
    "b < length (bsize (qmem q))" "bsize (qmem q) ! b = c"
    and G: "q_blk (queues q l) = b" "q_used (queues q l) = u" "q_cur (queues q l) = k"
    "q_cap (queues q l) = c" by (rule blk_ok_fields)
  have kc: "k = c" using full G by (simp add: l_def)
  obtain a where mq: "mQueue q = Some a" using L(4) by blast
  have ch: "qchain (queues q) (mQueue q) bs" and d: "distinct bs"
    and oks: "\<forall>x\<in>set bs. blk_ok (qmem q) (queues q x)"
    and bnd: "\<forall>x\<in>set bs. x < n" using inv by (simp_all add: push_inv_def n_def)
  have nnot: "n \<notin> set bs" using bnd by auto
  have ln: "l \<noteq> n" using lin nnot by auto
  from unsafe_size_loop_returns[OF ch oks, of 0] obtain s where
    us: "unsafe_size q = ret s" by (auto simp: unsafe_size_def mq)
  define C where "C = new_block_size sz ((s + 1) mod 2 ^ 64) s"
  have Cpos: "0 < C" unfolding C_def by (rule new_block_size_pos)
  have Ceq: "new_block_size sz (Suc s mod 18446744073709551616) s = C" by (simp add: C_def)
  define h' where "h' = (queues q)
      (l := (queues q l)\<lparr>mNextQueue := Some n\<rparr>,
       n := (fresh_block q C)\<lparr>mCurrent := Some (nb, 1)\<rparr>)"
  define q' where "q' = q\<lparr>qmem := (qmem q)\<lparr>bsize := bsize (qmem q) @ [C],
                                          cell := (cell (qmem q))((nb, 0) := Some v)\<rparr>,
        queue_next := n + 1, queues := h', mQueueEnd := Some n, mQueueCurrent := Some n\<rparr>"
  have sb: "secure_block sz q =
      ret (q\<lparr>qmem := (qmem q)\<lparr>bsize := bsize (qmem q) @ [C]\<rparr>,
             queue_next := n + 1,
             queues := (queues q)(n := fresh_block q C, l := (queues q l)\<lparr>mNextQueue := Some n\<rparr>),
             mQueueEnd := Some n, mQueueCurrent := Some n\<rparr>)"
    using ln F kc
    by (simp add: secure_block_def L mq us Allocate_mini_queue_eq Emplace_back_mini_queue_def
        Let_def Ceq n_def[symmetric])
  have heq: "(queues q)(n := fresh_block q C, l := (queues q l)\<lparr>mNextQueue := Some n\<rparr>,
                        n := (fresh_block q C)\<lparr>mCurrent := Some (nb, 1)\<rparr>) = h'"
    using ln by (auto simp: h'_def fun_eq_iff)
  have p0: "push sz v q =
      ret (q\<lparr>qmem := (qmem q)\<lparr>bsize := bsize (qmem q) @ [C],
                              cell := (cell (qmem q))((nb, 0) := Some v)\<rparr>,
             queue_next := n + 1,
             queues := (queues q)(n := fresh_block q C, l := (queues q l)\<lparr>mNextQueue := Some n\<rparr>,
                          n := (fresh_block q C)\<lparr>mCurrent := Some (nb, 1)\<rparr>),
             mQueueEnd := Some n, mQueueCurrent := Some n\<rparr>)"
    using Cpos ln
    by (simp add: push_def Internal_push_def sb construct_and_step_def fresh_block_def
        construct_def in_bounds_def lift_def ptr_add_def Let_def nb_def nth_append)
  have p: "push sz v q = ret q'" unfolding p0 heq q'_def by simp
  have hn: "h' n = (fresh_block q C)\<lparr>mCurrent := Some (nb, 1)\<rparr>" by (simp add: h'_def)
  have hl: "h' l = (queues q l)\<lparr>mNextQueue := Some n\<rparr>" using ln by (simp add: h'_def)
  have same: "\<And>x. x \<noteq> n \<Longrightarrow> x \<noteq> l \<Longrightarrow> h' x = queues q x" by (simp add: h'_def)
  have ptrs: "\<And>x. x \<noteq> n \<Longrightarrow> mBegin (h' x) = mBegin (queues q x) \<and>
      mUsedBegin (h' x) = mUsedBegin (queues q x) \<and> mCurrent (h' x) = mCurrent (queues q x) \<and>
      mEnd (h' x) = mEnd (queues q x)"
    by (simp add: h'_def)
  have acc: "\<And>x. x \<noteq> n \<Longrightarrow> q_blk (h' x) = q_blk (queues q x) \<and> q_used (h' x) = q_used (queues q x) \<and>
      q_cur (h' x) = q_cur (queues q x) \<and> q_cap (h' x) = q_cap (queues q x)"
    using ptrs by (simp add: q_blk_def q_used_def q_cur_def q_cap_def)
  have accn: "q_blk (h' n) = nb" "q_used (h' n) = 0" "q_cur (h' n) = 1" "q_cap (h' n) = C"
    by (simp_all add: hn fresh_block_def q_blk_def q_used_def q_cur_def q_cap_def nb_def)
  have lnot: "l \<notin> set (butlast bs)"
    using d ne unfolding l_def
    by (metis append_butlast_last_id distinct_append disjoint_iff list.set_intros(1))
  have ch': "qchain h' (mQueue q) (bs @ [n])"
  proof (rule qchain_link_last[OF ch ne d nnot])
    show "\<forall>x\<in>set (butlast bs). mNextQueue (h' x) = mNextQueue (queues q x)"
    proof
      fix x assume x: "x \<in> set (butlast bs)"
      then have "x \<in> set bs" by (rule in_set_butlastD)
      then have "x \<noteq> n" using nnot by auto
      moreover have "x \<noteq> l" using x lnot by auto
      ultimately show "mNextQueue (h' x) = mNextQueue (queues q x)" using same by simp
    qed
    show "mNextQueue (h' (last bs)) = Some n" using hl by (simp add: l_def)
    show "mNextQueue (h' n) = None" by (simp add: hn fresh_block_def)
  qed
  have okn: "blk_ok (qmem q') (h' n)"
    using Cpos
    by (intro blk_okI[where b = nb and u = 0 and k = 1 and c = C])
       (simp_all add: hn q'_def fresh_block_def nb_def nth_append)
  have oks': "\<forall>x\<in>set (bs @ [n]). blk_ok (qmem q') (h' x)"
  proof
    fix x assume x: "x \<in> set (bs @ [n])"
    show "blk_ok (qmem q') (h' x)"
    proof (cases "x = n")
      case True
      then show ?thesis using okn by simp
    next
      case False
      then have "x \<in> set bs" using x by simp
      then have "blk_ok (qmem q) (queues q x)" using oks by simp
      then show ?thesis
        by (rule blk_ok_extend[where C = C]) (simp_all add: ptrs[OF False] q'_def)
    qed
  qed
  have oldb: "\<forall>x\<in>set bs. q_blk (h' x) = q_blk (queues q x) \<and> q_blk (queues q x) \<noteq> nb"
  proof
    fix x assume x: "x \<in> set bs"
    then have xn: "x \<noteq> n" using nnot by auto
    have "q_blk (queues q x) < nb" using oks x by (simp add: blk_ok_def nb_def)
    then show "q_blk (h' x) = q_blk (queues q x) \<and> q_blk (queues q x) \<noteq> nb" using acc[OF xn] by simp
  qed
  have db: "distinct (map (\<lambda>x. q_blk (h' x)) (bs @ [n]))"
  proof -
    have meq: "map (\<lambda>x. q_blk (h' x)) bs = map (\<lambda>x. q_blk (queues q x)) bs"
      using oldb by (intro map_cong) simp_all
    have d1: "distinct (map (\<lambda>x. q_blk (h' x)) bs)"
      unfolding meq using inv by (simp add: push_inv_def)
    have "nb \<notin> set (map (\<lambda>x. q_blk (h' x)) bs)" unfolding meq using oldb by auto
    with d1 show ?thesis by (simp add: accn)
  qed
  have used0: "\<forall>x\<in>set (bs @ [n]). q_used (h' x) = 0"
  proof
    fix x assume x: "x \<in> set (bs @ [n])"
    show "q_used (h' x) = 0"
    proof (cases "x = n")
      case True
      then show ?thesis by (simp add: accn)
    next
      case False
      then have "x \<in> set bs" using x by simp
      then show ?thesis using inv acc[OF False] by (simp add: push_inv_def)
    qed
  qed
  have fullbs: "\<forall>x\<in>set bs. q_cur (h' x) = q_cap (h' x)"
  proof
    fix x assume x: "x \<in> set bs"
    then have xn: "x \<noteq> n" using nnot by auto
    have "q_cur (queues q x) = q_cap (queues q x)"
    proof (cases "x = l")
      case True
      then show ?thesis using G kc by simp
    next
      case False
      then have "x \<in> set (butlast bs)" using x ne unfolding l_def
        by (metis append_butlast_last_id rotate1.simps(2) set_ConsD set_rotate1)
      then show ?thesis using inv by (simp add: push_inv_def)
    qed
    then show "q_cur (h' x) = q_cap (h' x)" using acc[OF xn] by simp
  qed
  have pi: "push_inv q' (bs @ [n])"
    unfolding push_inv_def using ch' d nnot oks' db used0 fullbs bnd
    by (auto simp: q'_def mq n_def)
  have old: "qcontents q' bs = qcontents q bs"
  proof (rule qcontents_cong, rule ballI)
    fix x assume x: "x \<in> set bs"
    then have xn: "x \<noteq> n" using nnot by auto
    have "live_slots (h' x) = live_slots (queues q x)"
      using ptrs[OF xn] by (intro live_slots_cong) simp_all
    then show "map (cell (qmem q')) (live_slots (queues q' x)) =
               map (cell (qmem q)) (live_slots (queues q x))"
      using oldb x by (simp add: q'_def cells_other_block)
  qed
  have "live_slots (h' n) = [(nb, 0)]" by (simp add: live_slots_def accn)
  then have new: "qcontents q' [n] = [Some v]" by (simp add: qcontents_def q'_def)
  have "qcontents q' (bs @ [n]) = qcontents q bs @ [Some v]"
    unfolding qcontents_append old new by simp
  with p pi show ?thesis unfolding n_def by blast
qed

lemma push_step:
  assumes "push_inv q bs"
  shows "\<exists>q' bs'. push sz v q = ret q' \<and> push_inv q' bs' \<and>
           qcontents q' bs' = qcontents q bs @ [Some v]"
proof (cases "bs = []")
  case True
  from push_first[OF assms[unfolded True], of sz v] obtain q' where
    "push sz v q = ret q'" "push_inv q' [queue_next q]" "qcontents q' [queue_next q] = [Some v]"
    by blast
  moreover have "qcontents q bs = []" by (simp add: True qcontents_def)
  ultimately show ?thesis by (intro exI[of _ q'] exI[of _ "[queue_next q]"]) simp
next
  case False
  show ?thesis
  proof (cases "q_cur (queues q (last bs)) = q_cap (queues q (last bs))")
    case True
    from push_full[OF assms False True, of sz v] show ?thesis by blast
  next
    case False
    from push_room[OF assms \<open>bs \<noteq> []\<close> False, of sz v] show ?thesis by blast
  qed
qed

lemma push_each_contents:
  assumes "push_inv q bs"
  shows "\<exists>q' bs'. push_each sz vs q = ret q' \<and> push_inv q' bs' \<and>
           qcontents q' bs' = qcontents q bs @ map Some vs"
  using assms
proof (induction vs arbitrary: q bs)
  case Nil
  then show ?case by auto
next
  case (Cons v vs)
  from push_step[OF Cons.prems, of sz v] obtain q1 bs1 where
    p: "push sz v q = ret q1" and i: "push_inv q1 bs1"
    and c: "qcontents q1 bs1 = qcontents q bs @ [Some v]" by blast
  from Cons.IH[OF i] obtain q' bs' where
    "push_each sz vs q1 = ret q'" "push_inv q' bs'"
    "qcontents q' bs' = qcontents q1 bs1 @ map Some vs" by blast
  with p c show ?case by (intro exI[of _ q'] exI[of _ bs']) simp
qed

text \<open>
  FIFO order on a newly constructed queue.  Pushing \<open>v1, \<dots>, vn\<close> onto a newly constructed
  queue returns; then \<open>n\<close> successive \<open>try_pop\<close> calls all return \<open>true\<close> and deliver
  \<open>v1, \<dots>, vn\<close> in that order, and they leave the queue empty: \<open>empty()\<close> holds and a
  further \<open>try_pop\<close> returns \<open>false\<close>.
\<close>

theorem queue_fifo:
  "\<exists>q1 q2. push_each sz vs new_queue = ret q1 \<and>
           try_pop_n dflt (length vs) q1 = ret (map (Pair True) vs, q2) \<and>
           empty q2 \<and> try_pop dflt q2 = ret ((False, dflt), q2)"
proof -
  from push_each_contents[OF push_inv_new, of sz vs] obtain q1 bs1 where
    p: "push_each sz vs new_queue = ret q1" and i1: "push_inv q1 bs1"
    and c1: "qcontents q1 bs1 = map Some vs" by (auto simp: qcontents_def)
  from try_pop_n_fifo[OF push_inv_pop_inv[OF i1] c1, of dflt] obtain q2 bs2 where
    r: "try_pop_n dflt (length vs) q1 = ret (map (Pair True) vs, q2)"
    and i2: "pop_inv q2 bs2" and c2: "qcontents q2 bs2 = []" by blast
  from try_pop_empty(1)[OF i2 c2, of dflt] try_pop_empty(2)[OF i2 c2] p r show ?thesis by blast
qed

subsection \<open>Blocks are never given back\<close>

lemma bindE_eq_Inr:
  "(bindE m f = Some (Inr y)) = (\<exists>x. m = Some (Inr x) \<and> f x = Some (Inr y))"
  by (auto simp: bindE_def split: option.splits sum.splits)

lemma Emplace_back_mini_queue_allocated:
  "Emplace_back_mini_queue n qA = ret q1 \<Longrightarrow>
   queue_next q1 = queue_next qA \<and> bsize (qmem q1) = bsize (qmem qA)"
  by (auto simp: Emplace_back_mini_queue_def Let_def ret_def fail_def split: option.splits)

lemma Allocate_mini_queue_allocated:
  "queue_next (snd (Allocate_mini_queue sz r c q)) = queue_next q + 1 \<and>
   length (bsize (qmem (snd (Allocate_mini_queue sz r c q)))) = length (bsize (qmem q)) + 1"
  by (simp add: Allocate_mini_queue_eq)

lemma secure_block_allocated:
  assumes "secure_block sz q = ret q1"
  shows "queue_next q \<le> queue_next q1 \<and> length (bsize (qmem q)) \<le> length (bsize (qmem q1))"
proof -
  consider "q1 = q"
    | r c where "Emplace_back_mini_queue (fst (Allocate_mini_queue sz r c q))
                   (snd (Allocate_mini_queue sz r c q)) = ret q1"
    using assms
    by (auto simp: secure_block_def bindE_eq_Inr ret_def fail_def split: if_splits option.splits)
  then show ?thesis
  proof cases
    case 1
    then show ?thesis by simp
  next
    case 2
    from Emplace_back_mini_queue_allocated[OF 2] Allocate_mini_queue_allocated[of sz r c q]
    show ?thesis by simp
  qed
qed

lemma construct_and_step_allocated:
  "construct_and_step v q1 = ret q' \<Longrightarrow>
   queue_next q' = queue_next q1 \<and> bsize (qmem q') = bsize (qmem q1)"
  by (auto simp: construct_and_step_def bindE_def lift_def construct_def ret_def fail_def Let_def
      split: option.splits if_splits sum.splits)

lemma push_allocated:
  "push sz v q = ret q' \<Longrightarrow>
   queue_next q \<le> queue_next q' \<and> length (bsize (qmem q)) \<le> length (bsize (qmem q'))"
  unfolding push_def Internal_push_def bindE_eq_ret
  using secure_block_allocated construct_and_step_allocated by fastforce

lemma try_pop_allocated:
  "try_pop dflt q = ret (r, q') \<Longrightarrow>
   queue_next q' = queue_next q \<and> bsize (qmem q') = bsize (qmem q)"
  by (auto simp: try_pop_def Internal_Pop_def bindE_def lift_def destroy_def ret_def fail_def Let_def
      split: option.splits if_splits sum.splits)


subsection \<open>A queue with eight-slot blocks after nine pushes\<close>

text \<open>
  With \<open>sizeof(Type) = 32\<close> every block of this run has eight slots; the elements are
  written as integers.  \<open>queue_a\<close> is the queue after the
  pushes of \<open>1, \<dots>, 9\<close> and seven pops: block 0 holds its last element, block 1 holds \<open>9\<close>.
  \<open>queue_b\<close> is the queue after the eighth pop, \<open>queue_c\<close> after the ninth.
\<close>

definition queue_a :: "int concurrent_queue" where
  "queue_a =
     \<lparr>queues = (\<lambda>_. null_mini_queue)
        (0 := \<lparr>mElements = Some (0, 0), mBegin = Some (0, 0), mUsedBegin = Some (0, 7),
               mCurrent = Some (0, 8), mEnd = Some (0, 8), mNextQueue = Some 1\<rparr>,
         1 := \<lparr>mElements = Some (1, 0), mBegin = Some (1, 0), mUsedBegin = Some (1, 0),
               mCurrent = Some (1, 1), mEnd = Some (1, 8), mNextQueue = None\<rparr>),
      queue_next = 2,
      qmem = \<lparr>bsize = [8, 8], cell = (\<lambda>_. None)((0, 7) := Some 8, (1, 0) := Some 9)\<rparr>,
      mQueue = Some 0, mQueueCurrent = Some 1, mQueueEnd = Some 1\<rparr>"

definition queue_b :: "int concurrent_queue" where
  "queue_b =
     \<lparr>queues = (\<lambda>_. null_mini_queue)
        (0 := \<lparr>mElements = Some (0, 0), mBegin = Some (0, 0), mUsedBegin = Some (0, 0),
               mCurrent = Some (0, 0), mEnd = Some (0, 8), mNextQueue = None\<rparr>,
         1 := \<lparr>mElements = Some (1, 0), mBegin = Some (1, 0), mUsedBegin = Some (1, 0),
               mCurrent = Some (1, 1), mEnd = Some (1, 8), mNextQueue = Some 0\<rparr>),
      queue_next = 2,
      qmem = \<lparr>bsize = [8, 8], cell = (\<lambda>_. None)((1, 0) := Some 9)\<rparr>,
      mQueue = Some 1, mQueueCurrent = Some 1, mQueueEnd = Some 0\<rparr>"

definition queue_c :: "int concurrent_queue" where
  "queue_c =
     \<lparr>queues = (\<lambda>_. null_mini_queue)
        (0 := \<lparr>mElements = Some (0, 0), mBegin = Some (0, 0), mUsedBegin = Some (0, 0),
               mCurrent = Some (0, 0), mEnd = Some (0, 8), mNextQueue = None\<rparr>,
         1 := \<lparr>mElements = Some (1, 0), mBegin = Some (1, 0), mUsedBegin = Some (1, 1),
               mCurrent = Some (1, 1), mEnd = Some (1, 8), mNextQueue = Some 0\<rparr>),
      queue_next = 2,
      qmem = \<lparr>bsize = [8, 8], cell = (\<lambda>_. None)\<rparr>,
      mQueue = Some 1, mQueueCurrent = Some 1, mQueueEnd = Some 0\<rparr>"

lemmas queue_eval = push_def Internal_push_def secure_block_def construct_and_step_def
  Emplace_back_mini_queue_def Allocate_mini_queue_def queue_Calculate_new_capacity_def
  Min_queue_size_def Min_segment_size_eval_def max_size_def unsafe_size_def unsafe_size_loop.simps
  try_pop_def Internal_Pop_def construct_def destroy_def deref_def in_bounds_def allocate_def
  ptr_add_def ptr_diff_def lift_def Let_def new_queue_def empty_memory_def null_mini_queue_def

lemma bindE_weak_cong: "m = m' \<Longrightarrow> bindE m f = bindE m' f"
  by simp

lemma try_pop_n_numeral:
  "try_pop_n dflt (numeral k) q =
     bindE (try_pop dflt q) (\<lambda>r.
     bindE (try_pop_n dflt (pred_numeral k) (snd r)) (\<lambda>rs. ret (fst r # fst rs, snd rs)))"
  by (simp add: numeral_eq_Suc)

lemma queue_a_reachable:
  "bindE (push_each 32 [1, 2, 3, 4, 5, 6, 7, 8, 9] new_queue) (try_pop_n 0 7) =
     ret ([(True, 1), (True, 2), (True, 3), (True, 4), (True, 5), (True, 6), (True, 7)], queue_a)"
  apply (simp add: queue_eval try_pop_n_numeral cong: bindE_weak_cong)
  apply (simp add: queue_a_def fun_eq_iff null_mini_queue_def)
  done

lemma queue_b_reachable:
  "bindE (push_each 32 [1, 2, 3, 4, 5, 6, 7, 8, 9] new_queue) (try_pop_n 0 8) =
     ret ([(True, 1), (True, 2), (True, 3), (True, 4), (True, 5), (True, 6), (True, 7),
           (True, 8)], queue_b)"
  apply (simp add: queue_eval try_pop_n_numeral cong: bindE_weak_cong)
  apply (simp add: queue_b_def fun_eq_iff null_mini_queue_def)
  done

lemma queue_b_pop: "try_pop 0 queue_a = ret ((True, 8), queue_b)"
  apply (simp add: queue_eval queue_a_def)
  apply (simp add: queue_b_def fun_eq_iff null_mini_queue_def)
  done

lemma queue_c_pop: "try_pop 0 queue_b = ret ((True, 9), queue_c)"
  apply (simp add: queue_eval queue_b_def)
  apply (simp add: queue_c_def fun_eq_iff null_mini_queue_def)
  done


lemma queue_a_inv: "pop_inv queue_a [0, 1]"
  by (simp add: pop_inv_def queue_a_def blk_ok_def q_blk_def q_used_def q_cur_def q_cap_def)

text \<open>
  The claim as stated fails when the head block is drained before its end.  After nine
  pushes and eight pops the head is block 1, which holds one element and is followed by
  the recycled block 0.  The ninth \<open>try_pop\<close> drains block 1, and block 1 stays the head
  of the chain, block 0 the tail.
\<close>

theorem block_recycling_counterexample:
  "bindE (push_each 32 [1, 2, 3, 4, 5, 6, 7, 8, 9] new_queue) (try_pop_n 0 8) =
     ret ([(True, 1), (True, 2), (True, 3), (True, 4), (True, 5), (True, 6), (True, 7),
           (True, 8)], queue_b) \<and>
   mQueue queue_b = Some 1 \<and> try_pop 0 queue_b = ret ((True, 9), queue_c) \<and>
   mCurrent (queues queue_c 1) = mUsedBegin (queues queue_c 1) \<and>
   mQueue queue_c = Some 1 \<and> mNextQueue (queues queue_c 1) = Some 0 \<and>
   mQueueEnd queue_c = Some 0 \<and> mQueueEnd queue_c \<noteq> Some 1"
  using queue_b_reachable queue_c_pop by (simp add: queue_b_def queue_c_def)

subsection \<open>A queue that has been filled and drained\<close>

text \<open>
  \<open>queue_d\<close> is the queue after the pushes of \<open>1, \<dots>, 16\<close> and sixteen pops, with
  \<open>sizeof(Type) = 32\<close>: both blocks have been recycled, the head is block 0, and the write
  block \<open>mQueueCurrent\<close> is block 1.  \<open>queue_e\<close> is \<open>queue_d\<close> after \<open>push(99)\<close>.
\<close>

definition queue_d :: "int concurrent_queue" where
  "queue_d =
     \<lparr>queues = (\<lambda>_. null_mini_queue)
        (0 := \<lparr>mElements = Some (0, 0), mBegin = Some (0, 0), mUsedBegin = Some (0, 0),
               mCurrent = Some (0, 0), mEnd = Some (0, 8), mNextQueue = Some 1\<rparr>,
         1 := \<lparr>mElements = Some (1, 0), mBegin = Some (1, 0), mUsedBegin = Some (1, 0),
               mCurrent = Some (1, 0), mEnd = Some (1, 8), mNextQueue = None\<rparr>),
      queue_next = 2,
      qmem = \<lparr>bsize = [8, 8], cell = (\<lambda>_. None)\<rparr>,
      mQueue = Some 0, mQueueCurrent = Some 1, mQueueEnd = Some 1\<rparr>"

definition queue_e :: "int concurrent_queue" where
  "queue_e =
     \<lparr>queues = (\<lambda>_. null_mini_queue)
        (0 := \<lparr>mElements = Some (0, 0), mBegin = Some (0, 0), mUsedBegin = Some (0, 0),
               mCurrent = Some (0, 0), mEnd = Some (0, 8), mNextQueue = Some 1\<rparr>,
         1 := \<lparr>mElements = Some (1, 0), mBegin = Some (1, 0), mUsedBegin = Some (1, 0),
               mCurrent = Some (1, 1), mEnd = Some (1, 8), mNextQueue = None\<rparr>),
      queue_next = 2,
      qmem = \<lparr>bsize = [8, 8], cell = (\<lambda>_. None)((1, 0) := Some 99)\<rparr>,
      mQueue = Some 0, mQueueCurrent = Some 1, mQueueEnd = Some 1\<rparr>"

lemma queue_d_reachable:
  "bindE (push_each 32 [1, 2, 3, 4, 5, 6, 7, 8, 9, 10, 11, 12, 13, 14, 15, 16] new_queue)
     (try_pop_n 0 16) =
   ret ([(True, 1), (True, 2), (True, 3), (True, 4), (True, 5), (True, 6), (True, 7), (True, 8),
         (True, 9), (True, 10), (True, 11), (True, 12), (True, 13), (True, 14), (True, 15),
         (True, 16)], queue_d)"
  apply (simp add: queue_eval try_pop_n_numeral cong: bindE_weak_cong)
  apply (simp add: queue_d_def fun_eq_iff null_mini_queue_def)
  done

lemma queue_e_push: "push 32 99 queue_d = ret queue_e"
  apply (simp add: queue_eval queue_d_def cong: bindE_weak_cong)
  apply (simp add: queue_e_def fun_eq_iff null_mini_queue_def)
  done

text \<open>
  Claim C2 (FIFO order).  The claim fails on a queue that is empty after use.  Sixteen
  pushes and sixteen pops on a newly constructed queue leave it empty, with the head
  \<open>mQueue\<close> at block 0 and the write block \<open>mQueueCurrent\<close> at block 1.  The next \<open>push(99)\<close>
  constructs its element in block 1, and the next \<open>try_pop\<close> looks at block 0 only and
  returns \<open>false\<close>, although the queue holds one element.
\<close>

theorem fifo_lost_after_drain:
  "bindE (push_each 32 [1, 2, 3, 4, 5, 6, 7, 8, 9, 10, 11, 12, 13, 14, 15, 16] new_queue)
     (try_pop_n 0 16) =
   ret ([(True, 1), (True, 2), (True, 3), (True, 4), (True, 5), (True, 6), (True, 7), (True, 8),
         (True, 9), (True, 10), (True, 11), (True, 12), (True, 13), (True, 14), (True, 15),
         (True, 16)], queue_d) \<and>
   empty queue_d \<and> unsafe_size queue_d = ret 0 \<and>
   push_each 32 [99] queue_d = ret queue_e \<and> unsafe_size queue_e = ret 1 \<and>
   try_pop_n 0 1 queue_e = ret ([(False, 0)], queue_e)"
proof -
  have "empty queue_d" by (simp add: empty_def queue_d_def)
  moreover have "unsafe_size queue_d = ret 0"
    by (simp add: unsafe_size_def unsafe_size_loop.simps ptr_diff_def queue_d_def ret_def)
  moreover have "push_each 32 [99] queue_d = ret queue_e" by (simp add: queue_e_push)
  moreover have "unsafe_size queue_e = ret 1"
    by (simp add: unsafe_size_def unsafe_size_loop.simps ptr_diff_def queue_e_def ret_def)
  moreover have "try_pop 0 queue_e = ret ((False, 0), queue_e)"
    by (simp add: try_pop_def queue_e_def)
  then have "try_pop_n 0 1 queue_e = ret ([(False, 0)], queue_e)" by simp
  ultimately show ?thesis using queue_d_reachable by simp
qed

subsection \<open>The chain of blocks under every sequence of calls\<close>

text \<open>
  What \<open>Internal_Pop\<close> needs in order to recycle: the blocks reachable from \<open>mQueue\<close> form a
  list without repetition, \<open>mQueueEnd\<close> is its last block, and every block on it has been
  handed out by the allocator.  The element cursors of the blocks play no part.
\<close>

definition chain_inv :: "'a concurrent_queue \<Rightarrow> nat list \<Rightarrow> bool" where
  "chain_inv q bs =
     (qchain (queues q) (mQueue q) bs \<and> distinct bs \<and>
      mQueueEnd q = (if bs = [] then None else Some (last bs)) \<and>
      (\<forall>a\<in>set bs. a < queue_next q))"

text \<open>\<open>++mUsedBegin == mEnd\<close>: the pop takes the last slot of the block.\<close>

definition takes_last_slot :: "MiniQueue \<Rightarrow> bool" where
  "takes_last_slot mq =
     (case mUsedBegin mq of None \<Rightarrow> False | Some p \<Rightarrow> mEnd mq = Some (fst p, snd p + 1))"

datatype 'a call = Push 'a | Try_pop

fun run_calls ::
  "nat \<Rightarrow> 'a \<Rightarrow> 'a call list \<Rightarrow> 'a concurrent_queue \<Rightarrow> 'a concurrent_queue outcome" where
  "run_calls sizeof_Type dflt [] q = ret q"
| "run_calls sizeof_Type dflt (Push v # cs) q =
     bindE (push sizeof_Type v q) (run_calls sizeof_Type dflt cs)"
| "run_calls sizeof_Type dflt (Try_pop # cs) q =
     bindE (try_pop dflt q) (\<lambda>r. run_calls sizeof_Type dflt cs (snd r))"

lemma chain_inv_new: "chain_inv new_queue []"
  by (simp add: chain_inv_def new_queue_def)

lemma construct_and_step_links:
  "construct_and_step v q1 = ret q2 \<Longrightarrow>
   mQueue q2 = mQueue q1 \<and> mQueueEnd q2 = mQueueEnd q1 \<and> queue_next q2 = queue_next q1 \<and>
   (\<forall>x. mNextQueue (queues q2 x) = mNextQueue (queues q1 x))"
  by (auto simp: construct_and_step_def bindE_def lift_def construct_def ret_def fail_def Let_def
      split: option.splits if_splits sum.splits)

lemma construct_and_step_chain:
  assumes "chain_inv q1 bs" and "construct_and_step v q1 = ret q2"
  shows "chain_inv q2 bs"
proof -
  note L = construct_and_step_links[OF assms(2)]
  have "qchain (queues q2) (mQueue q1) bs = qchain (queues q1) (mQueue q1) bs"
    by (rule qchain_cong) (simp add: L)
  with assms(1) L show ?thesis by (simp add: chain_inv_def)
qed

lemma Emplace_back_mini_queue_chain:
  assumes inv: "chain_inv q bs"
    and e: "Emplace_back_mini_queue (fst (Allocate_mini_queue sz r c q))
              (snd (Allocate_mini_queue sz r c q)) = ret q1"
  shows "chain_inv q1 (bs @ [queue_next q])"
proof -
  let ?n = "queue_next q"
  let ?C = "new_block_size sz r c"
  let ?hA = "(queues q)(?n := fresh_block q ?C)"
  from inv have ch: "qchain (queues q) (mQueue q) bs" and d: "distinct bs"
    and en: "mQueueEnd q = (if bs = [] then None else Some (last bs))"
    and bnd: "\<forall>a\<in>set bs. a < ?n" by (simp_all add: chain_inv_def)
  have nnot: "?n \<notin> set bs" using bnd by auto
  show ?thesis
  proof (cases "bs = []")
    case True
    then have mq: "mQueue q = None" using ch by simp
    from e have "q1 = (snd (Allocate_mini_queue sz r c q))
        \<lparr>mQueue := Some ?n, mQueueCurrent := Some ?n, mQueueEnd := Some ?n\<rparr>"
      by (simp add: Emplace_back_mini_queue_def Allocate_mini_queue_eq mq ret_def)
    then show ?thesis
      by (simp add: chain_inv_def True Allocate_mini_queue_eq fresh_block_def)
  next
    case False
    then obtain a where mq: "mQueue q = Some a" using ch by (cases bs) auto
    define l where "l = last bs"
    have el: "mQueueEnd q = Some l" using en False by (simp add: l_def)
    have lin: "l \<in> set bs" using False by (simp add: l_def)
    have ln: "l \<noteq> ?n" using lin nnot by auto
    from e obtain cur where q1: "q1 = (snd (Allocate_mini_queue sz r c q))
        \<lparr>queues := ?hA(l := (?hA l)\<lparr>mNextQueue := Some ?n\<rparr>), mQueueEnd := Some ?n,
         mQueueCurrent := cur\<rparr>"
      by (auto simp: Emplace_back_mini_queue_def Allocate_mini_queue_eq mq el ret_def fail_def
          Let_def split: option.splits)
    let ?h1 = "?hA(l := (?hA l)\<lparr>mNextQueue := Some ?n\<rparr>)"
    have lnot: "l \<notin> set (butlast bs)"
      using d False unfolding l_def
      by (metis append_butlast_last_id distinct_append disjoint_iff list.set_intros(1))
    have ch1: "qchain ?h1 (mQueue q) (bs @ [?n])"
    proof (rule qchain_link_last[OF ch False d nnot])
      show "\<forall>x\<in>set (butlast bs). mNextQueue (?h1 x) = mNextQueue (queues q x)"
      proof
        fix x assume x: "x \<in> set (butlast bs)"
        then have "x \<in> set bs" by (rule in_set_butlastD)
        then have "x \<noteq> ?n" using nnot by auto
        moreover have "x \<noteq> l" using x lnot by auto
        ultimately show "mNextQueue (?h1 x) = mNextQueue (queues q x)" by simp
      qed
      show "mNextQueue (?h1 (last bs)) = Some ?n" by (simp add: l_def[symmetric])
      show "mNextQueue (?h1 ?n) = None" using ln by (simp add: fresh_block_def)
    qed
    show ?thesis
      unfolding chain_inv_def using ch1 d nnot bnd
      by (auto simp: q1 Allocate_mini_queue_eq)
  qed
qed

lemma secure_block_chain:
  assumes inv: "chain_inv q bs" and s: "secure_block sz q = ret q1"
  shows "chain_inv q1 bs \<or> chain_inv q1 (bs @ [queue_next q])"
proof -
  consider "q1 = q"
    | r c where "Emplace_back_mini_queue (fst (Allocate_mini_queue sz r c q))
                   (snd (Allocate_mini_queue sz r c q)) = ret q1"
    using s
    by (auto simp: secure_block_def bindE_eq_Inr ret_def fail_def split: if_splits option.splits)
  then show ?thesis
  proof cases
    case 1
    with inv show ?thesis by simp
  next
    case 2
    from Emplace_back_mini_queue_chain[OF inv 2] show ?thesis by simp
  qed
qed

lemma push_chain:
  assumes inv: "chain_inv q bs" and p: "push sz w q = ret q2"
  shows "chain_inv q2 bs \<or> chain_inv q2 (bs @ [queue_next q])"
proof -
  from p obtain q1 where s: "secure_block sz q = ret q1" and c: "construct_and_step w q1 = ret q2"
    by (auto simp: push_def Internal_push_def bindE_eq_ret)
  from secure_block_chain[OF inv s] construct_and_step_chain[OF _ c] show ?thesis by blast
qed


lemma try_pop_false:
  "try_pop dflt q = ret ((False, x), q') \<Longrightarrow> q' = q"
  by (auto simp: try_pop_def Internal_Pop_def bindE_def lift_def ret_def fail_def Let_def
      split: option.splits if_splits sum.splits)

lemma try_pop_true:
  assumes "try_pop dflt q = ret ((True, v), q')" and "mQueue q = Some a"
  obtains p where "mUsedBegin (queues q a) = Some p" "in_bounds (qmem q) p"
    "cell (qmem q) p = Some v" "mCurrent (queues q a) \<noteq> Some p"
  using assms
  by (auto simp: try_pop_def Internal_Pop_def bindE_def lift_def deref_def ret_def fail_def Let_def
      split: option.splits if_splits sum.splits)

text \<open>
  A successful \<open>try_pop\<close> on any chain: the head block moves behind the tail exactly when the
  pop takes its last slot and it is not the tail itself.
\<close>

lemma try_pop_recycles:
  assumes inv: "chain_inv q (a # as)" and pop: "try_pop dflt q = ret ((True, v), q')"
  shows "if takes_last_slot (queues q a) \<and> as \<noteq> []
         then chain_inv q' (as @ [a]) \<and> mUsedBegin (queues q' a) = mBegin (queues q a) \<and>
              mCurrent (queues q' a) = mBegin (queues q a)
         else chain_inv q' (a # as)"
proof -
  let ?A = "queues q a"
  from inv have mq: "mQueue q = Some a" and ch: "qchain (queues q) (mNextQueue ?A) as"
    and d: "distinct as" and anot: "a \<notin> set as"
    and en: "mQueueEnd q = Some (last (a # as))"
    and bnd: "\<forall>x\<in>set (a # as). x < queue_next q" by (simp_all add: chain_inv_def)
  from pop mq obtain p where ub: "mUsedBegin ?A = Some p" and ib: "in_bounds (qmem q) p"
    and cv: "cell (qmem q) p = Some v" and ne: "mCurrent ?A \<noteq> Some p" by (rule try_pop_true)
  define m' where "m' = (qmem q)\<lparr>cell := (cell (qmem q))(p := None)\<rparr>"
  have tl: "takes_last_slot ?A = (mEnd ?A = Some (fst p, snd p + 1))"
    by (simp add: takes_last_slot_def ub)
  show ?thesis
  proof (cases "mEnd ?A = Some (fst p, snd p + 1)")
    case False
    define Q where "Q = q\<lparr>qmem := m', queues := (queues q)(a := ?A\<lparr>mUsedBegin := Some (fst p, snd p + 1)\<rparr>)\<rparr>"
    have "try_pop dflt q = ret ((True, v), Q)"
      using False ub ib cv ne
      by (auto simp: try_pop_def Internal_Pop_def mq Let_def lift_def deref_def destroy_def
          ptr_add_def ret_def Q_def m'_def)
    with pop have q': "q' = Q" by (simp add: ret_def)
    have "qchain (queues Q) (mQueue q) (a # as) = qchain (queues q) (mQueue q) (a # as)"
      by (rule qchain_cong) (simp add: Q_def)
    moreover have "mQueue Q = mQueue q" "mQueueEnd Q = mQueueEnd q" "queue_next Q = queue_next q"
      by (simp_all add: Q_def)
    ultimately have "chain_inv Q (a # as)" using inv by (simp add: chain_inv_def)
    then show ?thesis using False tl q' by simp
  next
    case True
    show ?thesis
    proof (cases "as = []")
      case e: True
      then have ea: "mQueueEnd q = Some a" using en by simp
      define Q where "Q = q\<lparr>qmem := m',
          queues := (queues q)(a := ?A\<lparr>mUsedBegin := mBegin ?A, mCurrent := mBegin ?A\<rparr>)\<rparr>"
      have "try_pop dflt q = ret ((True, v), Q)"
        using True ub ib cv ne ea
        by (auto simp: try_pop_def Internal_Pop_def mq Let_def lift_def deref_def destroy_def
            ptr_add_def ret_def Q_def m'_def)
      with pop have q': "q' = Q" by (simp add: ret_def)
      have "qchain (queues Q) (mQueue q) [a] = qchain (queues q) (mQueue q) [a]"
        by (rule qchain_cong) (simp add: Q_def)
      moreover have "mQueue Q = mQueue q" "mQueueEnd Q = mQueueEnd q" "queue_next Q = queue_next q"
        by (simp_all add: Q_def)
      ultimately have "chain_inv Q [a]" using inv by (simp add: chain_inv_def e)
      then show ?thesis using e q' by simp
    next
      case e: False
      define l where "l = last as"
      have el: "mQueueEnd q = Some l" using en e by (simp add: l_def)
      have lin: "l \<in> set as" using e by (simp add: l_def)
      have la: "l \<noteq> a" using lin anot by auto
      define h' where "h' = (queues q)
        (l := (queues q l)\<lparr>mNextQueue := Some a\<rparr>,
         a := ?A\<lparr>mUsedBegin := mBegin ?A, mCurrent := mBegin ?A, mNextQueue := None\<rparr>)"
      define Q where "Q = q\<lparr>qmem := m', queues := h', mQueueEnd := Some a,
                               mQueue := mNextQueue ?A\<rparr>"
      have tp0: "try_pop dflt q = ret ((True, v),
          q\<lparr>qmem := m',
            queues := (queues q)
              (a := ?A\<lparr>mUsedBegin := mBegin ?A, mCurrent := mBegin ?A\<rparr>,
               l := (queues q l)\<lparr>mNextQueue := Some a\<rparr>,
               a := ?A\<lparr>mUsedBegin := mBegin ?A, mCurrent := mBegin ?A, mNextQueue := None\<rparr>),
            mQueueEnd := Some a, mQueue := mNextQueue ?A\<rparr>)"
        using True ub ib cv ne el la
        by (auto simp: try_pop_def Internal_Pop_def mq Let_def lift_def deref_def destroy_def
            ptr_add_def ret_def m'_def)
      have heq: "(queues q)
              (a := ?A\<lparr>mUsedBegin := mBegin ?A, mCurrent := mBegin ?A\<rparr>,
               l := (queues q l)\<lparr>mNextQueue := Some a\<rparr>,
               a := ?A\<lparr>mUsedBegin := mBegin ?A, mCurrent := mBegin ?A, mNextQueue := None\<rparr>) = h'"
        using la by (auto simp: h'_def fun_eq_iff)
      have "try_pop dflt q = ret ((True, v), Q)" unfolding tp0 heq Q_def by simp
      with pop have q': "q' = Q" by (simp add: ret_def)
      have ha: "h' a = ?A\<lparr>mUsedBegin := mBegin ?A, mCurrent := mBegin ?A, mNextQueue := None\<rparr>"
        by (simp add: h'_def)
      have hl: "h' l = (queues q l)\<lparr>mNextQueue := Some a\<rparr>" using la by (simp add: h'_def)
      have same: "\<And>x. x \<noteq> a \<Longrightarrow> x \<noteq> l \<Longrightarrow> h' x = queues q x" by (simp add: h'_def)
      have lnot: "l \<notin> set (butlast as)"
        using d e unfolding l_def
        by (metis append_butlast_last_id distinct_append disjoint_iff list.set_intros(1))
      have ch': "qchain h' (mNextQueue ?A) (as @ [a])"
      proof (rule qchain_link_last[OF ch e d anot])
        show "\<forall>x\<in>set (butlast as). mNextQueue (h' x) = mNextQueue (queues q x)"
        proof
          fix x assume x: "x \<in> set (butlast as)"
          then have "x \<in> set as" by (rule in_set_butlastD)
          then have "x \<noteq> a" using anot by auto
          moreover have "x \<noteq> l" using x lnot by auto
          ultimately show "mNextQueue (h' x) = mNextQueue (queues q x)" using same by simp
        qed
        show "mNextQueue (h' (last as)) = Some a" using hl by (simp add: l_def)
        show "mNextQueue (h' a) = None" by (simp add: ha)
      qed
      have "chain_inv Q (as @ [a])"
        unfolding chain_inv_def using ch' d anot bnd by (auto simp: Q_def)
      moreover have "mUsedBegin (queues Q a) = mBegin ?A" "mCurrent (queues Q a) = mBegin ?A"
        by (simp_all add: Q_def ha)
      ultimately show ?thesis using True tl e q' by simp
    qed
  qed
qed

lemma try_pop_chain:
  assumes inv: "chain_inv q bs" and pop: "try_pop dflt q = ret (r, q')"
  shows "\<exists>bs'. chain_inv q' bs'"
proof (cases "fst r")
  case False
  then obtain x where rf: "r = (False, x)" by (cases r) auto
  have "q' = q" by (rule try_pop_false[OF pop[unfolded rf]])
  with inv show ?thesis by (intro exI[of _ bs]) simp
next
  case True
  then obtain v where r: "r = (True, v)" by (cases r) auto
  show ?thesis
  proof (cases bs)
    case Nil
    with inv have "mQueue q = None" by (simp add: chain_inv_def)
    then have "try_pop dflt q = ret ((False, dflt), q)" by (simp add: try_pop_def)
    with pop r show ?thesis by (simp add: ret_def)
  next
    case (Cons a as)
    from try_pop_recycles[OF inv[unfolded Cons] pop[unfolded r]]
    have "chain_inv q' (as @ [a]) \<or> chain_inv q' (a # as)" by (simp split: if_splits)
    then show ?thesis by (rule disjE) (rule exI, assumption)+
  qed
qed

lemma run_calls_chain:
  "chain_inv q bs \<Longrightarrow> run_calls sz dflt cs q = ret q' \<Longrightarrow> \<exists>bs'. chain_inv q' bs'"
proof (induction cs arbitrary: q bs)
  case Nil
  then show ?case by (auto simp: ret_def)
next
  case (Cons c cs)
  show ?case
  proof (cases c)
    case (Push w)
    with Cons.prems(2) obtain q1 where p: "push sz w q = ret q1"
      and r: "run_calls sz dflt cs q1 = ret q'" by (auto simp: bindE_eq_ret)
    from push_chain[OF Cons.prems(1) p] Cons.IH[OF _ r] show ?thesis by blast
  next
    case Try_pop
    with Cons.prems(2) obtain x where p: "try_pop dflt q = ret x"
      and r: "run_calls sz dflt cs (snd x) = ret q'" by (auto simp: bindE_eq_ret)
    from p have "try_pop dflt q = ret (fst x, snd x)" by simp
    from try_pop_chain[OF Cons.prems(1) this] Cons.IH[OF _ r] show ?thesis by blast
  qed
qed

lemma run_calls_allocated:
  "run_calls sz dflt cs q = ret q' \<Longrightarrow>
   queue_next q \<le> queue_next q' \<and> length (bsize (qmem q)) \<le> length (bsize (qmem q'))"
proof (induction cs arbitrary: q)
  case Nil
  then show ?case by (auto simp: ret_def)
next
  case (Cons c cs)
  show ?case
  proof (cases c)
    case (Push w)
    with Cons.prems obtain q1 where p: "push sz w q = ret q1"
      and r: "run_calls sz dflt cs q1 = ret q'" by (auto simp: bindE_eq_ret)
    from push_allocated[OF p] Cons.IH[OF r] show ?thesis by simp
  next
    case Try_pop
    with Cons.prems obtain x where p: "try_pop dflt q = ret x"
      and r: "run_calls sz dflt cs (snd x) = ret q'" by (auto simp: bindE_eq_ret)
    from p have "try_pop dflt q = ret (fst x, snd x)" by simp
    from try_pop_allocated[OF this] Cons.IH[OF r] show ?thesis by simp
  qed
qed


lemma queue_a_calls:
  "run_calls 32 0 [Push 1, Push 2, Push 3, Push 4, Push 5, Push 6, Push 7, Push 8, Push 9,
                   Try_pop, Try_pop, Try_pop, Try_pop, Try_pop, Try_pop, Try_pop] new_queue =
   ret queue_a"
  apply (simp add: queue_eval cong: bindE_weak_cong)
  apply (simp add: queue_a_def fun_eq_iff null_mini_queue_def)
  done

lemma queue_a_chain: "chain_inv queue_a [0, 1]"
  by (simp add: chain_inv_def queue_a_def)

text \<open>
  Claim C5 (block recycling), as the code has it.  \<open>push\<close> and \<open>try_pop\<close> never give a block
  back, whatever the state of the queue: \<open>try_pop\<close> leaves the numbers of allocated
  \<open>MiniQueue\<close> objects and element blocks as they are, \<open>push\<close> does not lower them, and so no
  sequence of \<open>push\<close> and \<open>try_pop\<close> calls lowers them.  After every such sequence on a newly
  constructed queue the blocks form a chain that ends in \<open>mQueueEnd\<close>.  On every such chain, a
  successful \<open>try_pop\<close> that takes the last slot of the head block, when that block is not
  the tail, unlinks the block from the head and links it behind the old tail, with both
  cursors at the block's start; every other successful \<open>try_pop\<close> leaves the chain and the
  tail as they are, and a \<open>try_pop\<close> that returns \<open>false\<close> changes nothing.
\<close>

theorem block_recycling:
  "(push sz w q = ret q2 \<longrightarrow>
      queue_next q \<le> queue_next q2 \<and> length (bsize (qmem q)) \<le> length (bsize (qmem q2))) \<and>
   (try_pop dflt q = ret (r, q1) \<longrightarrow>
      queue_next q1 = queue_next q \<and> bsize (qmem q1) = bsize (qmem q)) \<and>
   (run_calls sz dflt cs q = ret q3 \<longrightarrow>
      queue_next q \<le> queue_next q3 \<and> length (bsize (qmem q)) \<le> length (bsize (qmem q3))) \<and>
   (run_calls sz dflt cs0 new_queue = ret q \<longrightarrow> (\<exists>bs. chain_inv q bs)) \<and>
   (chain_inv q (a # as) \<and> try_pop dflt q = ret ((True, v), q') \<longrightarrow>
      (if takes_last_slot (queues q a) \<and> as \<noteq> []
       then chain_inv q' (as @ [a]) \<and> mUsedBegin (queues q' a) = mBegin (queues q a) \<and>
            mCurrent (queues q' a) = mBegin (queues q a)
       else chain_inv q' (a # as))) \<and>
   (try_pop dflt qe = ret ((False, x), qe') \<longrightarrow> qe' = qe)"
proof -
  have 1: "push sz w q = ret q2 \<longrightarrow>
      queue_next q \<le> queue_next q2 \<and> length (bsize (qmem q)) \<le> length (bsize (qmem q2))"
    using push_allocated[of sz w q q2] by simp
  have 2: "try_pop dflt q = ret (r, q1) \<longrightarrow>
      queue_next q1 = queue_next q \<and> bsize (qmem q1) = bsize (qmem q)"
    using try_pop_allocated[of dflt q r q1] by simp
  have 3: "run_calls sz dflt cs q = ret q3 \<longrightarrow>
      queue_next q \<le> queue_next q3 \<and> length (bsize (qmem q)) \<le> length (bsize (qmem q3))"
    using run_calls_allocated[of sz dflt cs q q3] by simp
  have 4: "run_calls sz dflt cs0 new_queue = ret q \<longrightarrow> (\<exists>bs. chain_inv q bs)"
    using run_calls_chain[OF chain_inv_new, of sz dflt cs0 q] by simp
  have 5: "chain_inv q (a # as) \<and> try_pop dflt q = ret ((True, v), q') \<longrightarrow>
      (if takes_last_slot (queues q a) \<and> as \<noteq> []
       then chain_inv q' (as @ [a]) \<and> mUsedBegin (queues q' a) = mBegin (queues q a) \<and>
            mCurrent (queues q' a) = mBegin (queues q a)
       else chain_inv q' (a # as))"
    using try_pop_recycles[of q a as dflt v q'] by simp
  have 6: "try_pop dflt qe = ret ((False, x), qe') \<longrightarrow> qe' = qe"
    using try_pop_false[of dflt qe x qe'] by simp
  from 1 2 3 4 5 6 show ?thesis by - (intro conjI, assumption+)
qed

theorem block_recycling_witness:
  "run_calls 32 0 [Push 1, Push 2, Push 3, Push 4, Push 5, Push 6, Push 7, Push 8, Push 9,
                   Try_pop, Try_pop, Try_pop, Try_pop, Try_pop, Try_pop, Try_pop] new_queue =
     ret queue_a \<and>
   chain_inv queue_a [0, 1] \<and> try_pop 0 queue_a = ret ((True, 8), queue_b) \<and>
   takes_last_slot (queues queue_a 0) \<and> chain_inv queue_b [1, 0] \<and>
   mUsedBegin (queues queue_b 0) = Some (0, 0) \<and> mCurrent (queues queue_b 0) = Some (0, 0) \<and>
   queue_next queue_b = queue_next queue_a \<and> bsize (qmem queue_b) = bsize (qmem queue_a) \<and>
   (\<exists>q2. push 32 10 queue_a = ret q2 \<and> queue_next queue_a \<le> queue_next q2 \<and>
         length (bsize (qmem queue_a)) \<le> length (bsize (qmem q2))) \<and>
   (\<exists>q3. run_calls 32 0 [Push 10, Try_pop] queue_a = ret q3 \<and>
         queue_next queue_a \<le> queue_next q3 \<and>
         length (bsize (qmem queue_a)) \<le> length (bsize (qmem q3))) \<and>
   try_pop 0 queue_c = ret ((False, 0), queue_c)"
proof -
  have "\<exists>q2. push 32 10 queue_a = ret q2"
    by (simp add: queue_eval queue_a_def cong: bindE_weak_cong)
  then obtain q2 where p: "push 32 10 queue_a = ret q2" by blast
  have "\<exists>q3. run_calls 32 0 [Push 10, Try_pop] queue_a = ret q3"
    by (simp add: queue_eval queue_a_def cong: bindE_weak_cong)
  then obtain q3 where r: "run_calls 32 0 [Push 10, Try_pop] queue_a = ret q3" by blast
  have t: "takes_last_slot (queues queue_a 0)" by (simp add: takes_last_slot_def queue_a_def)
  have f: "try_pop 0 queue_c = ret ((False, 0), queue_c)" by (simp add: try_pop_def queue_c_def)
  have b: "mBegin (queues queue_a 0) = Some (0, 0)" by (simp add: queue_a_def)
  note B = block_recycling[where sz = 32 and w = 10 and q = queue_a and ?q2.0 = q2 and dflt = 0
      and r = "(True, 8)" and ?q1.0 = queue_b and cs = "[Push 10, Try_pop]" and ?q3.0 = q3
      and ?cs0.0 = "[Push 1, Push 2, Push 3, Push 4, Push 5, Push 6, Push 7, Push 8, Push 9,
                   Try_pop, Try_pop, Try_pop, Try_pop, Try_pop, Try_pop, Try_pop]"
      and a = 0 and as = "[1]" and v = 8 and q' = queue_b and qe = queue_c and x = 0
      and qe' = queue_c]
  from B p r t f b queue_a_calls queue_a_chain queue_b_pop show ?thesis by auto
qed

end
